theory Spec2Isabelle
  imports Main "HOL-Library.Word"
begin

unbundle bit_operations_syntax

section \<open>Data model\<close>

text \<open>
  The analyser of \<^verbatim>\<open>memtrace_ext.cpp\<close> is a set of C++ templates over the trace's word
  type \<^verbatim>\<open>W\<close> (\<^verbatim>\<open>std::uint32_t\<close> or \<^verbatim>\<open>std::uint64_t\<close>).  The records below take the
  word type as their parameter \<open>'w\<close> and are used at \<open>'a word\<close>; every \<^verbatim>\<open>std::uint32_t\<close>
  index is a \<open>32 word\<close>, so that the \<^verbatim>\<open>static_cast<std::uint32_t>(size())\<close> of the source
  truncates here as it does there.  \<^verbatim>\<open>size_t\<close> counters of in-memory containers are
  \<open>nat\<close>.  An \<^verbatim>\<open>MmVector<T>\<close> is the list of its \<^verbatim>\<open>size\<close> elements; its capacity, its
  file and the failures of \<^verbatim>\<open>ftruncate\<close>/\<^verbatim>\<open>mremap\<close> are outside the model.
\<close>

type_synonym u8 = "8 word"
type_synonym u16 = "16 word"
type_synonym u32 = "32 word"
type_synonym u64 = "64 word"

datatype Endianness = Little | Big

text \<open>
  What a call can end with other than its result: the negative return codes of the source
  (\<^verbatim>\<open>-EINVAL\<close>, \<^verbatim>\<open>-1\<close>), its exceptions, a failed \<^verbatim>\<open>assert\<close>, a read outside the mapped
  data or a container (undefined behaviour in C++), and a loop that never returns.
\<close>

datatype error =
    EINVAL
  | Failed
  | NoSuchInsn
  | ParseFailed
  | StopIteration
  | AssertionFailed
  | OutOfBounds
  | NoReturn

record 'w Def =
  startAddr :: "'w"
  endAddr :: "'w"

record 'w InsnInCode =
  pc :: "'w"
  textIndex :: u32
  textSize :: u32

record InsnInTrace =
  codeIndex :: u32
  regUseStartIndex :: u32
  regUseEndIndex :: u32
  memUseStartIndex :: u32
  memUseEndIndex :: u32
  regDefStartIndex :: u32
  regDefEndIndex :: u32
  memDefStartIndex :: u32
  memDefEndIndex :: u32

record 'w PartialUse =
  first :: u32
  second :: "'w Def"

text \<open>\<^verbatim>\<open>UdState::EntryValue\<close>; its \<^verbatim>\<open>startAddr\<close> is \<open>ev_startAddr\<close> here.\<close>

record 'w EntryValue =
  ev_startAddr :: "'w"
  defIndex :: u32

section \<open>\<^verbatim>\<open>std::map\<close> as its in-order entry list\<close>

text \<open>
  \<^verbatim>\<open>AddressSpace\<close> is a \<^verbatim>\<open>std::map<W, EntryValue>\<close> keyed by the end address.  It is
  modelled by the list of its entries in iteration order; the representation invariant of
  the map is that the keys strictly increase.  An iterator is the suffix it points at.
\<close>

type_synonym 'w AddressSpace = "('w \<times> 'w EntryValue) list"

definition keys_ascending :: "('k::linorder \<times> 'v) list \<Rightarrow> bool" where
  "keys_ascending m = sorted_wrt (\<lambda>e e'. fst e < fst e') m"

text \<open>\<^verbatim>\<open>m.lower_bound(k)\<close>: the first entry whose key is not less than \<open>k\<close>.\<close>

definition lower_bound :: "'k::linorder \<Rightarrow> ('k \<times> 'v) list \<Rightarrow> ('k \<times> 'v) list" where
  "lower_bound k m = dropWhile (\<lambda>e. fst e < k) m"

text \<open>\<^verbatim>\<open>m[k] = v\<close>: overwrite the entry of key \<open>k\<close> or insert one in key order.\<close>

fun map_assign :: "'k::linorder \<Rightarrow> 'v \<Rightarrow> ('k \<times> 'v) list \<Rightarrow> ('k \<times> 'v) list" where
  "map_assign k v [] = [(k, v)]"
| "map_assign k v (e # m) =
     (if k < fst e then (k, v) # e # m
      else if k = fst e then (k, v) # m
      else e # map_assign k v m)"

section \<open>The prime search of the partial-use table\<close>

text \<open>
  \<^verbatim>\<open>static_cast<size_t>(std::sqrt(value))\<close> is the integer square root (the double is exact
  enough for every value below \<open>2^52\<close>); it is computed here by counting up.
\<close>

function sqrt_up :: "nat \<Rightarrow> nat \<Rightarrow> nat" where
  "sqrt_up n r = (if (r + 1) * (r + 1) \<le> n then sqrt_up n (r + 1) else r)"
  by pat_completeness auto
termination
proof (relation "measure (\<lambda>(n, r). n - r)")
  show "wf (measure (\<lambda>(n, r). n - r))" by simp
next
  fix n r :: nat
  assume a: "(r + 1) * (r + 1) \<le> n"
  have "r + 1 \<le> (r + 1) * (r + 1)" by simp
  with a have "r < n" by linarith
  then show "((n, r + 1), n, r) \<in> measure (\<lambda>(n, r). n - r)" by simp
qed

declare sqrt_up.simps [simp del]

definition floor_sqrt :: "nat \<Rightarrow> nat" where
  "floor_sqrt n = sqrt_up n 0"

text \<open>
  \<^verbatim>\<open>GetFirstPrimeGreaterThanOrEqualTo\<close> keeps a function-local \<^verbatim>\<open>static std::vector\<close> of
  the odd primes found so far, starting as \<open>[3]\<close>, and extends it by calling itself.  The
  body after \<^verbatim>\<open>value |= 1\<close> is \<open>GetFirstPrime_loop\<close>, which takes the cache and returns it
  with the result: the \<^verbatim>\<open>while (true)\<close> loop is the recursion on \<open>v + 2\<close>, the inner
  \<^verbatim>\<open>while (primes.back() <= valueSqrt)\<close> the recursion on the longer cache.  The search has
  no bound in the source, so the function is partial: \<open>None\<close> is a search that never
  returns.
\<close>

partial_function (option) GetFirstPrime_loop :: "nat \<Rightarrow> nat list \<Rightarrow> (nat \<times> nat list) option" where
  "GetFirstPrime_loop v primes =
     (if primes = [] then None
      else if last primes \<le> floor_sqrt v then
        Option.bind (GetFirstPrime_loop ((last primes + 1) OR 1) primes)
          (\<lambda>r. GetFirstPrime_loop v (snd r @ [fst r]))
      else if list_ex (\<lambda>p. v mod p = 0) (takeWhile (\<lambda>p. p \<le> floor_sqrt v) primes)
      then GetFirstPrime_loop (v + 2) primes
      else Some (v, primes))"

declare GetFirstPrime_loop.simps [code]

definition GetFirstPrimeGreaterThanOrEqualTo_cached ::
    "nat \<Rightarrow> nat list \<Rightarrow> (nat \<times> nat list) option" where
  "GetFirstPrimeGreaterThanOrEqualTo_cached v primes = GetFirstPrime_loop (v OR 1) primes"

text \<open>
  The value returned on the initial cache.  The cache is a memo table: lemma
  \<open>GetFirstPrime_cache_irrelevant\<close> below shows, for the arguments up to
  \<open>prime_search_bound\<close>, that every cache the function can have built gives the same value,
  so the callers below do not thread the cache.
\<close>

definition GetFirstPrimeGreaterThanOrEqualTo :: "nat \<Rightarrow> nat option" where
  "GetFirstPrimeGreaterThanOrEqualTo v =
     map_option fst (GetFirstPrimeGreaterThanOrEqualTo_cached v [3])"

section \<open>The partial-use table\<close>

record 'w PartialUses =
  entries :: "'w PartialUse list"
  load :: nat
  maxLoad :: nat

text \<open>\<^verbatim>\<open>static_cast<std::uint32_t>(-1)\<close>, the key of an empty slot.\<close>

definition kNoUse :: u32 where
  "kNoUse = - 1"

text \<open>
  \<^verbatim>\<open>ScanPartialUses(partialUses, partialUseCount, useIndex)\<close>: the scanned range is passed
  as a list; the result is the offset of the entry found, \<open>None\<close> for \<^verbatim>\<open>nullptr\<close>.
\<close>

fun ScanPartialUses :: "'w PartialUse list \<Rightarrow> u32 \<Rightarrow> nat option" where
  "ScanPartialUses [] useIndex = None"
| "ScanPartialUses (partialUse # rest) useIndex =
     (if first partialUse = useIndex \<or> first partialUse = kNoUse then Some 0
      else map_option Suc (ScanPartialUses rest useIndex))"

text \<open>
  \<^verbatim>\<open>FindPartialUse\<close> returns a reference into the table, here the slot's index.  A table of
  size 0 would divide by zero and a table with neither the key nor a free slot fails the
  \<^verbatim>\<open>assert\<close>.
\<close>

definition FindPartialUse :: "'w PartialUse list \<Rightarrow> u32 \<Rightarrow> error + nat" where
  "FindPartialUse hashTable useIndex =
     (let hashTableSize = length hashTable in
      if hashTableSize = 0 then Inl OutOfBounds
      else
        let entryIndex = unat useIndex mod hashTableSize in
        (case ScanPartialUses (drop entryIndex hashTable) useIndex of
           Some i \<Rightarrow> Inr (entryIndex + i)
         | None \<Rightarrow>
             (case ScanPartialUses (take entryIndex hashTable) useIndex of
                Some i \<Rightarrow> Inr i
              | None \<Rightarrow> Inl AssertionFailed)))"

text \<open>\<^verbatim>\<open>MmVector::resize(n)\<close> with the value-initialised default element.\<close>

definition zero_PartialUse :: "'a::len word PartialUse" where
  "zero_PartialUse = \<lparr>first = 0, second = \<lparr>startAddr = 0, endAddr = 0\<rparr>\<rparr>"

definition resize :: "nat \<Rightarrow> 'x \<Rightarrow> 'x list \<Rightarrow> 'x list" where
  "resize n val xs = take n xs @ replicate (n - length xs) val"

text \<open>\<^verbatim>\<open>PartialUses::Init\<close> for a created (not reopened) table, on the fresh object.\<close>

definition PartialUses_Init :: "'a::len word PartialUses" where
  "PartialUses_Init =
     (let table = map (\<lambda>e. e\<lparr>first := kNoUse\<rparr>) (resize 11 zero_PartialUse [])
      in \<lparr>entries = table, load = 0, maxLoad = length table div 2\<rparr>)"

text \<open>\<^verbatim>\<open>PartialUses::find\<close>: the entry of \<open>useIndex\<close>, \<open>None\<close> for \<^verbatim>\<open>nullptr\<close>.\<close>

definition PartialUses_find :: "'w PartialUses \<Rightarrow> u32 \<Rightarrow> error + 'w PartialUse option" where
  "PartialUses_find pu useIndex =
     (case FindPartialUse (entries pu) useIndex of
        Inl e \<Rightarrow> Inl e
      | Inr i \<Rightarrow>
          let result = entries pu ! i
          in Inr (if first result = useIndex then Some result else None))"

text \<open>The refill loop of \<^verbatim>\<open>PartialUses::reserve\<close> over the saved old entries.\<close>

fun reserve_refill :: "'w PartialUse list \<Rightarrow> 'w PartialUse list \<Rightarrow> error + 'w PartialUse list" where
  "reserve_refill [] table = Inr table"
| "reserve_refill (oldEntry # oldEntries) table =
     (if first oldEntry = kNoUse then reserve_refill oldEntries table
      else
        (case FindPartialUse table (first oldEntry) of
           Inl e \<Rightarrow> Inl e
         | Inr i \<Rightarrow>
             if first (table ! i) \<noteq> kNoUse then Inl AssertionFailed
             else reserve_refill oldEntries (table[i := oldEntry])))"

definition PartialUses_reserve ::
    "nat \<Rightarrow> 'a::len word PartialUses \<Rightarrow> error + 'a word PartialUses" where
  "PartialUses_reserve n pu =
     (case GetFirstPrimeGreaterThanOrEqualTo (n * 2) of
        None \<Rightarrow> Inl NoReturn
      | Some newSize \<Rightarrow>
          let oldEntries = entries pu;
              cleared = map (\<lambda>e. e\<lparr>first := kNoUse\<rparr>) (resize newSize zero_PartialUse oldEntries)
          in (case reserve_refill oldEntries cleared of
                Inl e \<Rightarrow> Inl e
              | Inr table \<Rightarrow> Inr (pu\<lparr>entries := table, maxLoad := newSize div 2\<rparr>)))"

text \<open>
  \<^verbatim>\<open>PartialUses::operator[]\<close> returns a reference to the \<^verbatim>\<open>second\<close> of a slot; the model
  returns the slot's index with the table.
\<close>

definition PartialUses_index ::
    "u32 \<Rightarrow> 'a::len word PartialUses \<Rightarrow> error + (nat \<times> 'a word PartialUses)" where
  "PartialUses_index useIndex pu =
     (case FindPartialUse (entries pu) useIndex of
        Inl e \<Rightarrow> Inl e
      | Inr i1 \<Rightarrow>
          if first (entries pu ! i1) = useIndex then Inr (i1, pu)
          else
            let pu1 = pu\<lparr>entries := (entries pu)[i1 := (entries pu ! i1)\<lparr>first := useIndex\<rparr>],
                        load := load pu + 1\<rparr>
            in if load pu1 \<le> maxLoad pu1 then Inr (i1, pu1)
               else
                 (case PartialUses_reserve (load pu1 * 2) pu1 of
                    Inl e \<Rightarrow> Inl e
                  | Inr pu2 \<Rightarrow>
                      (case FindPartialUse (entries pu2) useIndex of
                         Inl e \<Rightarrow> Inl e
                       | Inr i2 \<Rightarrow>
                           if first (entries pu2 ! i2) \<noteq> useIndex then Inl AssertionFailed
                           else Inr (i2, pu2))))"

text \<open>The statement \<^verbatim>\<open>partialUses[useIndex] = def\<close>.\<close>

definition PartialUses_set ::
    "u32 \<Rightarrow> 'a::len word Def \<Rightarrow> 'a word PartialUses \<Rightarrow> error + 'a word PartialUses" where
  "PartialUses_set useIndex d pu =
     (case PartialUses_index useIndex pu of
        Inl e \<Rightarrow> Inl e
      | Inr (i, pu') \<Rightarrow>
          Inr (pu'\<lparr>entries := (entries pu')[i := (entries pu' ! i)\<lparr>second := d\<rparr>]\<rparr>))"

section \<open>The live-writer index \<^verbatim>\<open>UdState\<close>\<close>

record 'w UdState =
  uses :: "u32 list"
  partialUses :: "'w PartialUses"
  defs :: "'w Def list"
  addressSpace :: "'w AddressSpace"

text \<open>
  \<^verbatim>\<open>UdState::Init\<close> for a created state: the two \<^verbatim>\<open>MmVector::reserve\<close> calls only change
  capacities, \<^verbatim>\<open>partialUses.reserve\<close> rehashes the empty table to its first size.
\<close>

definition UdState_Init :: "nat \<Rightarrow> error + 'a::len word UdState" where
  "UdState_Init expectedPartialUseCount =
     (case PartialUses_reserve expectedPartialUseCount PartialUses_Init of
        Inl e \<Rightarrow> Inl e
      | Inr pu \<Rightarrow> Inr \<lparr>uses = [], partialUses = pu, defs = [], addressSpace = []\<rparr>)"

definition AddDef :: "'a::len word \<Rightarrow> 'a word \<Rightarrow> 'a word UdState \<Rightarrow> 'a word UdState" where
  "AddDef startAddr' endAddr' st =
     (let defIndex' = (word_of_nat (length (defs st)) :: u32)
      in st\<lparr>defs := defs st @ [\<lparr>startAddr = startAddr', endAddr = endAddr'\<rparr>],
             addressSpace :=
               map_assign endAddr' \<lparr>ev_startAddr = startAddr', defIndex = defIndex'\<rparr>
                 (addressSpace st)\<rparr>)"

text \<open>
  The entries both \<^verbatim>\<open>AddUses\<close> and \<^verbatim>\<open>AddDefs\<close> walk: from \<^verbatim>\<open>lower_bound(startAddr + 1)\<close>
  while \<^verbatim>\<open>it->second.startAddr < endAddr\<close>.
\<close>

definition affected_entries :: "'a::len word \<Rightarrow> 'a word \<Rightarrow> 'a word AddressSpace \<Rightarrow> 'a word AddressSpace" where
  "affected_entries startAddr' endAddr' m =
     takeWhile (\<lambda>e. ev_startAddr (snd e) < endAddr') (lower_bound (startAddr' + 1) m)"

text \<open>One iteration of the loop of \<^verbatim>\<open>AddUses\<close>.\<close>

definition AddUses_step ::
    "'a::len word \<Rightarrow> 'a word \<Rightarrow> ('a word \<times> 'a word EntryValue) \<Rightarrow> 'a word UdState
      \<Rightarrow> error + 'a word UdState" where
  "AddUses_step startAddr' endAddr' it st =
     (let useIndex = (word_of_nat (length (uses st)) :: u32);
          st1 = st\<lparr>uses := uses st @ [defIndex (snd it)]\<rparr>
      in if unat (defIndex (snd it)) \<ge> length (defs st1) then Inl OutOfBounds
         else
           let def = defs st1 ! unat (defIndex (snd it));
               maxStartAddr = max startAddr' (ev_startAddr (snd it));
               minEndAddr = min endAddr' (fst it)
           in if startAddr def \<noteq> maxStartAddr \<or> endAddr def \<noteq> minEndAddr then
                (case PartialUses_set useIndex \<lparr>startAddr = maxStartAddr, endAddr = minEndAddr\<rparr>
                        (partialUses st1) of
                   Inl e \<Rightarrow> Inl e
                 | Inr pu \<Rightarrow> Inr (st1\<lparr>partialUses := pu\<rparr>))
              else Inr st1)"

fun AddUses_loop ::
    "'a::len word \<Rightarrow> 'a word \<Rightarrow> 'a word AddressSpace \<Rightarrow> 'a word UdState
      \<Rightarrow> error + 'a word UdState" where
  "AddUses_loop startAddr' endAddr' [] st = Inr st"
| "AddUses_loop startAddr' endAddr' (it # its) st =
     (case AddUses_step startAddr' endAddr' it st of
        Inl e \<Rightarrow> Inl e
      | Inr st' \<Rightarrow> AddUses_loop startAddr' endAddr' its st')"

definition AddUses :: "'a::len word \<Rightarrow> 'a word \<Rightarrow> 'a word UdState \<Rightarrow> error + 'a word UdState" where
  "AddUses startAddr' size' st =
     (let endAddr' = startAddr' + size'
      in AddUses_loop startAddr' endAddr'
           (affected_entries startAddr' endAddr' (addressSpace st)) st)"

text \<open>
  The body of the second loop of \<^verbatim>\<open>AddDefs\<close>: what is put back into the map for one
  erased entry.
\<close>

definition reinsert_residue ::
    "'a::len word \<Rightarrow> 'a word \<Rightarrow> 'a word AddressSpace \<Rightarrow> ('a word \<times> 'a word EntryValue)
      \<Rightarrow> 'a word AddressSpace" where
  "reinsert_residue startAddr' endAddr' m entry =
     (let entryStartAddr = ev_startAddr (snd entry);
          entryEndAddr = fst entry;
          entryDefIndex = defIndex (snd entry)
      in if startAddr' \<le> entryStartAddr then
           (if endAddr' < entryEndAddr then
              map_assign entryEndAddr \<lparr>ev_startAddr = endAddr', defIndex = entryDefIndex\<rparr> m
            else m)
         else
           (if endAddr' < entryEndAddr then
              map_assign entryEndAddr \<lparr>ev_startAddr = endAddr', defIndex = entryDefIndex\<rparr>
                (map_assign startAddr' \<lparr>ev_startAddr = entryStartAddr, defIndex = entryDefIndex\<rparr> m)
            else
              map_assign startAddr' \<lparr>ev_startAddr = entryStartAddr, defIndex = entryDefIndex\<rparr> m))"

definition kMaxAffectedCount :: nat where
  "kMaxAffectedCount = 32"

text \<open>
  \<^verbatim>\<open>AddDefs\<close>.  \<open>affectedCount\<close> is a \<^verbatim>\<open>std::uint32_t\<close> in the source; it counts nodes of
  an in-memory \<^verbatim>\<open>std::map\<close> and is a \<open>nat\<close> here.  \<^verbatim>\<open>erase(firstAffected, lastAffected)\<close>
  leaves the entries before \<open>firstAffected\<close> and those from \<open>lastAffected\<close> on.  The
  result is the return code (\<open>None\<close> for 0) with the state the call leaves behind.
\<close>

definition AddDefs ::
    "'a::len word \<Rightarrow> 'a word \<Rightarrow> 'a word UdState \<Rightarrow> error option \<times> 'a word UdState" where
  "AddDefs startAddr' size' st =
     (let endAddr' = startAddr' + size';
          m = addressSpace st;
          firstAffected = lower_bound (startAddr' + 1) m;
          affected = takeWhile (\<lambda>e. ev_startAddr (snd e) < endAddr') firstAffected;
          lastAffected = dropWhile (\<lambda>e. ev_startAddr (snd e) < endAddr') firstAffected;
          affectedCount = length affected
      in if affectedCount > kMaxAffectedCount then (Some EINVAL, st)
         else
           let erased = takeWhile (\<lambda>e. fst e < startAddr' + 1) m @ lastAffected;
               reinserted = foldl (reinsert_residue startAddr' endAddr') erased affected
           in (None, AddDef startAddr' endAddr' (st\<lparr>addressSpace := reinserted\<rparr>)))"

section \<open>Resolving a use\<close>

text \<open>
  \<^verbatim>\<open>std::upper_bound(first, last, val, comp)\<close> is the bisection of the C++ standard library:
  \<open>first\<close> and \<open>len\<close> are the start and the length of the range still searched.
\<close>

function upper_bound_loop :: "('v \<Rightarrow> 'e \<Rightarrow> bool) \<Rightarrow> 'v \<Rightarrow> 'e list \<Rightarrow> nat \<Rightarrow> nat \<Rightarrow> nat" where
  "upper_bound_loop cmp val xs first' len =
     (if len > 0 then
        let half = len div 2;
            middle = first' + half
        in if cmp val (xs ! middle) then upper_bound_loop cmp val xs first' half
           else upper_bound_loop cmp val xs (middle + 1) (len - half - 1)
      else first')"
  by pat_completeness auto
termination
  by (relation "measure (\<lambda>(cmp, val, xs, first', len). len)") auto

declare upper_bound_loop.simps [simp del]

definition upper_bound :: "('v \<Rightarrow> 'e \<Rightarrow> bool) \<Rightarrow> 'v \<Rightarrow> 'e list \<Rightarrow> nat" where
  "upper_bound cmp val xs = upper_bound_loop cmp val xs 0 (length xs)"

text \<open>
  The free function \<^verbatim>\<open>ResolveUse\<close>.  The pointer-to-member \<open>startDefIndex\<close> is a field
  selector.  The source returns a pointer to the \<^verbatim>\<open>Def\<close>; the model returns the \<^verbatim>\<open>Def\<close>
  its callers read.  \<^verbatim>\<open>--it\<close> on \<^verbatim>\<open>traceBegin\<close> leaves the array.
\<close>

definition ResolveUse ::
    "u32 \<Rightarrow> u32 list \<Rightarrow> 'w Def list \<Rightarrow> 'w PartialUse list \<Rightarrow> InsnInTrace list
      \<Rightarrow> (InsnInTrace \<Rightarrow> u32) \<Rightarrow> error + ('w Def \<times> u32)" where
  "ResolveUse useIndex uses' defs' partialUses' trace' startDefIndex =
     (if unat useIndex \<ge> length uses' then Inl OutOfBounds
      else
        let defIndex' = uses' ! unat useIndex
        in (case FindPartialUse partialUses' useIndex of
              Inl e \<Rightarrow> Inl e
            | Inr i \<Rightarrow>
                let partialUse = partialUses' ! i;
                    it = upper_bound (\<lambda>d t. d < startDefIndex t) defIndex' trace'
                in if it = 0 then Inl OutOfBounds
                   else
                     let traceIndex = (word_of_nat (it - 1) :: u32)
                     in if first partialUse = kNoUse then
                          (if unat defIndex' \<ge> length defs' then Inl OutOfBounds
                           else Inr (defs' ! unat defIndex', traceIndex))
                        else Inr (second partialUse, traceIndex)))"

definition UdState_ResolveUse ::
    "'w UdState \<Rightarrow> u32 \<Rightarrow> InsnInTrace list \<Rightarrow> (InsnInTrace \<Rightarrow> u32) \<Rightarrow> error + ('w Def \<times> u32)" where
  "UdState_ResolveUse st useIndex trace' startDefIndex =
     ResolveUse useIndex (uses st) (defs st) (entries (partialUses st)) trace' startDefIndex"

section \<open>The disassembler\<close>

text \<open>
  Capstone is an external library.  \<^verbatim>\<open>Disasm::Init\<close> chooses its architecture and mode from
  the machine type, the endianness and the word size and rejects the combinations it does
  not know; whether \<^verbatim>\<open>cs_open\<close> then succeeds and what \<^verbatim>\<open>cs_disasm\<close> decodes are
  parameters of the model.
\<close>

definition EM_386 :: u16 where "EM_386 = 3"
definition EM_X86_64 :: u16 where "EM_X86_64 = 62"
definition EM_PPC :: u16 where "EM_PPC = 20"
definition EM_PPC64 :: u16 where "EM_PPC64 = 21"
definition EM_ARM :: u16 where "EM_ARM = 40"
definition EM_AARCH64 :: u16 where "EM_AARCH64 = 183"
definition EM_S390 :: u16 where "EM_S390 = 22"
definition EM_MIPS :: u16 where "EM_MIPS = 8"
definition EM_NANOMIPS :: u16 where "EM_NANOMIPS = 249"

datatype cs_arch = CS_ARCH_X86 | CS_ARCH_PPC | CS_ARCH_ARM | CS_ARCH_ARM64 | CS_ARCH_SYSZ | CS_ARCH_MIPS

datatype cs_mode =
    CS_MODE_32 | CS_MODE_64 | CS_MODE_ARM | CS_MODE_MIPS32 | CS_MODE_MIPS64
  | CS_MODE_LITTLE_ENDIAN | CS_MODE_BIG_ENDIAN

record capstone =
  cs_open :: "cs_arch \<Rightarrow> cs_mode list \<Rightarrow> bool"
  cs_disasm :: "cs_arch \<Rightarrow> cs_mode list \<Rightarrow> u8 list \<Rightarrow> u64 \<Rightarrow> (string \<times> string) option"

definition endian_mode :: "Endianness \<Rightarrow> cs_mode" where
  "endian_mode e = (case e of Little \<Rightarrow> CS_MODE_LITTLE_ENDIAN | Big \<Rightarrow> CS_MODE_BIG_ENDIAN)"

definition Disasm_Init ::
    "capstone \<Rightarrow> u16 \<Rightarrow> Endianness \<Rightarrow> nat \<Rightarrow> error + (cs_arch \<times> cs_mode list)" where
  "Disasm_Init cs type' endianness' wordSize =
     (let chosen =
        (if type' = EM_386 then
           (if endianness' \<noteq> Little \<or> wordSize \<noteq> 4 then Inl EINVAL
            else Inr (CS_ARCH_X86, [CS_MODE_32]))
         else if type' = EM_X86_64 then
           (if endianness' \<noteq> Little \<or> wordSize \<noteq> 8 then Inl EINVAL
            else Inr (CS_ARCH_X86, [CS_MODE_64]))
         else if type' = EM_PPC64 then
           (if wordSize \<noteq> 8 then Inl EINVAL
            else Inr (CS_ARCH_PPC, [CS_MODE_64, endian_mode endianness']))
         else if type' = EM_ARM then
           (if wordSize \<noteq> 4 then Inl EINVAL
            else Inr (CS_ARCH_ARM, [CS_MODE_ARM, endian_mode endianness']))
         else if type' = EM_AARCH64 then
           (if wordSize \<noteq> 8 then Inl EINVAL
            else Inr (CS_ARCH_ARM64, [endian_mode endianness']))
         else if type' = EM_S390 then
           (if endianness' \<noteq> Big then Inl EINVAL
            else Inr (CS_ARCH_SYSZ, [CS_MODE_BIG_ENDIAN]))
         else if type' = EM_MIPS then
           (if wordSize = 4 then Inr (CS_ARCH_MIPS, [CS_MODE_MIPS32, endian_mode endianness'])
            else Inr (CS_ARCH_MIPS, [CS_MODE_MIPS64, endian_mode endianness']))
         else Inl Failed)
      in case chosen of
           Inl e \<Rightarrow> Inl e
         | Inr (arch, mode) \<Rightarrow> if cs_open cs arch mode then Inr (arch, mode) else Inl Failed)"

section \<open>The ud builder\<close>

record 'w Ud =
  machineType :: u16
  endianness :: Endianness
  disasmEngine :: "(cs_arch \<times> cs_mode list) option"
  code :: "'w InsnInCode list"
  textBytes :: "u8 list"
  disasm :: "string list"
  trace :: "InsnInTrace list"
  regState :: "'w UdState"
  memState :: "'w UdState"

definition sizeof_W :: "'a::len itself \<Rightarrow> nat" where
  "sizeof_W w = LENGTH('a) div 8"

text \<open>\<^verbatim>\<open>Ud::AddTrace\<close>: \<^verbatim>\<open>emplace_back()\<close> value-initialises the end indices to 0.\<close>

definition AddTrace :: "u32 \<Rightarrow> 'w Ud \<Rightarrow> 'w Ud" where
  "AddTrace codeIndex' ud =
     ud\<lparr>trace := trace ud @
       [\<lparr>codeIndex = codeIndex',
         regUseStartIndex = word_of_nat (length (uses (regState ud))),
         regUseEndIndex = 0,
         memUseStartIndex = word_of_nat (length (uses (memState ud))),
         memUseEndIndex = 0,
         regDefStartIndex = word_of_nat (length (defs (regState ud))),
         regDefEndIndex = 0,
         memDefStartIndex = word_of_nat (length (defs (memState ud))),
         memDefEndIndex = 0\<rparr>]\<rparr>"

text \<open>
  \<^verbatim>\<open>Ud::Flush\<close>, without the printing of verbose mode.  \<^verbatim>\<open>trace_.back()\<close> of an empty
  vector is outside the array.
\<close>

definition Flush :: "'w Ud \<Rightarrow> error + 'w Ud" where
  "Flush ud =
     (if trace ud = [] then Inl OutOfBounds
      else Inr (ud\<lparr>trace := butlast (trace ud) @
        [(last (trace ud))
           \<lparr>regUseEndIndex := word_of_nat (length (uses (regState ud))),
            memUseEndIndex := word_of_nat (length (uses (memState ud))),
            regDefEndIndex := word_of_nat (length (defs (regState ud))),
            memDefEndIndex := word_of_nat (length (defs (memState ud)))\<rparr>]\<rparr>))"

definition HandleInsnSeq :: "u32 \<Rightarrow> 'w Ud \<Rightarrow> error + 'w Ud" where
  "HandleInsnSeq insnSeq ud =
     (if trace ud = [] then Inl OutOfBounds
      else if codeIndex (last (trace ud)) = insnSeq then Inr ud
      else (case Flush ud of
              Inl e \<Rightarrow> Inl e
            | Inr ud' \<Rightarrow> Inr (AddTrace insnSeq ud')))"

text \<open>
  \<^verbatim>\<open>Ud::Init(mode, machineType, endianness, expectedInsnCount)\<close> on a fresh object, for
  the two creating modes (\<open>mode \<noteq> OpenExisting\<close>).  Path handling and the creation of the
  files are input/output and taken to succeed.
\<close>

definition Ud_Init ::
    "capstone \<Rightarrow> u16 \<Rightarrow> Endianness \<Rightarrow> nat \<Rightarrow> error + 'a::len word Ud" where
  "Ud_Init cs machineType' endianness' expectedInsnCount =
     (case UdState_Init (expectedInsnCount div 10) of
        Inl e \<Rightarrow> Inl e
      | Inr regState0 \<Rightarrow>
          (case UdState_Init (expectedInsnCount div 20) of
             Inl e \<Rightarrow> Inl e
           | Inr memState0 \<Rightarrow>
               let ud0 = \<lparr>machineType = machineType', endianness = endianness',
                          disasmEngine = None, code = [], textBytes = [], disasm = [],
                          trace = [], regState = regState0, memState = memState0\<rparr>;
                   codeIndex' = (word_of_nat (length (code ud0)) :: u32);
                   ud1 = ud0\<lparr>code := code ud0 @ [\<lparr>pc = 0, textIndex = 0, textSize = 0\<rparr>],
                             disasm := disasm ud0 @ [''<unknown>'']\<rparr>;
                   ud2 = AddTrace codeIndex' ud1;
                   ud3 = ud2\<lparr>regState := AddDef 0 (- 1) (regState ud2)\<rparr>;
                   ud4 = ud3\<lparr>memState := AddDef 0 (- 1) (memState ud3)\<rparr>
               in (case Disasm_Init cs machineType' endianness' (sizeof_W TYPE('a)) of
                     Inl e \<Rightarrow> Inl e
                   | Inr engine \<Rightarrow> Inr (ud4\<lparr>disasmEngine := Some engine\<rparr>))))"

text \<open>The query \<^verbatim>\<open>Ud::GetTraceForRegUse\<close> and its memory twin.\<close>

definition GetTraceForRegUse :: "'w Ud \<Rightarrow> u32 \<Rightarrow> error + u32" where
  "GetTraceForRegUse ud regUse =
     map_sum id snd (UdState_ResolveUse (regState ud) regUse (trace ud) regDefStartIndex)"

definition GetTraceForMemUse :: "'w Ud \<Rightarrow> u32 \<Rightarrow> error + u32" where
  "GetTraceForMemUse ud memUse =
     map_sum id snd (UdState_ResolveUse (memState ud) memUse (trace ud) memDefStartIndex)"

section \<open>The trace reader\<close>

text \<open>
  The mapped file is the list of its bytes and a pointer into it is an offset.  The reader
  templates are parameterised by the endianness \<open>E\<close>, passed as a value, and by the word
  type \<^verbatim>\<open>W\<close>, passed as the type \<open>'a\<close> of \<open>'a word\<close>.  \<^verbatim>\<open>RawInt<E, T>::GetValue\<close> loads a
  \<^verbatim>\<open>T\<close> and swaps it to host order, i.e. decodes \<^verbatim>\<open>sizeof(T)\<close> bytes in the order \<open>E\<close>; a load
  that leaves the mapping is \<open>OutOfBounds\<close>.
\<close>

fun le_value :: "u8 list \<Rightarrow> nat" where
  "le_value [] = 0"
| "le_value (b # bs) = unat b + 256 * le_value bs"

definition RawInt :: "Endianness \<Rightarrow> nat \<Rightarrow> u8 list \<Rightarrow> nat \<Rightarrow> error + nat" where
  "RawInt E n bytes p =
     (if p + n > length bytes then Inl OutOfBounds
      else Inr (case E of
                  Little \<Rightarrow> le_value (take n (drop p bytes))
                | Big \<Rightarrow> le_value (rev (take n (drop p bytes)))))"

definition RawInt16 :: "Endianness \<Rightarrow> u8 list \<Rightarrow> nat \<Rightarrow> error + u16" where
  "RawInt16 E bytes p = map_sum id word_of_nat (RawInt E 2 bytes p)"

definition RawInt32 :: "Endianness \<Rightarrow> u8 list \<Rightarrow> nat \<Rightarrow> error + u32" where
  "RawInt32 E bytes p = map_sum id word_of_nat (RawInt E 4 bytes p)"

definition RawIntW :: "Endianness \<Rightarrow> u8 list \<Rightarrow> nat \<Rightarrow> error + 'a::len word" where
  "RawIntW E bytes p = map_sum id word_of_nat (RawInt E (sizeof_W TYPE('a)) bytes p)"

definition MT_LOAD :: u16 where "MT_LOAD = 0x4c4c"
definition MT_STORE :: u16 where "MT_STORE = 0x5353"
definition MT_REG :: u16 where "MT_REG = 0x5252"
definition MT_INSN :: u16 where "MT_INSN = 0x4949"
definition MT_GET_REG :: u16 where "MT_GET_REG = 0x4747"
definition MT_PUT_REG :: u16 where "MT_PUT_REG = 0x5050"
definition MT_INSN_EXEC :: u16 where "MT_INSN_EXEC = 0x5858"
definition MT_GET_REG_NX :: u16 where "MT_GET_REG_NX = 0x6767"
definition MT_PUT_REG_NX :: u16 where "MT_PUT_REG_NX = 0x7070"
definition MT_MMAP :: u16 where "MT_MMAP = 0x4d4d"

definition Tlv_kFixedLength :: nat where
  "Tlv_kFixedLength = 4"

definition Tlv_GetTag :: "Endianness \<Rightarrow> u8 list \<Rightarrow> nat \<Rightarrow> error + u16" where
  "Tlv_GetTag E bytes p = RawInt16 E bytes p"

definition Tlv_GetLength :: "Endianness \<Rightarrow> u8 list \<Rightarrow> nat \<Rightarrow> error + 'a::len word" where
  "Tlv_GetLength E bytes p = map_sum id ucast (RawInt16 E bytes (p + 2))"

definition Tlv_GetAlignedLength :: "Endianness \<Rightarrow> u8 list \<Rightarrow> nat \<Rightarrow> error + 'a::len word" where
  "Tlv_GetAlignedLength E bytes p =
     map_sum id
       (\<lambda>len. (len + (word_of_nat (sizeof_W TYPE('a)) - 1))
                AND NOT (word_of_nat (sizeof_W TYPE('a)) - 1 :: 'a word))
       (Tlv_GetLength E bytes p)"

definition HeaderEntry_kFixedLength :: nat where
  "HeaderEntry_kFixedLength = Tlv_kFixedLength + 2"

definition HeaderEntry_GetMachineType :: "Endianness \<Rightarrow> u8 list \<Rightarrow> nat \<Rightarrow> error + u16" where
  "HeaderEntry_GetMachineType E bytes p = RawInt16 E bytes (p + Tlv_kFixedLength)"

text \<open>
  The entry views handed to a visitor; each holds the offset of its record.  The offsets
  \<^verbatim>\<open>kInsnSeqOffset\<close>, \<^verbatim>\<open>kAddrOffset\<close> (\<^verbatim>\<open>kPcOffset\<close>) and \<^verbatim>\<open>kValueOffset\<close> (\<^verbatim>\<open>kSizeOffset\<close>)
  are the same in the entry classes that have them.
\<close>

datatype Entry =
    LdStEntry nat
  | InsnEntry nat
  | InsnExecEntry nat
  | LdStNxEntry nat
  | MmapEntry nat

definition kInsnSeqOffset :: nat where
  "kInsnSeqOffset = Tlv_kFixedLength"

definition kAddrOffset :: nat where
  "kAddrOffset = kInsnSeqOffset + 4"

definition kValueOffset :: "'a::len itself \<Rightarrow> nat" where
  "kValueOffset w = kAddrOffset + sizeof_W w"

definition Entry_GetInsnSeq :: "Endianness \<Rightarrow> u8 list \<Rightarrow> nat \<Rightarrow> error + u32" where
  "Entry_GetInsnSeq E bytes p = RawInt32 E bytes (p + kInsnSeqOffset)"

definition Entry_GetAddr :: "Endianness \<Rightarrow> u8 list \<Rightarrow> nat \<Rightarrow> error + 'a::len word" where
  "Entry_GetAddr E bytes p = RawIntW E bytes (p + kAddrOffset)"

text \<open>\<^verbatim>\<open>LdStEntry::GetSize\<close> and \<^verbatim>\<open>InsnEntry::GetSize\<close>: a subtraction in \<^verbatim>\<open>W\<close>.\<close>

definition Entry_GetSize :: "Endianness \<Rightarrow> u8 list \<Rightarrow> nat \<Rightarrow> error + 'a::len word" where
  "Entry_GetSize E bytes p =
     map_sum id (\<lambda>len. len - word_of_nat (kValueOffset TYPE('a)))
       (Tlv_GetLength E bytes p :: error + 'a word)"

definition LdStNxEntry_GetSize :: "Endianness \<Rightarrow> u8 list \<Rightarrow> nat \<Rightarrow> error + 'a::len word" where
  "LdStNxEntry_GetSize E bytes p = RawIntW E bytes (p + kValueOffset TYPE('a))"

text \<open>The \<^verbatim>\<open>GetSize()\<close> bytes from \<^verbatim>\<open>GetValue()\<close> on, as \<^verbatim>\<open>Ud\<close> copies them.\<close>

definition Entry_GetValue :: "'a::len itself \<Rightarrow> u8 list \<Rightarrow> nat \<Rightarrow> nat \<Rightarrow> error + u8 list" where
  "Entry_GetValue w bytes p n =
     (if p + kValueOffset w + n > length bytes then Inl OutOfBounds
      else Inr (take n (drop (p + kValueOffset w) bytes)))"

record TraceMm =
  data :: "u8 list"
  cur :: nat
  entryIndex :: nat

definition Have :: "TraceMm \<Rightarrow> nat \<Rightarrow> bool" where
  "Have t n = (cur t + n \<le> length (data t))"

definition Advance :: "TraceMm \<Rightarrow> nat \<Rightarrow> TraceMm option" where
  "Advance t n = (if cur t + n > length (data t) then None else Some (t\<lparr>cur := cur t + n\<rparr>))"

definition TraceMm_Init :: "'a::len itself \<Rightarrow> Endianness \<Rightarrow> TraceMm \<Rightarrow> error + TraceMm" where
  "TraceMm_Init w E t =
     (if \<not> Have t HeaderEntry_kFixedLength then Inl EINVAL
      else (case (Tlv_GetAlignedLength E (data t) 0 :: error + 'a word) of
              Inl e \<Rightarrow> Inl e
            | Inr n \<Rightarrow> (case Advance t (unat n) of None \<Rightarrow> Inl EINVAL | Some t' \<Rightarrow> Inr t')))"

text \<open>
  A visitor is its five \<^verbatim>\<open>operator()\<close> overloads taken together: a function of the entry
  index, the entry view and the visitor's state, reading the record through \<open>E\<close> and the
  mapped bytes.
\<close>

type_synonym 'v visitor = "Endianness \<Rightarrow> u8 list \<Rightarrow> nat \<Rightarrow> Entry \<Rightarrow> 'v \<Rightarrow> error + 'v"

definition dispatch :: "u16 \<Rightarrow> nat \<Rightarrow> Entry option" where
  "dispatch tag p =
     (if tag = MT_LOAD \<or> tag = MT_STORE \<or> tag = MT_REG \<or> tag = MT_GET_REG \<or> tag = MT_PUT_REG
      then Some (LdStEntry p)
      else if tag = MT_INSN then Some (InsnEntry p)
      else if tag = MT_INSN_EXEC then Some (InsnExecEntry p)
      else if tag = MT_GET_REG_NX \<or> tag = MT_PUT_REG_NX then Some (LdStNxEntry p)
      else if tag = MT_MMAP then Some (MmapEntry p)
      else None)"

definition VisitOne ::
    "'a::len itself \<Rightarrow> Endianness \<Rightarrow> nat \<Rightarrow> nat \<Rightarrow> 'v visitor \<Rightarrow> TraceMm \<times> 'v
      \<Rightarrow> error + (TraceMm \<times> 'v)" where
  "VisitOne w E start end' visit tv =
     (let t = fst tv; visitor = snd tv in
      if \<not> Have t Tlv_kFixedLength then Inl EINVAL
      else
        (case (Tlv_GetAlignedLength E (data t) (cur t) :: error + 'a word) of
           Inl e \<Rightarrow> Inl e
         | Inr alignedLength \<Rightarrow>
             if \<not> Have t (unat alignedLength) then Inl EINVAL
             else
               (case (if entryIndex t \<ge> start \<and> entryIndex t < end' then
                        (case Tlv_GetTag E (data t) (cur t) of
                           Inl e \<Rightarrow> Inl e
                         | Inr tag \<Rightarrow>
                             (case dispatch tag (cur t) of
                                None \<Rightarrow> Inl EINVAL
                              | Some entry \<Rightarrow> visit E (data t) (entryIndex t) entry visitor))
                      else Inr visitor) of
                  Inl e \<Rightarrow> Inl e
                | Inr visitor' \<Rightarrow>
                    (case Advance t (unat alignedLength) of
                       None \<Rightarrow> Inl EINVAL
                     | Some t' \<Rightarrow> Inr (t'\<lparr>entryIndex := entryIndex t' + 1\<rparr>, visitor')))))"

text \<open>\<^verbatim>\<open>std::numeric_limits<size_t>::max()\<close> for a 64-bit \<^verbatim>\<open>size_t\<close>.\<close>

definition SIZE_MAX :: nat where
  "SIZE_MAX = 2 ^ 64 - 1"

subsection \<open>Seeking\<close>

record Seek =
  insnIndex :: u64
  prevInsnSeq :: u32

definition Seek_new :: Seek where
  "Seek_new = \<lparr>insnIndex = - 1, prevInsnSeq = - 1\<rparr>"

definition Seek_HandleInsnSeq :: "u32 \<Rightarrow> Seek \<Rightarrow> Seek" where
  "Seek_HandleInsnSeq insnSeq s =
     (if insnSeq \<noteq> prevInsnSeq s then s\<lparr>insnIndex := insnIndex s + 1, prevInsnSeq := insnSeq\<rparr>
      else s)"

definition Seek_visit :: "Seek visitor" where
  "Seek_visit E bytes index entry s =
     (case entry of
        LdStEntry p \<Rightarrow> map_sum id (\<lambda>q. Seek_HandleInsnSeq q s) (Entry_GetInsnSeq E bytes p)
      | InsnEntry p \<Rightarrow> Inr s
      | InsnExecEntry p \<Rightarrow> map_sum id (\<lambda>q. Seek_HandleInsnSeq q s) (Entry_GetInsnSeq E bytes p)
      | LdStNxEntry p \<Rightarrow> map_sum id (\<lambda>q. Seek_HandleInsnSeq q s) (Entry_GetInsnSeq E bytes p)
      | MmapEntry p \<Rightarrow> Inr s)"

text \<open>
  The \<^verbatim>\<open>while (true)\<close> loop of \<^verbatim>\<open>TraceMm::SeekInsn\<close>.  A record of aligned length 0 does
  not move the cursor, so the loop need not end: \<open>None\<close> is a walk that never returns.  The
  two exceptions are \<open>NoSuchInsn\<close> and \<open>ParseFailed\<close>.
\<close>

partial_function (option) SeekInsn_loop ::
    "'a::len itself \<Rightarrow> Endianness \<Rightarrow> u32 \<Rightarrow> TraceMm \<times> Seek \<Rightarrow> (error + TraceMm) option" where
  "SeekInsn_loop w E index tv =
     (if cur (fst tv) = length (data (fst tv)) then Some (Inl NoSuchInsn)
      else
        (case VisitOne w E 0 SIZE_MAX Seek_visit tv of
           Inl e \<Rightarrow> Some (Inl (if e = OutOfBounds then OutOfBounds else ParseFailed))
         | Inr tv' \<Rightarrow>
             if insnIndex (snd tv') = ucast index then
               Some (Inr ((fst tv')\<lparr>cur := cur (fst tv), entryIndex := entryIndex (fst tv') - 1\<rparr>))
             else SeekInsn_loop w E index tv'))"

definition SeekInsn :: "'a::len itself \<Rightarrow> Endianness \<Rightarrow> u32 \<Rightarrow> TraceMm \<Rightarrow> (error + TraceMm) option" where
  "SeekInsn w E index t =
     (case (Tlv_GetAlignedLength E (data t) 0 :: error + 'a word) of
        Inl e \<Rightarrow> Some (Inl e)
      | Inr n \<Rightarrow> SeekInsn_loop w E index (t\<lparr>cur := unat n, entryIndex := 0\<rparr>, Seek_new))"

subsection \<open>Building the ud graph from a trace\<close>

definition on_regState ::
    "('w UdState \<Rightarrow> error + 'w UdState) \<Rightarrow> 'w Ud \<Rightarrow> error + 'w Ud" where
  "on_regState f ud = map_sum id (\<lambda>st. ud\<lparr>regState := st\<rparr>) (f (regState ud))"

definition on_memState ::
    "('w UdState \<Rightarrow> error + 'w UdState) \<Rightarrow> 'w Ud \<Rightarrow> error + 'w Ud" where
  "on_memState f ud = map_sum id (\<lambda>st. ud\<lparr>memState := st\<rparr>) (f (memState ud))"

definition returned :: "error option \<times> 's \<Rightarrow> error + 's" where
  "returned r = (case fst r of Some e \<Rightarrow> Inl e | None \<Rightarrow> Inr (snd r))"

text \<open>\<^verbatim>\<open>Ud::operator()(size_t, LdStEntry<E, W>)\<close>.\<close>

definition Ud_LdStEntry ::
    "Endianness \<Rightarrow> u8 list \<Rightarrow> nat \<Rightarrow> 'a::len word Ud \<Rightarrow> error + 'a word Ud" where
  "Ud_LdStEntry E bytes p ud =
     (case Entry_GetInsnSeq E bytes p of
        Inl e \<Rightarrow> Inl e
      | Inr insnSeq \<Rightarrow>
          (case HandleInsnSeq insnSeq ud of
             Inl e \<Rightarrow> Inl e
           | Inr ud' \<Rightarrow>
               (case Tlv_GetTag E bytes p of
                  Inl e \<Rightarrow> Inl e
                | Inr tag \<Rightarrow>
                    if tag = MT_REG then Inr ud'
                    else if tag = MT_LOAD \<or> tag = MT_STORE \<or> tag = MT_GET_REG \<or> tag = MT_PUT_REG
                    then
                      (case Entry_GetAddr E bytes p of
                         Inl e \<Rightarrow> Inl e
                       | Inr addr \<Rightarrow>
                           (case Entry_GetSize E bytes p of
                              Inl e \<Rightarrow> Inl e
                            | Inr size' \<Rightarrow>
                                if tag = MT_LOAD then on_memState (AddUses addr size') ud'
                                else if tag = MT_STORE then on_memState (\<lambda>st. returned (AddDefs addr size' st)) ud'
                                else if tag = MT_GET_REG then on_regState (AddUses addr size') ud'
                                else on_regState (\<lambda>st. returned (AddDefs addr size' st)) ud'))
                    else Inl EINVAL)))"

text \<open>\<^verbatim>\<open>Ud::operator()(size_t, InsnEntry<E, W>)\<close>.\<close>

definition Ud_InsnEntry ::
    "capstone \<Rightarrow> Endianness \<Rightarrow> u8 list \<Rightarrow> nat \<Rightarrow> 'a::len word Ud \<Rightarrow> error + 'a word Ud" where
  "Ud_InsnEntry cs E bytes p ud =
     (case Entry_GetInsnSeq E bytes p of
        Inl e \<Rightarrow> Inl e
      | Inr insnSeq \<Rightarrow>
          if insnSeq \<noteq> word_of_nat (length (code ud)) then Inl EINVAL
          else
            (case (Entry_GetAddr E bytes p :: error + 'a word) of
               Inl e \<Rightarrow> Inl e
             | Inr pc' \<Rightarrow>
                 (case (Entry_GetSize E bytes p :: error + 'a word) of
                    Inl e \<Rightarrow> Inl e
                  | Inr size' \<Rightarrow>
                      (case Entry_GetValue TYPE('a) bytes p (unat size') of
                         Inl e \<Rightarrow> Inl e
                       | Inr val \<Rightarrow>
                           Inr (ud\<lparr>code := code ud @
                                     [\<lparr>pc = pc',
                                       textIndex = word_of_nat (length (textBytes ud)),
                                       textSize = ucast size'\<rparr>],
                                   textBytes := textBytes ud @ val,
                                   disasm := disasm ud @
                                     [case (case disasmEngine ud of
                                              None \<Rightarrow> None
                                            | Some (arch, mode) \<Rightarrow>
                                                cs_disasm cs arch mode val (ucast pc')) of
                                        Some (mnemonic, op_str) \<Rightarrow> mnemonic @ '' '' @ op_str
                                      | None \<Rightarrow> ''<unknown>'']\<rparr>)))))"

text \<open>\<^verbatim>\<open>Ud::operator()(size_t, LdStNxEntry<E, W>)\<close>.\<close>

definition Ud_LdStNxEntry ::
    "Endianness \<Rightarrow> u8 list \<Rightarrow> nat \<Rightarrow> 'a::len word Ud \<Rightarrow> error + 'a word Ud" where
  "Ud_LdStNxEntry E bytes p ud =
     (case Entry_GetInsnSeq E bytes p of
        Inl e \<Rightarrow> Inl e
      | Inr insnSeq \<Rightarrow>
          (case HandleInsnSeq insnSeq ud of
             Inl e \<Rightarrow> Inl e
           | Inr ud' \<Rightarrow>
               (case Tlv_GetTag E bytes p of
                  Inl e \<Rightarrow> Inl e
                | Inr tag \<Rightarrow>
                    if tag = MT_GET_REG_NX \<or> tag = MT_PUT_REG_NX then
                      (case Entry_GetAddr E bytes p of
                         Inl e \<Rightarrow> Inl e
                       | Inr addr \<Rightarrow>
                           (case LdStNxEntry_GetSize E bytes p of
                              Inl e \<Rightarrow> Inl e
                            | Inr size' \<Rightarrow>
                                if tag = MT_GET_REG_NX then on_regState (AddUses addr size') ud'
                                else on_regState (\<lambda>st. returned (AddDefs addr size' st)) ud'))
                    else Inl EINVAL)))"

definition Ud_visit :: "capstone \<Rightarrow> 'a::len word Ud visitor" where
  "Ud_visit cs E bytes index entry ud =
     (case entry of
        LdStEntry p \<Rightarrow> Ud_LdStEntry E bytes p ud
      | InsnEntry p \<Rightarrow> Ud_InsnEntry cs E bytes p ud
      | InsnExecEntry p \<Rightarrow>
          (case Entry_GetInsnSeq E bytes p of
             Inl e \<Rightarrow> Inl e
           | Inr insnSeq \<Rightarrow> HandleInsnSeq insnSeq ud)
      | LdStNxEntry p \<Rightarrow> Ud_LdStNxEntry E bytes p ud
      | MmapEntry p \<Rightarrow> Inr ud)"

text \<open>
  \<^verbatim>\<open>Ud::Complete\<close>: the last flush.  The dumps to dot, HTML, CSV and the binary header
  only write files and are not modelled.
\<close>

definition Ud_Complete :: "'w Ud \<Rightarrow> error + 'w Ud" where
  "Ud_Complete ud = Flush ud"

text \<open>The loop \<^verbatim>\<open>while (cur_ != end_) VisitOne(...)\<close> of \<^verbatim>\<open>TraceMm::Visit\<close>.\<close>

partial_function (option) Visit_loop ::
    "'a::len itself \<Rightarrow> Endianness \<Rightarrow> nat \<Rightarrow> nat \<Rightarrow> 'v visitor \<Rightarrow> TraceMm \<times> 'v
      \<Rightarrow> (error + (TraceMm \<times> 'v)) option" where
  "Visit_loop w E start end' visit tv =
     (if cur (fst tv) = length (data (fst tv)) then Some (Inr tv)
      else
        (case VisitOne w E start end' visit tv of
           Inl e \<Rightarrow> Some (Inl e)
         | Inr tv' \<Rightarrow> Visit_loop w E start end' visit tv'))"

text \<open>\<^verbatim>\<open>TraceMm<E, W>::Visit<Ud>\<close> on a trace whose \<^verbatim>\<open>Init\<close> succeeded.\<close>

definition Ud_Visit ::
    "capstone \<Rightarrow> Endianness \<Rightarrow> nat \<Rightarrow> nat \<Rightarrow> TraceMm \<Rightarrow> (error + 'a::len word Ud) option" where
  "Ud_Visit cs E start end' t =
     (case HeaderEntry_GetMachineType E (data t) 0 of
        Inl e \<Rightarrow> Some (Inl e)
      | Inr machineType' \<Rightarrow>
          (case Ud_Init cs machineType' E (length (data t) div 128) of
             Inl e \<Rightarrow> Some (Inl e)
           | Inr ud \<Rightarrow>
               (case Visit_loop TYPE('a) E start end' (Ud_visit cs) (t, ud) of
                  None \<Rightarrow> None
                | Some (Inl e) \<Rightarrow> Some (Inl e)
                | Some (Inr tv) \<Rightarrow> Some (Ud_Complete (snd tv)))))"

definition CreateAndVisit_Ud ::
    "capstone \<Rightarrow> Endianness \<Rightarrow> nat \<Rightarrow> nat \<Rightarrow> u8 list \<Rightarrow> (error + 'a::len word Ud) option" where
  "CreateAndVisit_Ud cs E start end' bytes =
     (case TraceMm_Init TYPE('a) E \<lparr>data = bytes, cur = 0, entryIndex = 0\<rparr> of
        Inl e \<Rightarrow> Some (Inl e)
      | Inr t \<Rightarrow> Ud_Visit cs E start end' t)"

text \<open>
  \<^verbatim>\<open>UdFile\<close>, i.e. \<^verbatim>\<open>TraceMmBase::Visit\<close> with the \<^verbatim>\<open>Ud\<close> visitor, on the bytes of the file:
  the two-byte magic chooses the endianness and the word type, so the graph built is one
  over 32-bit or one over 64-bit words.
\<close>

definition UdFile ::
    "capstone \<Rightarrow> u8 list \<Rightarrow> nat \<Rightarrow> nat \<Rightarrow> (error + (32 word Ud + 64 word Ud)) option" where
  "UdFile cs bytes start end' =
     (if length bytes < 2 then Some (Inl EINVAL)
      else
        let magic = (bytes ! 0, bytes ! 1) in
        if magic = (0x4D, 0x34) then
          map_option (map_sum id Inl) (CreateAndVisit_Ud cs Big start end' bytes)
        else if magic = (0x4D, 0x38) then
          map_option (map_sum id Inr) (CreateAndVisit_Ud cs Big start end' bytes)
        else if magic = (0x34, 0x4D) then
          map_option (map_sum id Inl) (CreateAndVisit_Ud cs Little start end' bytes)
        else if magic = (0x38, 0x4D) then
          map_option (map_sum id Inr) (CreateAndVisit_Ud cs Little start end' bytes)
        else Some (Inl EINVAL))"

section \<open>Properties of the live-writer map\<close>

text \<open>
  An entry \<open>(e, \<lparr>ev_startAddr = s, defIndex = d\<rparr>)\<close> of the map is the live interval \<open>[s, e)\<close>
  written by the def \<open>d\<close>.
\<close>

definition interval_of :: "('w::linorder \<times> 'w EntryValue) \<Rightarrow> 'w set" where
  "interval_of e = {a. ev_startAddr (snd e) \<le> a \<and> a < fst e}"

definition intervals_nonempty :: "'w::linorder AddressSpace \<Rightarrow> bool" where
  "intervals_nonempty m = (\<forall>e \<in> set m. ev_startAddr (snd e) < fst e)"

definition intervals_disjoint :: "'w::linorder AddressSpace \<Rightarrow> bool" where
  "intervals_disjoint m =
     (\<forall>e \<in> set m. \<forall>e' \<in> set m. e \<noteq> e' \<longrightarrow> interval_of e \<inter> interval_of e' = {})"

text \<open>
  The map covers the addresses below \<open>lim\<close>; the builder's catch-all ends at
  \<^verbatim>\<open>std::numeric_limits<W>::max()\<close>, which is \<open>- 1\<close>.
\<close>

definition intervals_cover :: "'w::linorder \<Rightarrow> 'w AddressSpace \<Rightarrow> bool" where
  "intervals_cover lim m = (\<forall>a. a < lim \<longrightarrow> (\<exists>e \<in> set m. a \<in> interval_of e))"

definition live_map :: "'w::linorder AddressSpace \<Rightarrow> bool" where
  "live_map m = (keys_ascending m \<and> intervals_nonempty m \<and> intervals_disjoint m)"

text \<open>The entry's interval meets \<open>[startAddr, endAddr)\<close>.\<close>

definition overlaps :: "'w::linorder \<Rightarrow> 'w \<Rightarrow> ('w \<times> 'w EntryValue) \<Rightarrow> bool" where
  "overlaps startAddr' endAddr' e = (ev_startAddr (snd e) < endAddr' \<and> startAddr' < fst e)"

text \<open>
  The residues of an overlapped entry, as the specification lists them: outer overlap,
  left overlap, inner overlap, right overlap.
\<close>

definition residues ::
    "'w::linorder \<Rightarrow> 'w \<Rightarrow> ('w \<times> 'w EntryValue) \<Rightarrow> ('w \<times> 'w EntryValue) list" where
  "residues startAddr' endAddr' entry =
     (let s = ev_startAddr (snd entry); e = fst entry; d = defIndex (snd entry)
      in if startAddr' \<le> s \<and> endAddr' \<ge> e then []
         else if startAddr' \<le> s \<and> endAddr' < e then [(e, \<lparr>ev_startAddr = endAddr', defIndex = d\<rparr>)]
         else if startAddr' > s \<and> endAddr' < e then
           [(startAddr', \<lparr>ev_startAddr = s, defIndex = d\<rparr>),
            (e, \<lparr>ev_startAddr = endAddr', defIndex = d\<rparr>)]
         else [(startAddr', \<lparr>ev_startAddr = s, defIndex = d\<rparr>)])"

text \<open>
  The live map of a store sequence that wrote the bytes \<open>0, \<dots>, n - 1\<close> one at a time: the
  interval \<open>[i, i + 1)\<close> belongs to def \<open>i + 1\<close> and the rest of the catch-all to def 0.
\<close>

definition byte_stores :: "nat \<Rightarrow> 'a::len word AddressSpace" where
  "byte_stores n =
     map (\<lambda>i. (word_of_nat (i + 1), \<lparr>ev_startAddr = word_of_nat i, defIndex = word_of_nat (i + 1)\<rparr>))
       [0..<n]
     @ [(- 1, \<lparr>ev_startAddr = word_of_nat n, defIndex = 0\<rparr>)]"

definition byte_stores_state :: "nat \<Rightarrow> 'a::len word UdState" where
  "byte_stores_state n =
     \<lparr>uses = [], partialUses = PartialUses_Init,
      defs = \<lparr>startAddr = 0, endAddr = - 1\<rparr>
               # map (\<lambda>i. \<lparr>startAddr = word_of_nat i, endAddr = word_of_nat (i + 1)\<rparr>) [0..<n],
      addressSpace = byte_stores n\<rparr>"

text \<open>A linear check that implies \<open>live_map\<close>: each interval is non-empty and ends before the next starts.\<close>

fun consecutive_ok :: "'w::linorder AddressSpace \<Rightarrow> bool" where
  "consecutive_ok [] = True"
| "consecutive_ok [x] = (ev_startAddr (snd x) < fst x)"
| "consecutive_ok (x # y # m) =
     (ev_startAddr (snd x) < fst x \<and> fst x \<le> ev_startAddr (snd y) \<and> consecutive_ok (y # m))"

text \<open>A run of assignments \<^verbatim>\<open>m[k] = v\<close>.\<close>

definition assign_all :: "('k::linorder \<times> 'v) list \<Rightarrow> ('k \<times> 'v) list \<Rightarrow> ('k \<times> 'v) list" where
  "assign_all m L = foldl (\<lambda>m kv. map_assign (fst kv) (snd kv) m) m L"

text \<open>
  The state \<^verbatim>\<open>Ud::Init\<close> leaves for a trace shorter than 1280 bytes (\<open>expectedInsnCount\<close>
  below 10): the one-slot partial-use table, the catch-all def and its live interval, the
  seed trace entry; and a Capstone that opens every mode and decodes nothing.
\<close>

definition empty_slot :: "'a::len word PartialUse" where
  "empty_slot = \<lparr>first = kNoUse, second = \<lparr>startAddr = 0, endAddr = 0\<rparr>\<rparr>"

definition seed_state :: "'a::len word UdState" where
  "seed_state = \<lparr>uses = [], partialUses = \<lparr>entries = [empty_slot], load = 0, maxLoad = 0\<rparr>,
                 defs = [\<lparr>startAddr = 0, endAddr = - 1\<rparr>],
                 addressSpace = [(- 1, \<lparr>ev_startAddr = 0, defIndex = 0\<rparr>)]\<rparr>"

definition seed_trace :: InsnInTrace where
  "seed_trace = \<lparr>codeIndex = 0, regUseStartIndex = 0, regUseEndIndex = 0,
                      memUseStartIndex = 0, memUseEndIndex = 0, regDefStartIndex = 0,
                      regDefEndIndex = 0, memDefStartIndex = 0, memDefEndIndex = 0\<rparr>"

definition any_capstone :: capstone where
  "any_capstone = \<lparr>cs_open = (\<lambda>arch mode. True), cs_disasm = (\<lambda>arch mode bytes address. None)\<rparr>"

text \<open>
  The builder right after \<^verbatim>\<open>Init\<close> on such a trace of a 32-bit little-endian i386 program,
  and an \<^verbatim>\<open>INSN\<close> record (\<open>insnSeq\<close> 1, \<open>pc\<close> 0x400000, opcode byte 0x90) in that format.
\<close>

definition seed_ud :: "32 word Ud" where
  "seed_ud = \<lparr>machineType = EM_386, endianness = Little, disasmEngine = Some (CS_ARCH_X86, [CS_MODE_32]),
          code = [\<lparr>pc = 0, textIndex = 0, textSize = 0\<rparr>], textBytes = [], disasm = [''<unknown>''],
          trace = [seed_trace], regState = seed_state, memState = seed_state\<rparr>"


section \<open>Properties of the partial-use table and of the prime search\<close>

text \<open>The slot at which a scan for the key \<open>k\<close> stops: it holds \<open>k\<close> or is empty.\<close>

definition stop_at :: "u32 \<Rightarrow> 'w PartialUse \<Rightarrow> bool" where
  "stop_at k x = (first x = k \<or> first x = kNoUse)"

text \<open>The number of slots probed before slot \<open>i\<close> when the probe starts at slot \<open>h\<close> of \<open>n\<close>.\<close>

definition probe_dist :: "nat \<Rightarrow> nat \<Rightarrow> nat \<Rightarrow> nat" where
  "probe_dist n h i = (i + n - h) mod n"

text \<open>Every occupied slot is the one the probe for its key arrives at.\<close>

definition slots_found :: "'w PartialUse list \<Rightarrow> bool" where
  "slots_found t = (\<forall>i < length t. first (t ! i) \<noteq> kNoUse \<longrightarrow> FindPartialUse t (first (t ! i)) = Inr i)"

text \<open>The table has an empty slot.\<close>

definition has_free :: "'w PartialUse list \<Rightarrow> bool" where
  "has_free t = (\<exists>i < length t. first (t ! i) = kNoUse)"

text \<open>
  The content of a table, independently of the probing: the pairs \<open>(useIndex, def)\<close> of its
  occupied slots.
\<close>

definition stored :: "'w PartialUse list \<Rightarrow> (u32 \<times> 'w Def) set" where
  "stored t = {(first x, second x) | x. x \<in> set t \<and> first x \<noteq> kNoUse}"

text \<open>The number of occupied slots.\<close>

definition occ :: "'w PartialUse list \<Rightarrow> nat" where
  "occ t = length (filter (\<lambda>x. first x \<noteq> kNoUse) t)"

text \<open>No key occupies two slots.\<close>

definition keys_unique :: "'w PartialUse list \<Rightarrow> bool" where
  "keys_unique t = (\<forall>i < length t. \<forall>j < length t.
      first (t ! i) = first (t ! j) \<and> first (t ! i) \<noteq> kNoUse \<longrightarrow> i = j)"

text \<open>
  The representation invariant of \<^verbatim>\<open>PartialUses\<close>: a non-empty table in which every key is
  where the probe finds it, \<^verbatim>\<open>load_\<close> counts the occupied slots and stays within
  \<^verbatim>\<open>maxLoad_\<close>, half the size.
\<close>

definition PU_inv :: "'w PartialUses \<Rightarrow> bool" where
  "PU_inv pu = (entries pu \<noteq> [] \<and> slots_found (entries pu) \<and> load pu = occ (entries pu)
      \<and> load pu \<le> maxLoad pu \<and> maxLoad pu = length (entries pu) div 2)"

text \<open>Primality, by the divisors below the number.\<close>

definition is_prime :: "nat \<Rightarrow> bool" where
  "is_prime n = (1 < n \<and> (\<forall>d \<in> {2..<n}. \<not> d dvd n))"

text \<open>
  The caches \<^verbatim>\<open>GetFirstPrimeGreaterThanOrEqualTo\<close> builds: the odd primes up to the last
  one, in ascending order.
\<close>

definition cache_ok :: "nat list \<Rightarrow> bool" where
  "cache_ok primes = (primes \<noteq> [] \<and> primes = filter is_prime [3..<Suc (last primes)])"

text \<open>None of the \<open>k\<close> numbers \<open>d, d + 2, \<dots>\<close> divides \<open>n\<close>.\<close>

fun no_divisor :: "nat \<Rightarrow> nat \<Rightarrow> nat \<Rightarrow> bool" where
  "no_divisor n d 0 = True"
| "no_divisor n d (Suc k) = (n mod d \<noteq> 0 \<and> no_divisor n (d + 2) k)"

text \<open>
  The largest prime below \<open>2207\<^sup>2\<close>.  Up to it the search for a prime is shown to return;
  the primes 7, 47 and 2207 each lie below the square of the one before.
\<close>

definition prime_search_bound :: nat where
  "prime_search_bound = 4870843"

section \<open>The invariant of the builder and example traces\<close>

text \<open>
  What every \<^verbatim>\<open>UdState\<close> the builder makes satisfies, whatever the records are: the
  partial-use table is well formed, every live interval and every use names an existing def,
  and every key of the partial-use table is the index of a use.
\<close>

definition UdState_inv :: "'a::len word UdState \<Rightarrow> bool" where
  "UdState_inv st =
     (PU_inv (partialUses st)
      \<and> (\<forall>e \<in> set (addressSpace st). unat (defIndex (snd e)) < length (defs st))
      \<and> (\<forall>d \<in> set (uses st). unat d < length (defs st))
      \<and> (\<forall>p \<in> stored (entries (partialUses st)). unat (fst p) < length (uses st)))"

text \<open>
  The range \<^verbatim>\<open>AddUses\<close> writes into the partial-use table for a walked entry: the pair
  \<open>(max(start, s), min(end, e))\<close> when it differs from the def of the entry.
\<close>

definition partial_of ::
    "'a::len word \<Rightarrow> 'a word \<Rightarrow> 'a word Def list \<Rightarrow> ('a word \<times> 'a word EntryValue) \<Rightarrow> 'a word Def option" where
  "partial_of startAddr' endAddr' defs' it =
     (let ov = \<lparr>startAddr = max startAddr' (ev_startAddr (snd it)), endAddr = min endAddr' (fst it)\<rparr>
      in if defs' ! unat (defIndex (snd it)) = ov then None else Some ov)"

text \<open>The set of table entries the loop of \<^verbatim>\<open>AddUses\<close> writes for the walked entries \<open>its\<close>.\<close>

definition written ::
    "'a::len word \<Rightarrow> 'a word \<Rightarrow> 'a word Def list \<Rightarrow> nat \<Rightarrow> 'a word AddressSpace
      \<Rightarrow> (u32 \<times> 'a word Def) set" where
  "written a e ds n its =
     {(word_of_nat (n + j), ov) | j ov. j < length its \<and> partial_of a e ds (its ! j) = Some ov}"

text \<open>
  The start indices \<^verbatim>\<open>AddTrace\<close> records in the trace table, per address space: the pair
  (use start index, def start index) of each trace entry.
\<close>

definition starts_reg :: "'w Ud \<Rightarrow> (u32 \<times> u32) list" where
  "starts_reg ud = map (\<lambda>t. (regUseStartIndex t, regDefStartIndex t)) (trace ud)"

definition starts_mem :: "'w Ud \<Rightarrow> (u32 \<times> u32) list" where
  "starts_mem ud = map (\<lambda>t. (memUseStartIndex t, memDefStartIndex t)) (trace ud)"

text \<open>
  The invariant of the builder for one address space, over the start indices \<open>ss\<close> of the
  trace table and the \<^verbatim>\<open>UdState\<close>: the state is well formed; the table is not empty and
  its first entry starts at use 0 and def 0; both start indices are sorted and within the
  vectors; and a use recorded before an entry was opened names a def made before it was
  opened.
\<close>

definition space_inv :: "(u32 \<times> u32) list \<Rightarrow> 'a::len word UdState \<Rightarrow> bool" where
  "space_inv ss st =
     (UdState_inv st \<and> ss \<noteq> [] \<and> hd ss = (0, 0)
      \<and> sorted (map fst ss) \<and> sorted (map snd ss)
      \<and> (\<forall>s \<in> set ss. unat (fst s) \<le> length (uses st) \<and> unat (snd s) \<le> length (defs st))
      \<and> (\<forall>s \<in> set ss. \<forall>u < unat (fst s). unat (uses st ! u) < unat (snd s)))"

definition Ud_inv :: "'a::len word Ud \<Rightarrow> bool" where
  "Ud_inv ud = (space_inv (starts_reg ud) (regState ud) \<and> space_inv (starts_mem ud) (memState ud))"

text \<open>The vectors are within the range of their \<^verbatim>\<open>std::uint32_t\<close> indices.\<close>

definition sizes_ok :: "'w Ud \<Rightarrow> bool" where
  "sizes_ok ud =
     (length (uses (regState ud)) < 2 ^ 32 \<and> length (defs (regState ud)) < 2 ^ 32
      \<and> length (uses (memState ud)) < 2 ^ 32 \<and> length (defs (memState ud)) < 2 ^ 32
      \<and> length (trace ud) \<le> 2 ^ 32)"

definition sizes_le :: "'w Ud \<Rightarrow> 'w Ud \<Rightarrow> bool" where
  "sizes_le ud ud' =
     (length (uses (regState ud)) \<le> length (uses (regState ud'))
      \<and> length (defs (regState ud)) \<le> length (defs (regState ud'))
      \<and> length (uses (memState ud)) \<le> length (uses (memState ud'))
      \<and> length (defs (memState ud)) \<le> length (defs (memState ud'))
      \<and> length (trace ud) \<le> length (trace ud'))"

text \<open>
  What one record does to the builder: an instruction or mmap record leaves the trace table
  and both states alone; every other record goes through \<^verbatim>\<open>HandleInsnSeq\<close> and then at most
  one \<^verbatim>\<open>AddUses\<close> or \<^verbatim>\<open>AddDefs\<close> on one of the two states.
\<close>

definition record_step :: "'a::len word Ud \<Rightarrow> 'a word Ud \<Rightarrow> bool" where
  "record_step ud ud' =
     ((trace ud' = trace ud \<and> regState ud' = regState ud \<and> memState ud' = memState ud)
      \<or> (\<exists>q ud1. HandleInsnSeq q ud = Inr ud1
            \<and> (ud' = ud1
               \<or> (\<exists>a k st'. AddUses a k (memState ud1) = Inr st' \<and> ud' = ud1\<lparr>memState := st'\<rparr>)
               \<or> (\<exists>a k. ud' = ud1\<lparr>memState := snd (AddDefs a k (memState ud1))\<rparr>)
               \<or> (\<exists>a k st'. AddUses a k (regState ud1) = Inr st' \<and> ud' = ud1\<lparr>regState := st'\<rparr>)
               \<or> (\<exists>a k. ud' = ud1\<lparr>regState := snd (AddDefs a k (regState ud1))\<rparr>))))"

text \<open>
  The literal trace of the specification's end-to-end scenario, little-endian with 4-byte
  words: the header (length 8, machine type, padding), \<^verbatim>\<open>PUT_REG seq=1 addr=0\<close> with the four
  value bytes of \<open>0xdeadbeef\<close>, \<^verbatim>\<open>INSN seq=1 pc=0x400000\<close> with the opcode byte \<open>0x90\<close>,
  \<^verbatim>\<open>INSN_EXEC seq=1\<close>, \<^verbatim>\<open>GET_REG seq=2 addr=0\<close> with four value bytes, \<^verbatim>\<open>INSN_EXEC seq=2\<close>.
  \<open>spec_trace\<close> carries the machine type 62 (\<^verbatim>\<open>EM_X86_64\<close>) of the specification,
  \<open>example_trace\<close> the machine type 3 (\<^verbatim>\<open>EM_386\<close>).
\<close>

definition trace_records :: "u8 list" where
  "trace_records =
     [0x50, 0x50, 0x10, 0x00, 0x01, 0x00, 0x00, 0x00, 0x00, 0x00, 0x00, 0x00, 0xEF, 0xBE, 0xAD, 0xDE,
      0x49, 0x49, 0x0D, 0x00, 0x01, 0x00, 0x00, 0x00, 0x00, 0x00, 0x40, 0x00, 0x90, 0x00, 0x00, 0x00,
      0x58, 0x58, 0x08, 0x00, 0x01, 0x00, 0x00, 0x00,
      0x47, 0x47, 0x10, 0x00, 0x02, 0x00, 0x00, 0x00, 0x00, 0x00, 0x00, 0x00, 0xEF, 0xBE, 0xAD, 0xDE,
      0x58, 0x58, 0x08, 0x00, 0x02, 0x00, 0x00, 0x00]"

definition spec_trace :: "u8 list" where
  "spec_trace = [0x34, 0x4D, 0x08, 0x00, 0x3E, 0x00, 0x00, 0x00] @ trace_records"

definition example_trace :: "u8 list" where
  "example_trace = [0x34, 0x4D, 0x08, 0x00, 0x03, 0x00, 0x00, 0x00] @ trace_records"

text \<open>The graph the builder makes of \<open>example_trace\<close>.\<close>

definition example_ud :: "32 word Ud" where
  "example_ud =
     \<lparr>machineType = EM_386, endianness = Little,
       disasmEngine = Some (CS_ARCH_X86, [CS_MODE_32]),
       code =
         [\<lparr>pc = 0, textIndex = 0, textSize = 0\<rparr>,
          \<lparr>pc = 0x400000, textIndex = 0, textSize = 1\<rparr>],
       textBytes = [0x90], disasm = [''<unknown>'', ''<unknown>''],
       trace =
         [\<lparr>codeIndex = 0, regUseStartIndex = 0, regUseEndIndex = 0,
             memUseStartIndex = 0, memUseEndIndex = 0, regDefStartIndex = 0,
             regDefEndIndex = 1, memDefStartIndex = 0, memDefEndIndex = 1\<rparr>,
          \<lparr>codeIndex = 1, regUseStartIndex = 0, regUseEndIndex = 0,
             memUseStartIndex = 0, memUseEndIndex = 0, regDefStartIndex = 1,
             regDefEndIndex = 2, memDefStartIndex = 1, memDefEndIndex = 1\<rparr>,
          \<lparr>codeIndex = 2, regUseStartIndex = 0, regUseEndIndex = 1,
             memUseStartIndex = 0, memUseEndIndex = 0, regDefStartIndex = 2,
             regDefEndIndex = 2, memDefStartIndex = 1, memDefEndIndex = 1\<rparr>],
       regState =
         \<lparr>uses = [1],
            partialUses = \<lparr>entries = [empty_slot], load = 0, maxLoad = 0\<rparr>,
            defs =
              [\<lparr>startAddr = 0, endAddr = - 1\<rparr>,
               \<lparr>startAddr = 0, endAddr = 4\<rparr>],
            addressSpace =
              [(4, \<lparr>ev_startAddr = 0, defIndex = 1\<rparr>),
               (- 1, \<lparr>ev_startAddr = 4, defIndex = 0\<rparr>)]\<rparr>,
       memState = seed_state\<rparr>"

text \<open>
  A store to \<open>[0x1000, 0x1004)\<close> by instruction 1, a load of the same range by instruction 2
  and a load of \<open>[0x1002, 0x1006)\<close> by instruction 3, in the same format, and the graph made
  of it: the second load has two uses, both with a partial-use entry.
\<close>

definition store_load_trace :: "u8 list" where
  "store_load_trace =
     [0x34, 0x4D, 0x08, 0x00, 0x03, 0x00, 0x00, 0x00,
      0x53, 0x53, 0x10, 0x00, 0x01, 0x00, 0x00, 0x00, 0x00, 0x10, 0x00, 0x00, 0xEF, 0xBE, 0xAD, 0xDE,
      0x4C, 0x4C, 0x10, 0x00, 0x02, 0x00, 0x00, 0x00, 0x00, 0x10, 0x00, 0x00, 0xEF, 0xBE, 0xAD, 0xDE,
      0x4C, 0x4C, 0x10, 0x00, 0x03, 0x00, 0x00, 0x00, 0x02, 0x10, 0x00, 0x00, 0xAD, 0xDE, 0x00, 0x00]"

definition store_load_ud :: "32 word Ud" where
  "store_load_ud =
     \<lparr>machineType = EM_386, endianness = Little,
       disasmEngine = Some (CS_ARCH_X86, [CS_MODE_32]),
       code = [\<lparr>pc = 0, textIndex = 0, textSize = 0\<rparr>],
       textBytes = [], disasm = [''<unknown>''],
       trace =
         [\<lparr>codeIndex = 0, regUseStartIndex = 0, regUseEndIndex = 0,
             memUseStartIndex = 0, memUseEndIndex = 0, regDefStartIndex = 0,
             regDefEndIndex = 1, memDefStartIndex = 0, memDefEndIndex = 1\<rparr>,
          \<lparr>codeIndex = 1, regUseStartIndex = 0, regUseEndIndex = 0,
             memUseStartIndex = 0, memUseEndIndex = 0, regDefStartIndex = 1,
             regDefEndIndex = 1, memDefStartIndex = 1, memDefEndIndex = 2\<rparr>,
          \<lparr>codeIndex = 2, regUseStartIndex = 0, regUseEndIndex = 0,
             memUseStartIndex = 0, memUseEndIndex = 1, regDefStartIndex = 1,
             regDefEndIndex = 1, memDefStartIndex = 2, memDefEndIndex = 2\<rparr>,
          \<lparr>codeIndex = 3, regUseStartIndex = 0, regUseEndIndex = 0,
             memUseStartIndex = 1, memUseEndIndex = 3, regDefStartIndex = 1,
             regDefEndIndex = 1, memDefStartIndex = 2, memDefEndIndex = 2\<rparr>],
       regState = seed_state,
       memState =
         \<lparr>uses = [1, 1, 0],
            partialUses =
              \<lparr>entries =
                 [empty_slot,
                  \<lparr>first = 1, second = \<lparr>startAddr = 0x1002, endAddr = 0x1004\<rparr>\<rparr>,
                  \<lparr>first = 2, second = \<lparr>startAddr = 0x1004, endAddr = 0x1006\<rparr>\<rparr>,
                  empty_slot, empty_slot],
               load = 2, maxLoad = 2\<rparr>,
            defs =
              [\<lparr>startAddr = 0, endAddr = - 1\<rparr>,
               \<lparr>startAddr = 0x1000, endAddr = 0x1004\<rparr>],
            addressSpace =
              [(0x1000, \<lparr>ev_startAddr = 0, defIndex = 0\<rparr>),
               (0x1004, \<lparr>ev_startAddr = 0x1000, defIndex = 1\<rparr>),
               (- 1, \<lparr>ev_startAddr = 0x1004, defIndex = 0\<rparr>)]\<rparr>\<rparr>"

text \<open>
  A register written and then read by the same instruction: \<^verbatim>\<open>PUT_REG seq=1 addr=0\<close> and
  \<^verbatim>\<open>GET_REG seq=1 addr=0\<close>, four value bytes each, and the graph made of it.
\<close>

definition same_insn_trace :: "u8 list" where
  "same_insn_trace =
     [0x34, 0x4D, 0x08, 0x00, 0x03, 0x00, 0x00, 0x00,
      0x50, 0x50, 0x10, 0x00, 0x01, 0x00, 0x00, 0x00, 0x00, 0x00, 0x00, 0x00, 0xEF, 0xBE, 0xAD, 0xDE,
      0x47, 0x47, 0x10, 0x00, 0x01, 0x00, 0x00, 0x00, 0x00, 0x00, 0x00, 0x00, 0xEF, 0xBE, 0xAD, 0xDE]"

definition same_insn_ud :: "32 word Ud" where
  "same_insn_ud =
     \<lparr>machineType = EM_386, endianness = Little,
       disasmEngine = Some (CS_ARCH_X86, [CS_MODE_32]),
       code = [\<lparr>pc = 0, textIndex = 0, textSize = 0\<rparr>], textBytes = [],
       disasm = [''<unknown>''],
       trace =
         [\<lparr>codeIndex = 0, regUseStartIndex = 0, regUseEndIndex = 0,
             memUseStartIndex = 0, memUseEndIndex = 0, regDefStartIndex = 0,
             regDefEndIndex = 1, memDefStartIndex = 0, memDefEndIndex = 1\<rparr>,
          \<lparr>codeIndex = 1, regUseStartIndex = 0, regUseEndIndex = 1,
             memUseStartIndex = 0, memUseEndIndex = 0, regDefStartIndex = 1,
             regDefEndIndex = 2, memDefStartIndex = 1, memDefEndIndex = 1\<rparr>],
       regState =
         \<lparr>uses = [1],
            partialUses = \<lparr>entries = [empty_slot], load = 0, maxLoad = 0\<rparr>,
            defs =
              [\<lparr>startAddr = 0, endAddr = - 1\<rparr>,
               \<lparr>startAddr = 0, endAddr = 4\<rparr>],
            addressSpace =
              [(4, \<lparr>ev_startAddr = 0, defIndex = 1\<rparr>),
               (- 1, \<lparr>ev_startAddr = 4, defIndex = 0\<rparr>)]\<rparr>,
       memState = seed_state\<rparr>"

text \<open>
  Each flushed trace entry ends, in both use vectors, where the next entry starts:
  \<^verbatim>\<open>Flush\<close> and \<^verbatim>\<open>AddTrace\<close> read the same counts.
\<close>

definition trace_linked :: "InsnInTrace list \<Rightarrow> bool" where
  "trace_linked tr =
     (map regUseEndIndex (butlast tr) = map regUseStartIndex (tl tr)
      \<and> map memUseEndIndex (butlast tr) = map memUseStartIndex (tl tr))"

section \<open>Lemmas on the ordered map\<close>

lemma takeWhile_eq_filter_sorted:
  "sorted_wrt R xs \<Longrightarrow> (\<And>x y. R x y \<Longrightarrow> P y \<Longrightarrow> P x) \<Longrightarrow> takeWhile P xs = filter P xs"
proof (induction xs)
  case Nil
  then show ?case by simp
next
  case (Cons x xs)
  show ?case
  proof (cases "P x")
    case True
    with Cons show ?thesis by simp
  next
    case False
    have "\<not> P y" if "y \<in> set xs" for y
      using Cons.prems that False by auto
    then have "filter P xs = []" by (simp add: filter_empty_conv)
    with False show ?thesis by simp
  qed
qed

lemma dropWhile_eq_filter_sorted:
  "sorted_wrt R xs \<Longrightarrow> (\<And>x y. R x y \<Longrightarrow> P y \<Longrightarrow> P x) \<Longrightarrow>
   dropWhile P xs = filter (\<lambda>x. \<not> P x) xs"
proof (induction xs)
  case Nil
  then show ?case by simp
next
  case (Cons x xs)
  show ?case
  proof (cases "P x")
    case True
    with Cons show ?thesis by simp
  next
    case False
    have "\<not> P y" if "y \<in> set xs" for y
      using Cons.prems that False by auto
    then have "filter (\<lambda>x. \<not> P x) xs = xs" by (simp add: filter_id_conv)
    with False show ?thesis by simp
  qed
qed

lemma map_assign_set:
  "keys_ascending m \<Longrightarrow> set (map_assign k v m) = insert (k, v) {e \<in> set m. fst e \<noteq> k}"
  unfolding keys_ascending_def
  by (induction m) (auto)

lemma map_assign_keys_ascending:
  "keys_ascending m \<Longrightarrow> keys_ascending (map_assign k v m)"
  unfolding keys_ascending_def
proof (induction m)
  case Nil
  then show ?case by simp
next
  case (Cons e m)
  then have "set (map_assign k v m) = insert (k, v) {e \<in> set m. fst e \<noteq> k}"
    using map_assign_set [of m k v] by (simp add: keys_ascending_def)
  with Cons show ?case by (auto)
qed


lemma assign_all_Nil [simp]: "assign_all m [] = m"
  by (simp add: assign_all_def)

lemma assign_all_Cons [simp]: "assign_all m (kv # L) = assign_all (map_assign (fst kv) (snd kv) m) L"
  by (simp add: assign_all_def)

lemma assign_all_append: "assign_all m (L @ L') = assign_all (assign_all m L) L'"
  by (simp add: assign_all_def)

lemma map_assign_set_fresh:
  assumes "keys_ascending m" "k \<notin> fst ` set m"
  shows "set (map_assign k v m) = insert (k, v) (set m)"
proof -
  have "{e \<in> set m. fst e \<noteq> k} = set m" using assms(2) by auto
  then show ?thesis using map_assign_set [OF assms(1), of k v] by simp
qed

lemma assign_all_fresh:
  "keys_ascending m \<Longrightarrow> distinct (map fst L) \<Longrightarrow> fst ` set L \<inter> fst ` set m = {} \<Longrightarrow>
   keys_ascending (assign_all m L) \<and> set (assign_all m L) = set m \<union> set L"
proof (induction L arbitrary: m)
  case Nil
  then show ?case by simp
next
  case (Cons kv L)
  let ?m' = "map_assign (fst kv) (snd kv) m"
  have k: "keys_ascending ?m'" using Cons.prems by (simp add: map_assign_keys_ascending)
  have "fst kv \<notin> fst ` set m" using Cons.prems(3) by auto
  then have s: "set ?m' = insert kv (set m)"
    using map_assign_set_fresh [OF Cons.prems(1), of "fst kv" "snd kv"] by simp
  have d: "distinct (map fst L)" using Cons.prems(2) by simp
  have "fst kv \<notin> fst ` set L" using Cons.prems(2) by simp
  then have f: "fst ` set L \<inter> fst ` set ?m' = {}"
    using Cons.prems(3) unfolding s by auto
  from Cons.IH [OF k d f] s show ?case by auto
qed

lemma reinsert_residue_residues:
  "reinsert_residue s e m entry = assign_all m (residues s e entry)"
proof (cases "s \<le> ev_startAddr (snd entry)")
  case True
  then show ?thesis
    by (cases "e < fst entry") (auto simp add: reinsert_residue_def residues_def Let_def)
next
  case False
  then have "ev_startAddr (snd entry) < s" by simp
  with False show ?thesis
    by (cases "e < fst entry") (auto simp add: reinsert_residue_def residues_def Let_def)
qed

lemma foldl_reinsert:
  "foldl (reinsert_residue s e) m xs = assign_all m (concat (map (residues s e) xs))"
proof (induction xs arbitrary: m)
  case Nil
  then show ?case by simp
next
  case (Cons x xs)
  then show ?case by (simp add: reinsert_residue_residues assign_all_append)
qed

lemma word_less_plus1_iff:
  fixes x :: "'a::len word"
  assumes "x < y"
  shows "(k < x + 1) = (k \<le> x)"
  using assms by unat_arith

lemma assign_all_set:
  "keys_ascending m \<Longrightarrow> (\<forall>x \<in> set L. \<forall>y \<in> set L. fst x = fst y \<longrightarrow> x = y) \<Longrightarrow>
   keys_ascending (assign_all m L) \<and>
   set (assign_all m L) = {e \<in> set m. fst e \<notin> fst ` set L} \<union> set L"
proof (induction L arbitrary: m)
  case Nil
  then show ?case by simp
next
  case (Cons kv L)
  let ?m' = "map_assign (fst kv) (snd kv) m"
  have k: "keys_ascending ?m'" using Cons.prems by (simp add: map_assign_keys_ascending)
  have s: "set ?m' = insert kv {e \<in> set m. fst e \<noteq> fst kv}"
    using map_assign_set [OF Cons.prems(1), of "fst kv" "snd kv"] by simp
  have sv: "\<forall>x \<in> set L. \<forall>y \<in> set L. fst x = fst y \<longrightarrow> x = y"
    using Cons.prems(2) by simp
  have kvL: "x = kv" if "x \<in> set L" "fst x = fst kv" for x
    using Cons.prems(2) that by auto
  from Cons.IH [OF k sv]
  have ih: "keys_ascending (assign_all ?m' L)"
    "set (assign_all ?m' L) = {e \<in> set ?m'. fst e \<notin> fst ` set L} \<union> set L"
    by simp_all
  have "{e \<in> set ?m'. fst e \<notin> fst ` set L} \<union> set L
      = {e \<in> set m. fst e \<notin> fst ` set (kv # L)} \<union> set (kv # L)"
  proof (rule set_eqI)
    fix x
    show "x \<in> {e \<in> set ?m'. fst e \<notin> fst ` set L} \<union> set L
      \<longleftrightarrow> x \<in> {e \<in> set m. fst e \<notin> fst ` set (kv # L)} \<union> set (kv # L)"
      unfolding s using kvL by (auto simp: image_iff)
  qed
  with ih show ?case by simp
qed

lemma live_map_sorted:
  fixes m :: "'w::linorder AddressSpace"
  assumes "live_map m"
  shows "sorted_wrt (\<lambda>e e'. fst e < fst e' \<and> fst e \<le> ev_startAddr (snd e')) m"
proof -
  have k: "sorted_wrt (\<lambda>e e'. fst e < fst e') m"
    using assms by (simp add: live_map_def keys_ascending_def)
  have "fst x \<le> ev_startAddr (snd y)" if "x \<in> set m" "y \<in> set m" "fst x < fst y" for x y
  proof (rule ccontr)
    assume "\<not> fst x \<le> ev_startAddr (snd y)"
    then have lt: "ev_startAddr (snd y) < fst x" by simp
    have nx: "ev_startAddr (snd x) < fst x" and ny: "ev_startAddr (snd y) < fst y"
      using assms that by (auto simp: live_map_def intervals_nonempty_def)
    let ?a = "max (ev_startAddr (snd x)) (ev_startAddr (snd y))"
    have "?a \<in> interval_of x" using nx lt by (auto simp: interval_of_def)
    moreover have "?a \<in> interval_of y" using nx ny lt that(3) by (auto simp: interval_of_def)
    moreover have "x \<noteq> y" using that(3) by auto
    ultimately show False
      using assms that(1,2) by (auto simp: live_map_def intervals_disjoint_def)
  qed
  then show ?thesis
    using k by (auto intro: sorted_wrt_mono_rel [where P = "\<lambda>e e'. fst e < fst e'"])
qed

lemma live_map_order:
  fixes m :: "'w::linorder AddressSpace"
  assumes "live_map m" "x \<in> set m" "y \<in> set m" "fst x < fst y"
  shows "fst x \<le> ev_startAddr (snd y)"
proof -
  have "sorted_wrt (\<lambda>e e'. fst e < fst e' \<and> fst e \<le> ev_startAddr (snd e')) m"
    using assms(1) by (rule live_map_sorted)
  then have "\<forall>i j. i < j \<longrightarrow> j < length m \<longrightarrow> fst (m ! i) \<le> ev_startAddr (snd (m ! j)) \<and> fst (m ! i) < fst (m ! j)"
    by (simp add: sorted_wrt_iff_nth_less)
  moreover obtain i j where ij: "i < length m" "m ! i = x" "j < length m" "m ! j = y"
    using assms(2,3) by (auto simp: in_set_conv_nth)
  ultimately show ?thesis
    using assms(4) by (metis linorder_neqE_nat order_less_asym order_less_irrefl)
qed

lemma live_map_keys_inj:
  fixes m :: "'w::linorder AddressSpace"
  assumes "live_map m" "x \<in> set m" "y \<in> set m" "fst x = fst y"
  shows "x = y"
proof -
  have "sorted_wrt (\<lambda>e e'. fst e < fst e') m"
    using assms(1) by (simp add: live_map_def keys_ascending_def)
  then have "\<forall>i j. i < j \<longrightarrow> j < length m \<longrightarrow> fst (m ! i) < fst (m ! j)"
    by (simp add: sorted_wrt_iff_nth_less)
  moreover obtain i j where ij: "i < length m" "m ! i = x" "j < length m" "m ! j = y"
    using assms(2,3) by (auto simp: in_set_conv_nth)
  ultimately show ?thesis
    using assms(4) by (metis linorder_neqE_nat order_less_irrefl)
qed

lemma live_map_nonempty:
  "live_map m \<Longrightarrow> x \<in> set m \<Longrightarrow> ev_startAddr (snd x) < fst x"
  by (simp add: live_map_def intervals_nonempty_def)

text \<open>The walk from the lower bound selects exactly the overlapping entries.\<close>

lemma lower_bound_filter:
  fixes m :: "'a::len word AddressSpace"
  assumes "live_map m" "startAddr' < y"
  shows "lower_bound (startAddr' + 1) m = filter (\<lambda>e. startAddr' < fst e) m"
    and "takeWhile (\<lambda>e. fst e < startAddr' + 1) m = filter (\<lambda>e. fst e \<le> startAddr') m"
proof -
  have k: "sorted_wrt (\<lambda>e e'. fst e < fst e') m"
    using assms(1) by (simp add: live_map_def keys_ascending_def)
  have eq: "(\<lambda>e. fst e < startAddr' + 1) = (\<lambda>e::'a word \<times> 'a word EntryValue. fst e \<le> startAddr')"
    using word_less_plus1_iff [OF assms(2)] by auto
  have "dropWhile (\<lambda>e. fst e \<le> startAddr') m = filter (\<lambda>e. \<not> fst e \<le> startAddr') m"
    by (rule dropWhile_eq_filter_sorted [OF k]) auto
  then show "lower_bound (startAddr' + 1) m = filter (\<lambda>e. startAddr' < fst e) m"
    by (simp add: lower_bound_def eq not_le)
  show "takeWhile (\<lambda>e. fst e < startAddr' + 1) m = filter (\<lambda>e. fst e \<le> startAddr') m"
    unfolding eq by (rule takeWhile_eq_filter_sorted [OF k]) auto
qed

lemma affected_filter:
  fixes m :: "'a::len word AddressSpace"
  assumes "live_map m" "startAddr' < y"
  shows "takeWhile (\<lambda>e. ev_startAddr (snd e) < endAddr') (lower_bound (startAddr' + 1) m)
           = filter (overlaps startAddr' endAddr') m"
    and "dropWhile (\<lambda>e. ev_startAddr (snd e) < endAddr') (lower_bound (startAddr' + 1) m)
           = filter (\<lambda>e. startAddr' < fst e \<and> \<not> ev_startAddr (snd e) < endAddr') m"
proof -
  let ?R = "\<lambda>e e'. fst e < fst e' \<and> fst e \<le> ev_startAddr (snd e')"
  let ?f = "filter (\<lambda>e. startAddr' < fst e) m"
  have s: "sorted_wrt ?R ?f"
    using live_map_sorted [OF assms(1)] by (rule sorted_wrt_filter)
  have ne: "ev_startAddr (snd x) < fst x" if "x \<in> set ?f" for x
    using that live_map_nonempty [OF assms(1)] by simp
  have "ev_startAddr (snd x) < ev_startAddr (snd x')" if "x \<in> set ?f" "x' \<in> set ?f" "?R x x'" for x x'
    using ne [OF that(1)] that(3) by auto
  then have s': "sorted_wrt (\<lambda>e e'. ev_startAddr (snd e) < ev_startAddr (snd e')) ?f"
    using s by (blast intro: sorted_wrt_mono_rel [where P = ?R and xs = ?f])
  have "takeWhile (\<lambda>e. ev_startAddr (snd e) < endAddr') ?f = filter (\<lambda>e. ev_startAddr (snd e) < endAddr') ?f"
    by (rule takeWhile_eq_filter_sorted [OF s']) auto
  then show "takeWhile (\<lambda>e. ev_startAddr (snd e) < endAddr') (lower_bound (startAddr' + 1) m)
           = filter (overlaps startAddr' endAddr') m"
    unfolding lower_bound_filter(1) [OF assms] by (auto simp: overlaps_def intro: filter_cong)
  have "dropWhile (\<lambda>e. ev_startAddr (snd e) < endAddr') ?f = filter (\<lambda>e. \<not> ev_startAddr (snd e) < endAddr') ?f"
    by (rule dropWhile_eq_filter_sorted [OF s']) auto
  then show "dropWhile (\<lambda>e. ev_startAddr (snd e) < endAddr') (lower_bound (startAddr' + 1) m)
           = filter (\<lambda>e. startAddr' < fst e \<and> \<not> ev_startAddr (snd e) < endAddr') m"
    unfolding lower_bound_filter(1) [OF assms] by (auto intro: filter_cong)
qed

lemma affected_entries_filter:
  fixes m :: "'a::len word AddressSpace"
  assumes "live_map m" "startAddr' < y"
  shows "affected_entries startAddr' endAddr' m = filter (overlaps startAddr' endAddr') m"
  unfolding affected_entries_def by (rule affected_filter(1) [OF assms])

lemma residues_cases:
  "x \<in> set (residues s e a) \<longleftrightarrow>
     (x = (s, \<lparr>ev_startAddr = ev_startAddr (snd a), defIndex = defIndex (snd a)\<rparr>) \<and> ev_startAddr (snd a) < s)
   \<or> (x = (fst a, \<lparr>ev_startAddr = e, defIndex = defIndex (snd a)\<rparr>) \<and> e < fst a)"
  by (auto simp: residues_def Let_def)

lemma AddDefs_unfold:
  fixes st :: "'a::len word UdState"
  assumes lm: "live_map (addressSpace st)" and ne: "startAddr' < startAddr' + size'"
    and cnt: "length (filter (overlaps startAddr' (startAddr' + size')) (addressSpace st)) \<le> kMaxAffectedCount"
  shows "AddDefs startAddr' size' st =
     (None, st\<lparr>defs := defs st @ [\<lparr>startAddr = startAddr', endAddr = startAddr' + size'\<rparr>],
              addressSpace :=
                assign_all
                  (filter (\<lambda>e. fst e \<le> startAddr') (addressSpace st)
                    @ filter (\<lambda>e. startAddr' < fst e \<and> \<not> ev_startAddr (snd e) < startAddr' + size') (addressSpace st))
                  (concat (map (residues startAddr' (startAddr' + size'))
                             (filter (overlaps startAddr' (startAddr' + size')) (addressSpace st)))
                    @ [(startAddr' + size',
                        \<lparr>ev_startAddr = startAddr', defIndex = word_of_nat (length (defs st))\<rparr>)])\<rparr>)"
  using cnt
  by (simp add: AddDefs_def Let_def affected_filter [OF lm ne] lower_bound_filter(2) [OF lm ne]
      foldl_reinsert AddDef_def assign_all_append)

lemma erased_props:
  fixes m :: "'a::len word AddressSpace"
  assumes lm: "live_map m" and ne: "s < e"
  defines "erased \<equiv> filter (\<lambda>x. fst x \<le> s) m @ filter (\<lambda>x. s < fst x \<and> \<not> ev_startAddr (snd x) < e) m"
  shows "keys_ascending erased" and "set erased = {x \<in> set m. \<not> overlaps s e x}"
proof -
  have k: "sorted_wrt (\<lambda>e e'. fst e < fst e') m"
    using lm by (simp add: live_map_def keys_ascending_def)
  show "keys_ascending erased"
    unfolding keys_ascending_def erased_def
    by (auto simp: sorted_wrt_append sorted_wrt_filter [OF k])
  show "set erased = {x \<in> set m. \<not> overlaps s e x}"
    unfolding erased_def overlaps_def by auto
qed

lemma AddDefs_map_set:
  fixes m :: "'a::len word AddressSpace" and d :: u32
  assumes lm: "live_map m" and ne: "s < e"
  defines "erased \<equiv> filter (\<lambda>x. fst x \<le> s) m @ filter (\<lambda>x. s < fst x \<and> \<not> ev_startAddr (snd x) < e) m"
    and "L \<equiv> concat (map (residues s e) (filter (overlaps s e) m)) @ [(e, \<lparr>ev_startAddr = s, defIndex = d\<rparr>)]"
  shows "keys_ascending (assign_all erased L)"
    and "set (assign_all erased L) =
          {x \<in> set m. \<not> overlaps s e x}
          \<union> (\<Union>a \<in> {a \<in> set m. overlaps s e a}. set (residues s e a))
          \<union> {(e, \<lparr>ev_startAddr = s, defIndex = d\<rparr>)}"
proof -
  have ke: "keys_ascending erased" and se: "set erased = {x \<in> set m. \<not> overlaps s e x}"
    using erased_props [OF lm ne] by (simp_all add: erased_def)
  have sL: "set L = (\<Union>a \<in> {a \<in> set m. overlaps s e a}. set (residues s e a))
                \<union> {(e, \<lparr>ev_startAddr = s, defIndex = d\<rparr>)}"
    by (auto simp: L_def)
  text \<open>At most one overlapping entry starts before \<open>s\<close>.\<close>
  have left_unique: "a = b"
    if "a \<in> set m" "b \<in> set m" "overlaps s e a" "overlaps s e b"
       "ev_startAddr (snd a) < s" "ev_startAddr (snd b) < s" for a b
  proof (rule ccontr)
    assume "a \<noteq> b"
    then have "fst a \<noteq> fst b" using live_map_keys_inj [OF lm that(1,2)] by auto
    then consider "fst a < fst b" | "fst b < fst a" by (auto simp: neq_iff)
    then show False
    proof cases
      case 1
      from live_map_order [OF lm that(1,2) 1] that(3,6) show False
        by (auto simp: overlaps_def)
    next
      case 2
      from live_map_order [OF lm that(2,1) 2] that(4,5) show False
        by (auto simp: overlaps_def)
    qed
  qed
  have sv: "\<forall>x \<in> set L. \<forall>y \<in> set L. fst x = fst y \<longrightarrow> x = y"
  proof (intro ballI impI)
    fix x y assume x: "x \<in> set L" and y: "y \<in> set L" and k: "fst x = fst y"
    from x consider
        (new) "x = (e, \<lparr>ev_startAddr = s, defIndex = d\<rparr>)"
      | (left) a where "a \<in> set m" "overlaps s e a" "ev_startAddr (snd a) < s"
          "x = (s, \<lparr>ev_startAddr = ev_startAddr (snd a), defIndex = defIndex (snd a)\<rparr>)"
      | (right) a where "a \<in> set m" "overlaps s e a" "e < fst a"
          "x = (fst a, \<lparr>ev_startAddr = e, defIndex = defIndex (snd a)\<rparr>)"
      unfolding sL by (auto simp: residues_cases)
    then show "x = y"
    proof cases
      case new
      from y consider
          (ynew) "y = (e, \<lparr>ev_startAddr = s, defIndex = d\<rparr>)"
        | (yleft) b where "b \<in> set m" "overlaps s e b" "ev_startAddr (snd b) < s"
            "y = (s, \<lparr>ev_startAddr = ev_startAddr (snd b), defIndex = defIndex (snd b)\<rparr>)"
        | (yright) b where "b \<in> set m" "overlaps s e b" "e < fst b"
            "y = (fst b, \<lparr>ev_startAddr = e, defIndex = defIndex (snd b)\<rparr>)"
        unfolding sL by (auto simp: residues_cases)
      then show ?thesis
      proof cases
        case ynew
        with new show ?thesis by simp
      next
        case (yleft b)
        with k new ne show ?thesis by auto
      next
        case (yright b)
        with k new show ?thesis by auto
      qed
    next
      case (left a)
      from y consider
          (ynew) "y = (e, \<lparr>ev_startAddr = s, defIndex = d\<rparr>)"
        | (yleft) b where "b \<in> set m" "overlaps s e b" "ev_startAddr (snd b) < s"
            "y = (s, \<lparr>ev_startAddr = ev_startAddr (snd b), defIndex = defIndex (snd b)\<rparr>)"
        | (yright) b where "b \<in> set m" "overlaps s e b" "e < fst b"
            "y = (fst b, \<lparr>ev_startAddr = e, defIndex = defIndex (snd b)\<rparr>)"
        unfolding sL by (auto simp: residues_cases)
      then show ?thesis
      proof cases
        case ynew
        with k left ne show ?thesis by auto
      next
        case (yleft b)
        with left left_unique [of a b] show ?thesis by auto
      next
        case (yright b)
        with k left ne show ?thesis by auto
      qed
    next
      case (right a)
      from y consider
          (ynew) "y = (e, \<lparr>ev_startAddr = s, defIndex = d\<rparr>)"
        | (yleft) b where "b \<in> set m" "overlaps s e b" "ev_startAddr (snd b) < s"
            "y = (s, \<lparr>ev_startAddr = ev_startAddr (snd b), defIndex = defIndex (snd b)\<rparr>)"
        | (yright) b where "b \<in> set m" "overlaps s e b" "e < fst b"
            "y = (fst b, \<lparr>ev_startAddr = e, defIndex = defIndex (snd b)\<rparr>)"
        unfolding sL by (auto simp: residues_cases)
      then show ?thesis
      proof cases
        case ynew
        with k right show ?thesis by auto
      next
        case (yleft b)
        with k right ne show ?thesis by auto
      next
        case (yright b)
        with k right live_map_keys_inj [OF lm right(1) yright(1)] show ?thesis by auto
      qed
    qed
  qed
  have fresh: "fst x \<notin> fst ` set L" if "x \<in> set erased" for x
  proof
    assume "fst x \<in> fst ` set L"
    then obtain y where y: "y \<in> set L" "fst y = fst x" by auto
    have xm: "x \<in> set m" and xo: "\<not> overlaps s e x" using that se by auto
    from y(1) consider
        (new) "y = (e, \<lparr>ev_startAddr = s, defIndex = d\<rparr>)"
      | (left) a where "a \<in> set m" "overlaps s e a" "ev_startAddr (snd a) < s"
          "y = (s, \<lparr>ev_startAddr = ev_startAddr (snd a), defIndex = defIndex (snd a)\<rparr>)"
      | (right) a where "a \<in> set m" "overlaps s e a" "e < fst a"
          "y = (fst a, \<lparr>ev_startAddr = e, defIndex = defIndex (snd a)\<rparr>)"
      unfolding sL by (auto simp: residues_cases)
    then show False
    proof cases
      case new
      with y(2) have "fst x = e" by simp
      with xo ne live_map_nonempty [OF lm xm] show False by (auto simp: overlaps_def)
    next
      case (left a)
      with y(2) have fx: "fst x = s" by simp
      with left(2) have "fst x < fst a" by (simp add: overlaps_def)
      from live_map_order [OF lm xm left(1) this] fx left(3) show False by simp
    next
      case (right a)
      with y(2) have "fst x = fst a" by simp
      with live_map_keys_inj [OF lm xm right(1)] xo right(2) show False by simp
    qed
  qed
  then have "{x \<in> set erased. fst x \<notin> fst ` set L} = set erased" by auto
  with assign_all_set [OF ke sv]
  have "keys_ascending (assign_all erased L)" "set (assign_all erased L) = set erased \<union> set L"
    by simp_all
  then show "keys_ascending (assign_all erased L)"
    and "set (assign_all erased L) =
          {x \<in> set m. \<not> overlaps s e x}
          \<union> (\<Union>a \<in> {a \<in> set m. overlaps s e a}. set (residues s e a))
          \<union> {(e, \<lparr>ev_startAddr = s, defIndex = d\<rparr>)}"
    unfolding se sL by (simp_all add: Un_assoc)
qed

lemma AddDefs_result_cases:
  fixes m M :: "'w::linorder AddressSpace"
  assumes sM: "set M = {x \<in> set m. \<not> overlaps s e x}
          \<union> (\<Union>a \<in> {a \<in> set m. overlaps s e a}. set (residues s e a))
          \<union> {(e, \<lparr>ev_startAddr = s, defIndex = d\<rparr>)}"
    and z: "z \<in> set M"
  shows "z = (e, \<lparr>ev_startAddr = s, defIndex = d\<rparr>)
    \<or> (z \<in> set m \<and> \<not> overlaps s e z)
    \<or> (\<exists>a \<in> set m. overlaps s e a \<and> ev_startAddr (snd a) < s
          \<and> z = (s, \<lparr>ev_startAddr = ev_startAddr (snd a), defIndex = defIndex (snd a)\<rparr>))
    \<or> (\<exists>a \<in> set m. overlaps s e a \<and> e < fst a
          \<and> z = (fst a, \<lparr>ev_startAddr = e, defIndex = defIndex (snd a)\<rparr>))"
proof -
  from z have "z = (e, \<lparr>ev_startAddr = s, defIndex = d\<rparr>) \<or> (z \<in> set m \<and> \<not> overlaps s e z)
      \<or> (\<exists>a \<in> set m. overlaps s e a \<and> z \<in> set (residues s e a))"
    unfolding sM by blast
  then show ?thesis
    unfolding residues_cases by blast
qed

lemma AddDefs_live_map_preserved:
  fixes m M :: "'w::linorder AddressSpace"
  assumes lm: "live_map m" and ne: "s < e" and kM: "keys_ascending M"
    and sM: "set M = {x \<in> set m. \<not> overlaps s e x}
          \<union> (\<Union>a \<in> {a \<in> set m. overlaps s e a}. set (residues s e a))
          \<union> {(e, \<lparr>ev_startAddr = s, defIndex = d\<rparr>)}"
  shows "live_map M"
proof -
  let ?new = "(e, \<lparr>ev_startAddr = s, defIndex = d\<rparr>)"
  let ?I = "{t. s \<le> t \<and> t < e}"
  let ?left = "\<lambda>a. (s, \<lparr>ev_startAddr = ev_startAddr (snd a), defIndex = defIndex (snd a)\<rparr>)"
  let ?right = "\<lambda>a. (fst a, \<lparr>ev_startAddr = e, defIndex = defIndex (snd a)\<rparr>)"
  have inew: "interval_of ?new = ?I" by (simp add: interval_of_def)
  have org: "\<exists>a \<in> set m. interval_of z \<subseteq> interval_of a \<and> interval_of z \<inter> ?I = {}
        \<and> ev_startAddr (snd z) < fst z
        \<and> ((z = a \<and> \<not> overlaps s e a)
           \<or> (overlaps s e a \<and> z = ?left a \<and> interval_of z \<subseteq> {t. t < s})
           \<or> (overlaps s e a \<and> z = ?right a \<and> interval_of z \<subseteq> {t. e \<le> t}))"
    if "z \<in> set M" "z \<noteq> ?new" for z
  proof -
    from AddDefs_result_cases [OF sM that(1)] that(2) consider
        (old) "z \<in> set m" "\<not> overlaps s e z"
      | (left) a where "a \<in> set m" "overlaps s e a" "ev_startAddr (snd a) < s" "z = ?left a"
      | (right) a where "a \<in> set m" "overlaps s e a" "e < fst a" "z = ?right a"
      by blast
    then show ?thesis
    proof cases
      case old
      have "interval_of z \<inter> ?I = {}"
        using old(2) by (auto simp: interval_of_def overlaps_def)
      with old live_map_nonempty [OF lm old(1)] show ?thesis by auto
    next
      case (left a)
      have "interval_of z \<subseteq> interval_of a" "interval_of z \<inter> ?I = {}" "interval_of z \<subseteq> {t. t < s}"
        using left(2,3,4) by (auto simp: interval_of_def overlaps_def)
      with left show ?thesis by auto
    next
      case (right a)
      have "interval_of z \<subseteq> interval_of a" "interval_of z \<inter> ?I = {}" "interval_of z \<subseteq> {t. e \<le> t}"
        using right(2,3,4) by (auto simp: interval_of_def overlaps_def)
      with right show ?thesis by auto
    qed
  qed
  have nonempty: "intervals_nonempty M"
    unfolding intervals_nonempty_def
  proof
    fix z assume "z \<in> set M"
    then show "ev_startAddr (snd z) < fst z"
      using org [of z] ne by (cases "z = ?new") auto
  qed
  have md: "interval_of a \<inter> interval_of b = {}" if "a \<in> set m" "b \<in> set m" "a \<noteq> b" for a b
    using lm that by (auto simp: live_map_def intervals_disjoint_def)
  have disjoint: "intervals_disjoint M"
    unfolding intervals_disjoint_def
  proof (intro ballI impI)
    fix z z' assume z: "z \<in> set M" and z': "z' \<in> set M" and neq: "z \<noteq> z'"
    show "interval_of z \<inter> interval_of z' = {}"
    proof (cases "z = ?new")
      case True
      with neq have "z' \<noteq> ?new" by auto
      from org [OF z' this] True inew show ?thesis by auto
    next
      case False
      note zn = this
      from org [OF z zn] obtain a where a: "a \<in> set m" "interval_of z \<subseteq> interval_of a"
        "interval_of z \<inter> ?I = {}"
        "(z = a \<and> \<not> overlaps s e a)
           \<or> (overlaps s e a \<and> z = ?left a \<and> interval_of z \<subseteq> {t. t < s})
           \<or> (overlaps s e a \<and> z = ?right a \<and> interval_of z \<subseteq> {t. e \<le> t})"
        by blast
      show ?thesis
      proof (cases "z' = ?new")
        case True
        with a(3) inew show ?thesis by auto
      next
        case False
        from org [OF z' False] obtain b where b: "b \<in> set m" "interval_of z' \<subseteq> interval_of b"
          "(z' = b \<and> \<not> overlaps s e b)
           \<or> (overlaps s e b \<and> z' = ?left b \<and> interval_of z' \<subseteq> {t. t < s})
           \<or> (overlaps s e b \<and> z' = ?right b \<and> interval_of z' \<subseteq> {t. e \<le> t})"
          by blast
        show ?thesis
        proof (cases "a = b")
          case False
          from md [OF a(1) b(1) False] a(2) b(2) show ?thesis by blast
        next
          case True
          have lr: "A \<inter> B = {}" if "A \<subseteq> {t. t < s}" "B \<subseteq> {t. e \<le> t}" for A B :: "'w set"
          proof -
            have "{t. t < s} \<inter> {t. e \<le> t} = {}" using ne by auto
            with that show ?thesis by blast
          qed
          from a(4) consider (za) "z = a" "\<not> overlaps s e a"
            | (zl) "overlaps s e a" "z = ?left a" "interval_of z \<subseteq> {t. t < s}"
            | (zr) "overlaps s e a" "z = ?right a" "interval_of z \<subseteq> {t. e \<le> t}"
            by blast
          then show ?thesis
          proof cases
            case za
            with b(3) True neq show ?thesis by blast
          next
            case zl
            from b(3) True zl(1) neq zl(2)
            have "z' = ?right b \<and> interval_of z' \<subseteq> {t. e \<le> t}" by blast
            with zl(3) lr show ?thesis by blast
          next
            case zr
            from b(3) True zr(1) neq zr(2)
            have "z' = ?left b \<and> interval_of z' \<subseteq> {t. t < s}" by blast
            with zr(3) lr [of "interval_of z'" "interval_of z"] show ?thesis by blast
          qed
        qed
      qed
    qed
  qed
  from kM nonempty disjoint show ?thesis by (simp add: live_map_def)
qed

lemma AddDefs_cover_preserved:
  fixes m M :: "'w::linorder AddressSpace"
  assumes cov: "intervals_cover lim m"
    and sM: "set M = {x \<in> set m. \<not> overlaps s e x}
          \<union> (\<Union>a \<in> {a \<in> set m. overlaps s e a}. set (residues s e a))
          \<union> {(e, \<lparr>ev_startAddr = s, defIndex = d\<rparr>)}"
  shows "intervals_cover lim M"
  unfolding intervals_cover_def
proof (intro allI impI)
  fix a assume "a < lim"
  with cov obtain x where x: "x \<in> set m" "a \<in> interval_of x"
    by (auto simp: intervals_cover_def)
  show "\<exists>z \<in> set M. a \<in> interval_of z"
  proof (cases "overlaps s e x")
    case False
    with x have "x \<in> set M" unfolding sM by simp
    with x(2) show ?thesis by blast
  next
    case True
    consider "a < s" | "s \<le> a" "a < e" | "e \<le> a" by fastforce
    then show ?thesis
    proof cases
      case 1
      let ?z = "(s, \<lparr>ev_startAddr = ev_startAddr (snd x), defIndex = defIndex (snd x)\<rparr>)"
      have "ev_startAddr (snd x) < s" using 1 x(2) by (auto simp: interval_of_def)
      then have "?z \<in> set (residues s e x)" by (simp add: residues_cases)
      with x(1) True have "?z \<in> set M" unfolding sM by blast
      moreover have "a \<in> interval_of ?z" using 1 x(2) by (auto simp: interval_of_def)
      ultimately show ?thesis by blast
    next
      case 2
      have "(e, \<lparr>ev_startAddr = s, defIndex = d\<rparr>) \<in> set M" unfolding sM by simp
      moreover have "a \<in> interval_of (e, \<lparr>ev_startAddr = s, defIndex = d\<rparr>)"
        using 2 by (simp add: interval_of_def)
      ultimately show ?thesis by blast
    next
      case 3
      let ?z = "(fst x, \<lparr>ev_startAddr = e, defIndex = defIndex (snd x)\<rparr>)"
      have "e < fst x" using 3 x(2) by (auto simp: interval_of_def)
      then have "?z \<in> set (residues s e x)" by (simp add: residues_cases)
      with x(1) True have "?z \<in> set M" unfolding sM by blast
      moreover have "a \<in> interval_of ?z" using 3 x(2) by (auto simp: interval_of_def)
      ultimately show ?thesis by blast
    qed
  qed
qed

lemma consecutive_ok_tail: "consecutive_ok (x # m) \<Longrightarrow> consecutive_ok m"
  by (cases m) auto

lemma consecutive_ok_head:
  "consecutive_ok (x # m) \<Longrightarrow> ev_startAddr (snd x) < fst x \<and> (\<forall>y \<in> set m. fst x \<le> ev_startAddr (snd y) \<and> ev_startAddr (snd y) < fst y)"
proof (induction m arbitrary: x)
  case Nil
  then show ?case by simp
next
  case (Cons y m)
  from Cons.prems have a: "ev_startAddr (snd x) < fst x" "fst x \<le> ev_startAddr (snd y)" "consecutive_ok (y # m)"
    by simp_all
  from Cons.IH [OF a(3)] have "ev_startAddr (snd y) < fst y"
    "\<forall>z \<in> set m. fst y \<le> ev_startAddr (snd z) \<and> ev_startAddr (snd z) < fst z" by simp_all
  with a show ?case by fastforce
qed

lemma consecutive_ok_live_map: "consecutive_ok m \<Longrightarrow> live_map m"
proof (induction m)
  case Nil
  then show ?case
    by (simp add: live_map_def keys_ascending_def intervals_nonempty_def intervals_disjoint_def)
next
  case (Cons x m)
  from Cons have lm: "live_map m" using consecutive_ok_tail by blast
  from consecutive_ok_head [OF Cons.prems]
  have h: "ev_startAddr (snd x) < fst x"
    "\<forall>y \<in> set m. fst x \<le> ev_startAddr (snd y) \<and> ev_startAddr (snd y) < fst y" by simp_all
  have "keys_ascending (x # m)"
    using lm h by (fastforce simp: live_map_def keys_ascending_def)
  moreover have "intervals_nonempty (x # m)"
    using lm h by (simp add: live_map_def intervals_nonempty_def)
  moreover have "interval_of x \<inter> interval_of y = {}" if "y \<in> set m" for y
    using h that by (fastforce simp: interval_of_def)
  then have "intervals_disjoint (x # m)"
    using lm unfolding live_map_def intervals_disjoint_def by (simp add: Int_commute)
  ultimately show ?case by (simp add: live_map_def)
qed

section \<open>The initial state of the builder\<close>

lemma word_zero_less_max: "(0 :: 'a::len word) < - 1"
  by (simp add: word_gt_0)

lemma Ud_Init_Inr:
  fixes ud :: "'a::len word Ud"
  assumes "Ud_Init cs mt E n = Inr ud"
  shows "trace ud = [\<lparr>codeIndex = 0, regUseStartIndex = 0, regUseEndIndex = 0,
                      memUseStartIndex = 0, memUseEndIndex = 0, regDefStartIndex = 0,
                      regDefEndIndex = 0, memDefStartIndex = 0, memDefEndIndex = 0\<rparr>]"
    and "code ud = [\<lparr>pc = 0, textIndex = 0, textSize = 0\<rparr>]"
    and "uses (regState ud) = []" and "uses (memState ud) = []"
    and "defs (regState ud) = [\<lparr>startAddr = 0, endAddr = - 1\<rparr>]"
    and "defs (memState ud) = [\<lparr>startAddr = 0, endAddr = - 1\<rparr>]"
    and "addressSpace (regState ud) = [(- 1, \<lparr>ev_startAddr = 0, defIndex = 0\<rparr>)]"
    and "addressSpace (memState ud) = [(- 1, \<lparr>ev_startAddr = 0, defIndex = 0\<rparr>)]"
  using assms
  by (auto simp: Ud_Init_def UdState_Init_def AddTrace_def AddDef_def Let_def
      split: sum.splits)

lemma floor_sqrt_small [simp]: "floor_sqrt 0 = 0" "floor_sqrt (Suc 0) = Suc 0" "floor_sqrt 1 = 1"
  by (simp_all add: floor_sqrt_def sqrt_up.simps)

lemma GetFirstPrime_loop_ret:
  "primes \<noteq> [] \<Longrightarrow> \<not> last primes \<le> floor_sqrt v \<Longrightarrow>
   \<not> list_ex (\<lambda>p. v mod p = 0) (takeWhile (\<lambda>p. p \<le> floor_sqrt v) primes) \<Longrightarrow>
   GetFirstPrime_loop v primes = Some (v, primes)"
  by (subst GetFirstPrime_loop.simps) simp

lemma GetFirstPrime_loop_next:
  "primes \<noteq> [] \<Longrightarrow> \<not> last primes \<le> floor_sqrt v \<Longrightarrow>
   list_ex (\<lambda>p. v mod p = 0) (takeWhile (\<lambda>p. p \<le> floor_sqrt v) primes) \<Longrightarrow>
   GetFirstPrime_loop v primes = GetFirstPrime_loop (v + 2) primes"
  by (subst GetFirstPrime_loop.simps) simp

lemma GetFirstPrime_loop_fill:
  "primes \<noteq> [] \<Longrightarrow> last primes \<le> floor_sqrt v \<Longrightarrow>
   GetFirstPrime_loop v primes =
     Option.bind (GetFirstPrime_loop ((last primes + 1) OR 1) primes)
       (\<lambda>r. GetFirstPrime_loop v (snd r @ [fst r]))"
  by (subst GetFirstPrime_loop.simps) simp

lemma GetFirstPrime_0: "GetFirstPrimeGreaterThanOrEqualTo 0 = Some 1"
  by (simp add: GetFirstPrimeGreaterThanOrEqualTo_def GetFirstPrimeGreaterThanOrEqualTo_cached_def
      GetFirstPrime_loop_ret)

lemma PartialUses_Init_eq:
  "PartialUses_Init = \<lparr>entries = replicate 11 empty_slot, load = 0, maxLoad = 5\<rparr>"
  by (simp add: PartialUses_Init_def resize_def zero_PartialUse_def empty_slot_def Let_def)

lemma reserve_refill_empty:
  "\<forall>e \<in> set old. first e = kNoUse \<Longrightarrow> reserve_refill old table = Inr table"
  by (induction old) auto

lemma PartialUses_reserve_0:
  "PartialUses_reserve 0 PartialUses_Init = Inr \<lparr>entries = [empty_slot], load = 0, maxLoad = 0\<rparr>"
  by (simp add: PartialUses_reserve_def GetFirstPrime_0 PartialUses_Init_eq resize_def
      reserve_refill_empty empty_slot_def)

lemma UdState_Init_0:
  "UdState_Init 0 = Inr \<lparr>uses = [], partialUses = \<lparr>entries = [empty_slot], load = 0, maxLoad = 0\<rparr>,
                          defs = [], addressSpace = []\<rparr>"
  by (simp add: UdState_Init_def PartialUses_reserve_0)

lemma Ud_Init_386:
  "(Ud_Init any_capstone EM_386 Little 0 :: error + 32 word Ud) =
     Inr \<lparr>machineType = EM_386, endianness = Little, disasmEngine = Some (CS_ARCH_X86, [CS_MODE_32]),
          code = [\<lparr>pc = 0, textIndex = 0, textSize = 0\<rparr>], textBytes = [], disasm = [''<unknown>''],
          trace = [seed_trace], regState = seed_state, memState = seed_state\<rparr>"
  by (simp add: Ud_Init_def UdState_Init_0 AddTrace_def AddDef_def Disasm_Init_def sizeof_W_def
      any_capstone_def seed_state_def seed_trace_def)

section \<open>The affected-count cap of \<^verbatim>\<open>AddDefs\<close>\<close>

lemma seed_state_live_map: "live_map (addressSpace (seed_state :: 'a::len word UdState))"
  by (rule consecutive_ok_live_map) (simp add: seed_state_def word_zero_less_max)

lemma seed_state_cover: "intervals_cover (- 1) (addressSpace (seed_state :: 'a::len word UdState))"
  by (simp add: intervals_cover_def seed_state_def interval_of_def)

lemma byte_stores_33_live_map: "live_map (byte_stores 33 :: 32 word AddressSpace)"
  by (rule consecutive_ok_live_map) code_simp

lemma byte_stores_33_overlaps:
  "length (filter (overlaps 0 33) (byte_stores 33 :: 32 word AddressSpace)) = 33"
  by code_simp

text \<open>
  Claim C8, amended.  On a live map (ascending keys, non-empty and pairwise disjoint
  intervals), for a call \<open>AddDefs(start, size)\<close> whose range \<open>[start, start + size)\<close> is not
  empty and does not wrap: if the range overlaps more than 32 live intervals the call
  returns \<^verbatim>\<open>-EINVAL\<close> and leaves the whole state (map, defs, uses, partial uses) as it was;
  if it overlaps at most 32 the call returns 0.
\<close>

theorem AddDefs_affected_count_cap:
  fixes st :: "'a::len word UdState"
  assumes "live_map (addressSpace st)" and "startAddr' < startAddr' + size'"
  shows "(32 < length (filter (overlaps startAddr' (startAddr' + size')) (addressSpace st))
            \<longrightarrow> AddDefs startAddr' size' st = (Some EINVAL, st))
       \<and> (length (filter (overlaps startAddr' (startAddr' + size')) (addressSpace st)) \<le> 32
            \<longrightarrow> fst (AddDefs startAddr' size' st) = None)"
  by (simp add: AddDefs_def Let_def affected_filter [OF assms] kMaxAffectedCount_def)

theorem AddDefs_affected_count_cap_witness:
  "live_map (addressSpace (byte_stores_state 33 :: 32 word UdState))
   \<and> (0 :: 32 word) < 0 + 33
   \<and> 32 < length (filter (overlaps 0 (0 + 33)) (addressSpace (byte_stores_state 33 :: 32 word UdState)))
   \<and> AddDefs 0 33 (byte_stores_state 33 :: 32 word UdState) = (Some EINVAL, byte_stores_state 33)
   \<and> live_map (addressSpace (seed_state :: 32 word UdState))
   \<and> (0x1000 :: 32 word) < 0x1000 + 4
   \<and> length (filter (overlaps 0x1000 (0x1000 + 4)) (addressSpace (seed_state :: 32 word UdState))) \<le> 32
   \<and> fst (AddDefs 0x1000 4 (seed_state :: 32 word UdState)) = None"
proof -
  have a: "live_map (addressSpace (byte_stores_state 33 :: 32 word UdState))"
    by (simp add: byte_stores_state_def byte_stores_33_live_map)
  have b: "(0 :: 32 word) < 0 + 33" by simp
  have c: "32 < length (filter (overlaps 0 (0 + 33)) (addressSpace (byte_stores_state 33 :: 32 word UdState)))"
    by (simp add: byte_stores_state_def byte_stores_33_overlaps)
  have d: "(0x1000 :: 32 word) < 0x1000 + 4" by simp
  have e: "length (filter (overlaps 0x1000 (0x1000 + 4)) (addressSpace (seed_state :: 32 word UdState))) \<le> 32"
    by (simp add: seed_state_def)
  show ?thesis
    using AddDefs_affected_count_cap [OF a b] AddDefs_affected_count_cap [OF seed_state_live_map d]
      a b c d e seed_state_live_map
    by blast
qed


lemma byte_stores_33_walk_from_top:
  "length (takeWhile (\<lambda>e. ev_startAddr (snd e) < - 1)
     (lower_bound 0 (byte_stores 33 :: 32 word AddressSpace))) = 34"
  by code_simp

lemma byte_stores_33_no_overlap_top:
  "filter (overlaps (- 1) (- 1)) (byte_stores 33 :: 32 word AddressSpace) = []"
  by code_simp

text \<open>
  Without the restriction to a non-empty range the walk counts entries that do not overlap:
  on the live map left by 33 one-byte stores, \<open>AddDefs(0xFFFFFFFF, 0)\<close> starts the walk at
  \<open>lower_bound(0)\<close> and visits all 34 entries, so it fails although its range overlaps no
  interval.
\<close>

theorem AddDefs_affected_count_cap_counterexample:
  "live_map (addressSpace (byte_stores_state 33 :: 32 word UdState))
   \<and> length (filter (overlaps (- 1) (- 1 + 0)) (addressSpace (byte_stores_state 33 :: 32 word UdState))) = 0
   \<and> AddDefs (- 1) 0 (byte_stores_state 33 :: 32 word UdState) = (Some EINVAL, byte_stores_state 33)"
proof -
  have "AddDefs (- 1) 0 (byte_stores_state 33 :: 32 word UdState) = (Some EINVAL, byte_stores_state 33)"
    using byte_stores_33_walk_from_top
    by (simp add: AddDefs_def Let_def kMaxAffectedCount_def byte_stores_state_def)
  then show ?thesis
    by (simp add: byte_stores_state_def byte_stores_33_live_map byte_stores_33_no_overlap_top)
qed
section \<open>What \<^verbatim>\<open>AddDefs\<close> does to the map\<close>

lemma AddDefs_snd_fields:
  "uses (snd (AddDefs a n st)) = uses st" "partialUses (snd (AddDefs a n st)) = partialUses st"
  by (simp_all add: AddDefs_def AddDef_def Let_def)

text \<open>
  Claim C2, amended.  On a live map (ascending keys, non-empty and pairwise disjoint
  intervals), for a call \<open>AddDefs(start, size)\<close> whose range \<open>[start, end)\<close>,
  \<open>end = start + size\<close>, is not empty and does not wrap.  If the range overlaps at most 32
  live intervals: the call returns 0; the entries of the map afterwards are the entries that
  do not overlap the range, the residues of each overlapped entry with its old \<open>defIndex\<close>
  (none for an outer overlap, \<open>[end, entry.end)\<close> for a left overlap, both
  \<open>[entry.start, start)\<close> and \<open>[end, entry.end)\<close> for an inner overlap, \<open>[entry.start, start)\<close>
  for a right overlap), and \<open>[start, end)\<close> mapped to the new \<open>defIndex\<close>, the index of the
  \<open>Def{start, end}\<close> appended to \<open>defs\<close>; the map is a live map again.  If the range overlaps
  more than 32 live intervals: the call returns \<^verbatim>\<open>-EINVAL\<close> and changes nothing.
\<close>

theorem AddDefs_replaces_by_residues:
  fixes st :: "'a::len word UdState"
  assumes "live_map (addressSpace st)" and "startAddr' < startAddr' + size'"
  shows "(length (filter (overlaps startAddr' (startAddr' + size')) (addressSpace st)) \<le> 32 \<longrightarrow>
      fst (AddDefs startAddr' size' st) = None
    \<and> set (addressSpace (snd (AddDefs startAddr' size' st))) =
          {x \<in> set (addressSpace st). \<not> overlaps startAddr' (startAddr' + size') x}
          \<union> (\<Union>x \<in> {x \<in> set (addressSpace st). overlaps startAddr' (startAddr' + size') x}.
                set (residues startAddr' (startAddr' + size') x))
          \<union> {(startAddr' + size',
               \<lparr>ev_startAddr = startAddr', defIndex = word_of_nat (length (defs st))\<rparr>)}
    \<and> defs (snd (AddDefs startAddr' size' st)) =
          defs st @ [\<lparr>startAddr = startAddr', endAddr = startAddr' + size'\<rparr>]
    \<and> live_map (addressSpace (snd (AddDefs startAddr' size' st))))
  \<and> (32 < length (filter (overlaps startAddr' (startAddr' + size')) (addressSpace st)) \<longrightarrow>
      AddDefs startAddr' size' st = (Some EINVAL, st))"
proof (intro conjI impI)
  assume many: "32 < length (filter (overlaps startAddr' (startAddr' + size')) (addressSpace st))"
  then show "AddDefs startAddr' size' st = (Some EINVAL, st)"
    by (simp add: AddDefs_def Let_def affected_filter [OF assms] kMaxAffectedCount_def)
next
  assume few: "length (filter (overlaps startAddr' (startAddr' + size')) (addressSpace st)) \<le> 32"
  let ?e = "startAddr' + size'"
  let ?d = "word_of_nat (length (defs st)) :: u32"
  have cnt: "length (filter (overlaps startAddr' ?e) (addressSpace st)) \<le> kMaxAffectedCount"
    using few by (simp add: kMaxAffectedCount_def)
  note u = AddDefs_unfold [OF assms(1,2) cnt]
  note ms = AddDefs_map_set [OF assms(1,2), of ?d]
  have k: "keys_ascending (addressSpace (snd (AddDefs startAddr' size' st)))"
    unfolding u using ms(1) by simp
  have s: "set (addressSpace (snd (AddDefs startAddr' size' st))) =
          {x \<in> set (addressSpace st). \<not> overlaps startAddr' ?e x}
          \<union> (\<Union>x \<in> {x \<in> set (addressSpace st). overlaps startAddr' ?e x}. set (residues startAddr' ?e x))
          \<union> {(?e, \<lparr>ev_startAddr = startAddr', defIndex = ?d\<rparr>)}"
    unfolding u using ms(2) by simp
  have l: "live_map (addressSpace (snd (AddDefs startAddr' size' st)))"
    by (rule AddDefs_live_map_preserved [OF assms(1,2) k s])
  show "fst (AddDefs startAddr' size' st) = None" unfolding u by simp
  show "set (addressSpace (snd (AddDefs startAddr' size' st))) =
          {x \<in> set (addressSpace st). \<not> overlaps startAddr' ?e x}
          \<union> (\<Union>x \<in> {x \<in> set (addressSpace st). overlaps startAddr' ?e x}. set (residues startAddr' ?e x))
          \<union> {(?e, \<lparr>ev_startAddr = startAddr', defIndex = word_of_nat (length (defs st))\<rparr>)}"
    by (rule s)
  show "defs (snd (AddDefs startAddr' size' st)) =
          defs st @ [\<lparr>startAddr = startAddr', endAddr = startAddr' + size'\<rparr>]"
    unfolding u by simp
  show "live_map (addressSpace (snd (AddDefs startAddr' size' st)))" by (rule l)
qed

lemma AddDefs_seed_1000:
  "AddDefs 0x1000 4 (seed_state :: 32 word UdState) =
     (None, seed_state\<lparr>defs := [\<lparr>startAddr = 0, endAddr = - 1\<rparr>, \<lparr>startAddr = 0x1000, endAddr = 0x1004\<rparr>],
                       addressSpace := [(0x1000, \<lparr>ev_startAddr = 0, defIndex = 0\<rparr>),
                                        (0x1004, \<lparr>ev_startAddr = 0x1000, defIndex = 1\<rparr>),
                                        (- 1, \<lparr>ev_startAddr = 0x1004, defIndex = 0\<rparr>)]\<rparr>)"
  by (simp add: AddDefs_def AddDef_def Let_def seed_state_def lower_bound_def reinsert_residue_def
      kMaxAffectedCount_def)

theorem AddDefs_replaces_by_residues_witness:
  "live_map (addressSpace (seed_state :: 32 word UdState))
   \<and> (0x1000 :: 32 word) < 0x1000 + 4
   \<and> length (filter (overlaps 0x1000 (0x1000 + 4)) (addressSpace (seed_state :: 32 word UdState))) \<le> 32
   \<and> fst (AddDefs 0x1000 4 (seed_state :: 32 word UdState)) = None
   \<and> addressSpace (snd (AddDefs 0x1000 4 (seed_state :: 32 word UdState))) =
        [(0x1000, \<lparr>ev_startAddr = 0, defIndex = 0\<rparr>),
         (0x1004, \<lparr>ev_startAddr = 0x1000, defIndex = 1\<rparr>),
         (- 1, \<lparr>ev_startAddr = 0x1004, defIndex = 0\<rparr>)]
   \<and> live_map (addressSpace (snd (AddDefs 0x1000 4 (seed_state :: 32 word UdState))))
   \<and> live_map (addressSpace (byte_stores_state 33 :: 32 word UdState))
   \<and> (0 :: 32 word) < 0 + 33
   \<and> 32 < length (filter (overlaps 0 (0 + 33)) (addressSpace (byte_stores_state 33 :: 32 word UdState)))
   \<and> AddDefs 0 33 (byte_stores_state 33 :: 32 word UdState) = (Some EINVAL, byte_stores_state 33)"
proof -
  have d: "(0x1000 :: 32 word) < 0x1000 + 4" by simp
  have e: "length (filter (overlaps 0x1000 (0x1000 + 4)) (addressSpace (seed_state :: 32 word UdState))) \<le> 32"
    by (simp add: seed_state_def)
  have a: "live_map (addressSpace (byte_stores_state 33 :: 32 word UdState))"
    by (simp add: byte_stores_state_def byte_stores_33_live_map)
  have b: "(0 :: 32 word) < 0 + 33" by simp
  have c: "32 < length (filter (overlaps 0 (0 + 33)) (addressSpace (byte_stores_state 33 :: 32 word UdState)))"
    by (simp add: byte_stores_state_def byte_stores_33_overlaps)
  from AddDefs_replaces_by_residues [OF seed_state_live_map d] e
  have w1: "fst (AddDefs 0x1000 4 (seed_state :: 32 word UdState)) = None"
    "live_map (addressSpace (snd (AddDefs 0x1000 4 (seed_state :: 32 word UdState))))"
    by blast+
  from AddDefs_replaces_by_residues [OF a b] c
  have w2: "AddDefs 0 33 (byte_stores_state 33 :: 32 word UdState) = (Some EINVAL, byte_stores_state 33)"
    by blast
  have w3: "addressSpace (snd (AddDefs 0x1000 4 (seed_state :: 32 word UdState))) =
        [(0x1000, \<lparr>ev_startAddr = 0, defIndex = 0\<rparr>),
         (0x1004, \<lparr>ev_startAddr = 0x1000, defIndex = 1\<rparr>),
         (- 1, \<lparr>ev_startAddr = 0x1004, defIndex = 0\<rparr>)]"
    by (simp add: AddDefs_seed_1000)
  show ?thesis using seed_state_live_map d e w1 w3 a b c w2 by blast
qed

lemma AddDefs_seed_4_0:
  "AddDefs 4 0 (seed_state :: 32 word UdState) =
     (None, seed_state\<lparr>defs := [\<lparr>startAddr = 0, endAddr = - 1\<rparr>, \<lparr>startAddr = 4, endAddr = 4\<rparr>],
                       addressSpace := [(4, \<lparr>ev_startAddr = 4, defIndex = 1\<rparr>),
                                        (- 1, \<lparr>ev_startAddr = 4, defIndex = 0\<rparr>)]\<rparr>)"
  by (simp add: AddDefs_def AddDef_def Let_def seed_state_def lower_bound_def reinsert_residue_def
      kMaxAffectedCount_def)

lemma AddDefs_byte_stores_33:
  "AddDefs 0 33 (byte_stores_state 33 :: 32 word UdState) = (Some EINVAL, byte_stores_state 33)"
proof -
  have a: "live_map (addressSpace (byte_stores_state 33 :: 32 word UdState))"
    by (simp add: byte_stores_state_def byte_stores_33_live_map)
  have b: "(0 :: 32 word) < 0 + 33" by simp
  show ?thesis
    using affected_filter(1) [OF a b, of "0 + 33"] byte_stores_33_overlaps
    by (simp add: AddDefs_def Let_def kMaxAffectedCount_def byte_stores_state_def)
qed

theorem AddDefs_replaces_by_residues_counterexample:
  "addressSpace (snd (AddDefs 4 0 (seed_state :: 32 word UdState))) =
     [(4, \<lparr>ev_startAddr = 4, defIndex = 1\<rparr>), (- 1, \<lparr>ev_startAddr = 4, defIndex = 0\<rparr>)]
   \<and> residues 4 (4 + 0) (- 1 :: 32 word, \<lparr>ev_startAddr = 0, defIndex = 0\<rparr>) =
     [(4, \<lparr>ev_startAddr = 0, defIndex = 0\<rparr>), (- 1, \<lparr>ev_startAddr = 4, defIndex = 0\<rparr>)]
   \<and> length (filter (overlaps 0 (0 + 33)) (addressSpace (byte_stores_state 33 :: 32 word UdState))) = 33
   \<and> AddDefs 0 33 (byte_stores_state 33 :: 32 word UdState) = (Some EINVAL, byte_stores_state 33)"
  using AddDefs_byte_stores_33
  by (simp add: AddDefs_seed_4_0 residues_def word_zero_less_max byte_stores_state_def byte_stores_33_overlaps)

lemma AddUses_step_addressSpace:
  "AddUses_step a e it st = Inr st' \<Longrightarrow> addressSpace st' = addressSpace st"
  by (auto simp: AddUses_step_def Let_def split: if_splits sum.splits)

lemma AddUses_loop_addressSpace:
  "AddUses_loop a e its st = Inr st' \<Longrightarrow> addressSpace st' = addressSpace st"
proof (induction its arbitrary: st)
  case Nil
  then show ?case by simp
next
  case (Cons it its)
  then show ?case
    by (auto split: sum.splits dest: AddUses_step_addressSpace)
qed

lemma AddUses_addressSpace:
  "AddUses a k st = Inr st' \<Longrightarrow> addressSpace st' = addressSpace st"
  by (auto simp: AddUses_def Let_def dest: AddUses_loop_addressSpace)

lemma AddDefs_preserves_live_map:
  fixes st :: "'a::len word UdState"
  assumes lm: "live_map (addressSpace st)" and ne: "a < a + k"
  shows "live_map (addressSpace (snd (AddDefs a k st)))"
    and "intervals_cover lim (addressSpace st) \<Longrightarrow> intervals_cover lim (addressSpace (snd (AddDefs a k st)))"
proof -
  let ?e = "a + k"
  let ?d = "word_of_nat (length (defs st)) :: u32"
  show "live_map (addressSpace (snd (AddDefs a k st)))"
  proof (cases "length (filter (overlaps a ?e) (addressSpace st)) \<le> kMaxAffectedCount")
    case True
    note u = AddDefs_unfold [OF lm ne True]
    note ms = AddDefs_map_set [OF lm ne, of ?d]
    show ?thesis
      unfolding u using AddDefs_live_map_preserved [OF lm ne ms(1) ms(2)] by simp
  next
    case False
    then show ?thesis
      using lm by (simp add: AddDefs_def Let_def affected_filter [OF lm ne])
  qed
  show "intervals_cover lim (addressSpace (snd (AddDefs a k st)))" if cov: "intervals_cover lim (addressSpace st)"
  proof (cases "length (filter (overlaps a ?e) (addressSpace st)) \<le> kMaxAffectedCount")
    case True
    note u = AddDefs_unfold [OF lm ne True]
    note ms = AddDefs_map_set [OF lm ne, of ?d]
    show ?thesis
      unfolding u using AddDefs_cover_preserved [OF cov ms(2)] by simp
  next
    case False
    then show ?thesis
      using cov by (simp add: AddDefs_def Let_def affected_filter [OF lm ne])
  qed
qed

text \<open>
  Claim C5, amended.  \<^verbatim>\<open>Ud::Init\<close> installs in each of the two address spaces the catch-all
  \<open>Def(0, 2^(8W) - 1)\<close> with \<open>defIndex = 0\<close> (its end is \<^verbatim>\<open>std::numeric_limits<W>::max()\<close>), so
  that the intervals of the live-writer map are non-empty, pairwise disjoint and cover
  \<open>[0, 2^(8W) - 1)\<close>; \<^verbatim>\<open>AddUses\<close> does not change the map; and every \<^verbatim>\<open>AddDefs(start, size)\<close>
  whose range is not empty and does not wrap leaves a map whose intervals are again
  non-empty, pairwise disjoint and cover \<open>[0, 2^(8W) - 1)\<close>.
\<close>

theorem live_map_invariant:
  fixes ud :: "'a::len word Ud" and st st' :: "'a word UdState"
  shows "(Ud_Init cs mt E n = Inr ud \<longrightarrow>
            defs (regState ud) = [\<lparr>startAddr = 0, endAddr = - 1\<rparr>]
          \<and> defs (memState ud) = [\<lparr>startAddr = 0, endAddr = - 1\<rparr>]
          \<and> addressSpace (regState ud) = [(- 1, \<lparr>ev_startAddr = 0, defIndex = 0\<rparr>)]
          \<and> addressSpace (memState ud) = [(- 1, \<lparr>ev_startAddr = 0, defIndex = 0\<rparr>)]
          \<and> live_map (addressSpace (regState ud)) \<and> intervals_cover (- 1) (addressSpace (regState ud))
          \<and> live_map (addressSpace (memState ud)) \<and> intervals_cover (- 1) (addressSpace (memState ud)))
       \<and> (AddUses a k st = Inr st' \<longrightarrow> addressSpace st' = addressSpace st)
       \<and> (live_map (addressSpace st) \<and> intervals_cover (- 1) (addressSpace st) \<and> a < a + k \<longrightarrow>
            live_map (addressSpace (snd (AddDefs a k st)))
          \<and> intervals_cover (- 1) (addressSpace (snd (AddDefs a k st))))"
proof (intro conjI impI)
  assume i: "Ud_Init cs mt E n = Inr ud"
  note f = Ud_Init_Inr [OF i]
  show "defs (regState ud) = [\<lparr>startAddr = 0, endAddr = - 1\<rparr>]"
    "defs (memState ud) = [\<lparr>startAddr = 0, endAddr = - 1\<rparr>]"
    "addressSpace (regState ud) = [(- 1, \<lparr>ev_startAddr = 0, defIndex = 0\<rparr>)]"
    "addressSpace (memState ud) = [(- 1, \<lparr>ev_startAddr = 0, defIndex = 0\<rparr>)]"
    by (rule f)+
  show "live_map (addressSpace (regState ud))" "live_map (addressSpace (memState ud))"
    unfolding f using seed_state_live_map [where 'a = 'a] by (simp_all add: seed_state_def)
  show "intervals_cover (- 1) (addressSpace (regState ud))" "intervals_cover (- 1) (addressSpace (memState ud))"
    unfolding f using seed_state_cover [where 'a = 'a] by (simp_all add: seed_state_def)
next
  assume "AddUses a k st = Inr st'"
  then show "addressSpace st' = addressSpace st" by (rule AddUses_addressSpace)
next
  assume h: "live_map (addressSpace st) \<and> intervals_cover (- 1) (addressSpace st) \<and> a < a + k"
  then show "live_map (addressSpace (snd (AddDefs a k st)))"
    using AddDefs_preserves_live_map(1) by blast
  from h show "intervals_cover (- 1) (addressSpace (snd (AddDefs a k st)))"
    using AddDefs_preserves_live_map(2) by blast
qed

lemma floor_sqrt_5 [simp]: "floor_sqrt 5 = 2"
  by (simp add: floor_sqrt_def sqrt_up.simps)

lemma GetFirstPrime_4: "GetFirstPrimeGreaterThanOrEqualTo 4 = Some 5"
  by (simp add: GetFirstPrimeGreaterThanOrEqualTo_def GetFirstPrimeGreaterThanOrEqualTo_cached_def
      GetFirstPrime_loop_ret)

lemma replicate_numeral: "replicate (numeral k) x = x # replicate (pred_numeral k) x"
  by (simp add: numeral_eq_Suc)

lemma PartialUses_set_first:
  "PartialUses_set 0 \<lparr>startAddr = 0x1000, endAddr = 0x1004\<rparr>
     (\<lparr>entries = [empty_slot], load = 0, maxLoad = 0\<rparr> :: 32 word PartialUses) =
   Inr \<lparr>entries = [\<lparr>first = 0, second = \<lparr>startAddr = 0x1000, endAddr = 0x1004\<rparr>\<rparr>,
                    empty_slot, empty_slot, empty_slot, empty_slot],
        load = 1, maxLoad = 2\<rparr>"
  by (simp add: PartialUses_set_def PartialUses_index_def FindPartialUse_def empty_slot_def kNoUse_def
      PartialUses_reserve_def GetFirstPrime_4 resize_def zero_PartialUse_def replicate_numeral Let_def)

lemma AddUses_seed_1000:
  "AddUses 0x1000 4 (seed_state :: 32 word UdState) =
     Inr (seed_state\<lparr>uses := [0],
            partialUses := \<lparr>entries = [\<lparr>first = 0, second = \<lparr>startAddr = 0x1000, endAddr = 0x1004\<rparr>\<rparr>,
                    empty_slot, empty_slot, empty_slot, empty_slot],
                  load = 1, maxLoad = 2\<rparr>\<rparr>)"
  by (simp add: AddUses_def affected_entries_def lower_bound_def AddUses_step_def seed_state_def
      Let_def PartialUses_set_first)

theorem live_map_invariant_witness:
  "(Ud_Init any_capstone EM_386 Little 0 :: error + 32 word Ud) =
     Inr \<lparr>machineType = EM_386, endianness = Little, disasmEngine = Some (CS_ARCH_X86, [CS_MODE_32]),
          code = [\<lparr>pc = 0, textIndex = 0, textSize = 0\<rparr>], textBytes = [], disasm = [''<unknown>''],
          trace = [seed_trace], regState = seed_state, memState = seed_state\<rparr>
   \<and> defs (seed_state :: 32 word UdState) = [\<lparr>startAddr = 0, endAddr = - 1\<rparr>]
   \<and> addressSpace (seed_state :: 32 word UdState) = [(- 1, \<lparr>ev_startAddr = 0, defIndex = 0\<rparr>)]
   \<and> live_map (addressSpace (seed_state :: 32 word UdState))
   \<and> intervals_cover (- 1) (addressSpace (seed_state :: 32 word UdState))
   \<and> AddUses 0x1000 4 (seed_state :: 32 word UdState) =
       Inr (seed_state\<lparr>uses := [0],
            partialUses := \<lparr>entries = [\<lparr>first = 0, second = \<lparr>startAddr = 0x1000, endAddr = 0x1004\<rparr>\<rparr>,
                    empty_slot, empty_slot, empty_slot, empty_slot],
                  load = 1, maxLoad = 2\<rparr>\<rparr>)
   \<and> (0x1000 :: 32 word) < 0x1000 + 4
   \<and> live_map (addressSpace (snd (AddDefs 0x1000 4 (seed_state :: 32 word UdState))))
   \<and> intervals_cover (- 1) (addressSpace (snd (AddDefs 0x1000 4 (seed_state :: 32 word UdState))))"
proof -
  let ?ud = "\<lparr>machineType = EM_386, endianness = Little, disasmEngine = Some (CS_ARCH_X86, [CS_MODE_32]),
          code = [\<lparr>pc = 0, textIndex = 0, textSize = 0\<rparr>], textBytes = [], disasm = [''<unknown>''],
          trace = [seed_trace], regState = seed_state, memState = seed_state\<rparr> :: 32 word Ud"
  let ?st' = "seed_state\<lparr>uses := [0],
            partialUses := \<lparr>entries = [\<lparr>first = 0, second = \<lparr>startAddr = 0x1000, endAddr = 0x1004\<rparr>\<rparr>,
                    empty_slot, empty_slot, empty_slot, empty_slot],
                  load = 1, maxLoad = 2\<rparr>\<rparr> :: 32 word UdState"
  have d: "(0x1000 :: 32 word) < 0x1000 + 4" by simp
  have i: "Ud_Init any_capstone EM_386 Little 0 = Inr ?ud" by (rule Ud_Init_386)
  have u: "AddUses 0x1000 4 (seed_state :: 32 word UdState) = Inr ?st'" by (rule AddUses_seed_1000)
  note T = live_map_invariant [where cs = any_capstone and mt = EM_386 and E = Little and n = 0
      and ud = ?ud and a = "0x1000" and k = 4 and st = seed_state and st' = ?st']
  note A = T [THEN conjunct1, rule_format, OF i, unfolded Ud.select_convs]
  from A have s: "defs (seed_state :: 32 word UdState) = [\<lparr>startAddr = 0, endAddr = - 1\<rparr>]"
    "addressSpace (seed_state :: 32 word UdState) = [(- 1, \<lparr>ev_startAddr = 0, defIndex = 0\<rparr>)]"
    and l: "live_map (addressSpace (seed_state :: 32 word UdState))"
    "intervals_cover (- 1) (addressSpace (seed_state :: 32 word UdState))"
    by blast+
  from T l d have "live_map (addressSpace (snd (AddDefs 0x1000 4 (seed_state :: 32 word UdState))))
      \<and> intervals_cover (- 1) (addressSpace (snd (AddDefs 0x1000 4 (seed_state :: 32 word UdState))))"
    by blast
  with i u d s l show ?thesis by blast
qed

theorem live_map_invariant_counterexample:
  "(Ud_Init any_capstone EM_386 Little 0 :: error + 32 word Ud) =
     Inr \<lparr>machineType = EM_386, endianness = Little, disasmEngine = Some (CS_ARCH_X86, [CS_MODE_32]),
          code = [\<lparr>pc = 0, textIndex = 0, textSize = 0\<rparr>], textBytes = [], disasm = [''<unknown>''],
          trace = [seed_trace], regState = seed_state, memState = seed_state\<rparr>
   \<and> defs (seed_state :: 32 word UdState) = [\<lparr>startAddr = 0, endAddr = 0xFFFFFFFF\<rparr>]
   \<and> addressSpace (seed_state :: 32 word UdState) = [(0xFFFFFFFF, \<lparr>ev_startAddr = 0, defIndex = 0\<rparr>)]
   \<and> (0xFFFFFFFF :: 32 word) \<notin> interval_of (0xFFFFFFFF, \<lparr>ev_startAddr = 0, defIndex = 0\<rparr>)
   \<and> addressSpace (snd (AddDefs 4 0 (seed_state :: 32 word UdState))) =
       [(4, \<lparr>ev_startAddr = 4, defIndex = 1\<rparr>), (0xFFFFFFFF, \<lparr>ev_startAddr = 4, defIndex = 0\<rparr>)]
   \<and> \<not> intervals_nonempty (addressSpace (snd (AddDefs 4 0 (seed_state :: 32 word UdState))))
   \<and> \<not> intervals_cover 0xFFFFFFFF (addressSpace (snd (AddDefs 4 0 (seed_state :: 32 word UdState))))"
proof -
  have "\<not> intervals_cover 0xFFFFFFFF ([(4, \<lparr>ev_startAddr = 4, defIndex = 1\<rparr>),
           (0xFFFFFFFF, \<lparr>ev_startAddr = 4, defIndex = 0\<rparr>)] :: 32 word AddressSpace)"
    unfolding intervals_cover_def
    by (auto simp: interval_of_def intro!: exI [of _ "0 :: 32 word"])
  moreover have "\<not> intervals_nonempty ([(4, \<lparr>ev_startAddr = 4, defIndex = 1\<rparr>),
           (0xFFFFFFFF, \<lparr>ev_startAddr = 4, defIndex = 0\<rparr>)] :: 32 word AddressSpace)"
    by (simp add: intervals_nonempty_def)
  moreover have "addressSpace (snd (AddDefs 4 0 (seed_state :: 32 word UdState))) =
       [(4, \<lparr>ev_startAddr = 4, defIndex = 1\<rparr>), (0xFFFFFFFF, \<lparr>ev_startAddr = 4, defIndex = 0\<rparr>)]"
    by (simp add: AddDefs_seed_4_0)
  moreover have "defs (seed_state :: 32 word UdState) = [\<lparr>startAddr = 0, endAddr = 0xFFFFFFFF\<rparr>]"
    "addressSpace (seed_state :: 32 word UdState) = [(0xFFFFFFFF, \<lparr>ev_startAddr = 0, defIndex = 0\<rparr>)]"
    by (simp_all add: seed_state_def)
  moreover have "(0xFFFFFFFF :: 32 word) \<notin> interval_of (0xFFFFFFFF, \<lparr>ev_startAddr = 0, defIndex = 0\<rparr>)"
    by (simp add: interval_of_def)
  ultimately show ?thesis
    using Ud_Init_386 by simp
qed

section \<open>Opening trace entries\<close>




lemma le_value_simps:
  "le_value [a, b] = unat a + 256 * unat b"
  "le_value [a, b, c, d] = unat a + 256 * (unat b + 256 * (unat c + 256 * unat d))"
  by simp_all

lemma seed_ud_Init: "Ud_Init any_capstone EM_386 Little 0 = Inr seed_ud"
  by (simp add: seed_ud_def Ud_Init_386)




section \<open>Resolving a use to its def and its trace entry\<close>

lemma upper_bound_loop_0 [simp]: "upper_bound_loop cmp val xs f 0 = f"
  by (simp add: upper_bound_loop.simps)

lemma upper_bound_loop_partition:
  assumes "f + n \<le> length xs"
    and "\<forall>i j. i \<le> j \<longrightarrow> j < length xs \<longrightarrow> cmp val (xs ! i) \<longrightarrow> cmp val (xs ! j)"
  shows "f \<le> upper_bound_loop cmp val xs f n \<and> upper_bound_loop cmp val xs f n \<le> f + n
    \<and> (\<forall>i. f \<le> i \<and> i < upper_bound_loop cmp val xs f n \<longrightarrow> \<not> cmp val (xs ! i))
    \<and> (\<forall>i. upper_bound_loop cmp val xs f n \<le> i \<and> i < f + n \<longrightarrow> cmp val (xs ! i))"
  using assms
proof (induction cmp val xs f n rule: upper_bound_loop.induct)
  case (1 cmp val xs f n)
  show ?case
  proof (cases "n > 0")
    case False
    then show ?thesis by auto
  next
    case True
    let ?half = "n div 2"
    let ?mid = "f + ?half"
    have midlt: "?mid < length xs" using True "1.prems"(1) by simp
    show ?thesis
    proof (cases "cmp val (xs ! ?mid)")
      case c: True
      have eq: "upper_bound_loop cmp val xs f n = upper_bound_loop cmp val xs f ?half"
        using True c by (simp add: upper_bound_loop.simps [of cmp val xs f n] Let_def)
      have "f + ?half \<le> length xs" using "1.prems"(1) by simp
      from "1.IH"(1) [OF True refl refl c this "1.prems"(2)]
      have ih: "f \<le> upper_bound_loop cmp val xs f ?half" "upper_bound_loop cmp val xs f ?half \<le> f + ?half"
        "\<forall>i. f \<le> i \<and> i < upper_bound_loop cmp val xs f ?half \<longrightarrow> \<not> cmp val (xs ! i)"
        "\<forall>i. upper_bound_loop cmp val xs f ?half \<le> i \<and> i < f + ?half \<longrightarrow> cmp val (xs ! i)"
        by blast+
      have "cmp val (xs ! i)" if "upper_bound_loop cmp val xs f ?half \<le> i" "i < f + n" for i
      proof (cases "i < f + ?half")
        case True
        with ih(4) that show ?thesis by blast
      next
        case False
        then have "?mid \<le> i" by simp
        moreover have "i < length xs" using that(2) "1.prems"(1) by simp
        ultimately show ?thesis using "1.prems"(2) c by blast
      qed
      with ih show ?thesis unfolding eq by auto
    next
      case c: False
      have eq: "upper_bound_loop cmp val xs f n = upper_bound_loop cmp val xs (?mid + 1) (n - ?half - 1)"
        using True c by (simp add: upper_bound_loop.simps [of cmp val xs f n] Let_def)
      have "?mid + 1 + (n - ?half - 1) \<le> length xs" using "1.prems"(1) True by simp
      from "1.IH"(2) [OF True refl refl c this "1.prems"(2)]
      have ih: "?mid + 1 \<le> upper_bound_loop cmp val xs (?mid + 1) (n - ?half - 1)"
        "upper_bound_loop cmp val xs (?mid + 1) (n - ?half - 1) \<le> ?mid + 1 + (n - ?half - 1)"
        "\<forall>i. ?mid + 1 \<le> i \<and> i < upper_bound_loop cmp val xs (?mid + 1) (n - ?half - 1) \<longrightarrow> \<not> cmp val (xs ! i)"
        "\<forall>i. upper_bound_loop cmp val xs (?mid + 1) (n - ?half - 1) \<le> i \<and> i < ?mid + 1 + (n - ?half - 1) \<longrightarrow> cmp val (xs ! i)"
        by blast+
      have e: "?mid + 1 + (n - ?half - 1) = f + n" using True by simp
      have "\<not> cmp val (xs ! i)" if "f \<le> i" "i < upper_bound_loop cmp val xs (?mid + 1) (n - ?half - 1)" for i
      proof (cases "?mid + 1 \<le> i")
        case True
        with ih(3) that show ?thesis by blast
      next
        case False
        then have "i \<le> ?mid" by simp
        with "1.prems"(2) midlt c show ?thesis by blast
      qed
      with ih e show ?thesis unfolding eq by auto
    qed
  qed
qed

lemma upper_bound_sorted:
  fixes key :: "'e \<Rightarrow> 'k::linorder"
  assumes "sorted (map key xs)"
  shows "upper_bound (\<lambda>d t. d < key t) val xs \<le> length xs
    \<and> (\<forall>i < upper_bound (\<lambda>d t. d < key t) val xs. key (xs ! i) \<le> val)
    \<and> (\<forall>i. upper_bound (\<lambda>d t. d < key t) val xs \<le> i \<and> i < length xs \<longrightarrow> val < key (xs ! i))"
proof -
  have mono: "val < key (xs ! j)" if "i \<le> j" "j < length xs" "val < key (xs ! i)" for i j
  proof -
    have "key (xs ! i) \<le> key (xs ! j)"
      using assms that(1,2) by (auto simp: sorted_iff_nth_mono dest!: spec [of _ i] spec [of _ j])
    with that(3) show ?thesis by simp
  qed
  then have "\<forall>i j. i \<le> j \<longrightarrow> j < length xs \<longrightarrow> val < key (xs ! i) \<longrightarrow> val < key (xs ! j)"
    by blast
  from upper_bound_loop_partition [of 0 "length xs" xs "\<lambda>d t. d < key t" val, OF _ this]
  show ?thesis unfolding upper_bound_def by (auto simp: not_less)
qed

lemma ScanPartialUses_Some:
  "ScanPartialUses xs u = Some i \<Longrightarrow>
     i < length xs \<and> (first (xs ! i) = u \<or> first (xs ! i) = kNoUse)
     \<and> (\<forall>j < i. first (xs ! j) \<noteq> u \<and> first (xs ! j) \<noteq> kNoUse)"
proof (induction xs arbitrary: i)
  case Nil
  then show ?case by simp
next
  case (Cons x xs)
  show ?case
  proof (cases "first x = u \<or> first x = kNoUse")
    case True
    with Cons.prems show ?thesis by auto
  next
    case False
    with Cons.prems obtain i' where i': "ScanPartialUses xs u = Some i'" "i = Suc i'" by auto
    from Cons.IH [OF i'(1)] False i'(2) show ?thesis
      by (auto simp: nth_Cons split: nat.splits)
  qed
qed

lemma ScanPartialUses_None:
  "ScanPartialUses xs u = None \<longleftrightarrow> (\<forall>x \<in> set xs. first x \<noteq> u \<and> first x \<noteq> kNoUse)"
  by (induction xs) auto

lemma FindPartialUse_found:
  assumes "FindPartialUse t u = Inr i"
  shows "i < length t \<and> (first (t ! i) = u \<or> first (t ! i) = kNoUse)"
proof -
  let ?h = "unat u mod length t"
  from assms have ne: "length t \<noteq> 0" by (auto simp: FindPartialUse_def Let_def split: if_splits)
  then have h: "?h < length t" by simp
  show ?thesis
  proof (cases "ScanPartialUses (drop ?h t) u")
    case (Some j)
    with assms ne have i: "i = ?h + j" by (simp add: FindPartialUse_def Let_def)
    from ScanPartialUses_Some [OF Some] show ?thesis
      unfolding i using h by (auto simp: add.commute)
  next
    case None
    with assms ne obtain j where j: "ScanPartialUses (take ?h t) u = Some j" "i = j"
      by (auto simp: FindPartialUse_def Let_def split: option.splits)
    from ScanPartialUses_Some [OF j(1)] show ?thesis
      unfolding j(2) using h by auto
  qed
qed

text \<open>
  \<^verbatim>\<open>ResolveUse\<close> in terms of what the lookup \<^verbatim>\<open>PartialUses::find\<close> answers and of the sorted
  trace table.
\<close>

lemma ResolveUse_found:
  fixes st :: "'w UdState" and startDefIndex :: "InsnInTrace \<Rightarrow> u32"
  assumes valid: "unat useIndex < length (uses st)" "useIndex \<noteq> kNoUse"
    and found: "PartialUses_find (partialUses st) useIndex = Inr found"
    and def_ok: "unat (uses st ! unat useIndex) < length (defs st)"
    and sorted': "sorted (map startDefIndex trace')"
    and len: "length trace' \<le> 2 ^ 32"
    and seed: "trace' \<noteq> []" "startDefIndex (trace' ! 0) \<le> uses st ! unat useIndex"
  shows "\<exists>t. UdState_ResolveUse st useIndex trace' startDefIndex =
            Inr (case found of Some partialUse \<Rightarrow> second partialUse
                 | None \<Rightarrow> defs st ! unat (uses st ! unat useIndex), t)
          \<and> unat t < length trace'
          \<and> startDefIndex (trace' ! unat t) \<le> uses st ! unat useIndex
          \<and> (\<forall>j < length trace'. startDefIndex (trace' ! j) \<le> uses st ! unat useIndex \<longrightarrow> j \<le> unat t)"
proof -
  let ?d = "uses st ! unat useIndex"
  let ?it = "upper_bound (\<lambda>d t. d < startDefIndex t) ?d trace'"
  from upper_bound_sorted [OF sorted', of ?d]
  have ub: "?it \<le> length trace'" "\<forall>i < ?it. startDefIndex (trace' ! i) \<le> ?d"
    "\<forall>i. ?it \<le> i \<and> i < length trace' \<longrightarrow> ?d < startDefIndex (trace' ! i)"
    by blast+
  have pos: "0 < ?it"
  proof (rule ccontr)
    assume "\<not> 0 < ?it"
    then have "?it = 0" by simp
    with ub(3) seed(1) have "?d < startDefIndex (trace' ! 0)" by simp
    with seed(2) show False by simp
  qed
  let ?t = "word_of_nat (?it - 1) :: u32"
  have "?it - 1 < 2 ^ 32" using ub(1) len pos by simp
  then have ut: "unat ?t = ?it - 1" by (simp add: unat_of_nat)
  from found obtain i where i: "FindPartialUse (entries (partialUses st)) useIndex = Inr i"
    "found = (if first (entries (partialUses st) ! i) = useIndex then Some (entries (partialUses st) ! i) else None)"
    by (auto simp: PartialUses_find_def Let_def split: sum.splits)
  from FindPartialUse_found [OF i(1)]
  have fi: "first (entries (partialUses st) ! i) = useIndex \<or> first (entries (partialUses st) ! i) = kNoUse"
    by simp
  have r: "UdState_ResolveUse st useIndex trace' startDefIndex =
            Inr (case found of Some partialUse \<Rightarrow> second partialUse | None \<Rightarrow> defs st ! unat ?d, ?t)"
    using valid def_ok pos i fi
    by (auto simp: UdState_ResolveUse_def ResolveUse_def Let_def)
  have a: "unat ?t < length trace'" using ut ub(1) pos by simp
  have b: "startDefIndex (trace' ! unat ?t) \<le> ?d" using ut ub(2) pos by simp
  have c: "j \<le> unat ?t" if "j < length trace'" "startDefIndex (trace' ! j) \<le> ?d" for j
  proof (rule ccontr)
    assume "\<not> j \<le> unat ?t"
    then have "?it \<le> j" using ut by simp
    with ub(3) that show False by auto
  qed
  from r a b c show ?thesis by blast
qed

section \<open>The partial-use table\<close>

lemma probe_dist_ge: "h \<le> x \<Longrightarrow> x < n \<Longrightarrow> probe_dist n h x = x - h"
proof -
  assume a: "h \<le> x" "x < n"
  then have "x + n - h = (x - h) + n" by simp
  then have "probe_dist n h x = (x - h) mod n" by (simp add: probe_dist_def)
  with a show ?thesis by simp
qed

lemma probe_dist_lt: "x < h \<Longrightarrow> h < n \<Longrightarrow> probe_dist n h x = x + n - h"
  by (simp add: probe_dist_def)

lemma probe_dist_inj:
  assumes "h < n" "x < n" "y < n" "probe_dist n h x = probe_dist n h y"
  shows "x = y"
proof (cases "h \<le> x"; cases "h \<le> y")
  assume "h \<le> x" "h \<le> y"
  with assms show ?thesis by (simp add: probe_dist_ge)
next
  assume a: "h \<le> x" "\<not> h \<le> y"
  with assms show ?thesis by (simp add: probe_dist_ge probe_dist_lt)
next
  assume a: "\<not> h \<le> x" "h \<le> y"
  with assms show ?thesis by (simp add: probe_dist_ge probe_dist_lt)
next
  assume a: "\<not> h \<le> x" "\<not> h \<le> y"
  with assms show ?thesis by (simp add: probe_dist_lt)
qed

lemma ScanPartialUses_stop:
  "ScanPartialUses xs k = Some i \<longleftrightarrow>
     i < length xs \<and> stop_at k (xs ! i) \<and> (\<forall>j < i. \<not> stop_at k (xs ! j))"
proof (induction xs arbitrary: i)
  case Nil
  then show ?case by simp
next
  case (Cons x xs)
  show ?case
  proof (cases "stop_at k x")
    case True
    then have "ScanPartialUses (x # xs) k = Some 0" by (simp add: stop_at_def)
    moreover have "(i < length (x # xs) \<and> stop_at k ((x # xs) ! i) \<and> (\<forall>j < i. \<not> stop_at k ((x # xs) ! j))) \<longleftrightarrow> i = 0"
      using True by (cases i) auto
    ultimately show ?thesis by auto
  next
    case False
    then have e: "ScanPartialUses (x # xs) k = map_option Suc (ScanPartialUses xs k)"
      by (simp add: stop_at_def)
    show ?thesis
    proof (cases i)
      case 0
      with False e show ?thesis by auto
    next
      case (Suc i')
      have "(\<forall>j < Suc i'. \<not> stop_at k ((x # xs) ! j)) \<longleftrightarrow> (\<forall>j < i'. \<not> stop_at k (xs ! j))"
        using False by (auto simp: less_Suc_eq_0_disj)
      with Cons.IH [of i'] e Suc show ?thesis by auto
    qed
  qed
qed

lemma ScanPartialUses_None_stop:
  "ScanPartialUses xs k = None \<longleftrightarrow> (\<forall>j < length xs. \<not> stop_at k (xs ! j))"
proof (induction xs)
  case Nil
  then show ?case by simp
next
  case (Cons x xs)
  have "(\<forall>j < length (x # xs). \<not> stop_at k ((x # xs) ! j)) \<longleftrightarrow> \<not> stop_at k x \<and> (\<forall>j < length xs. \<not> stop_at k (xs ! j))"
    by (auto simp: less_Suc_eq_0_disj)
  with Cons show ?case by (auto simp: stop_at_def)
qed

lemma probe_dist_add: "h + j < n \<Longrightarrow> probe_dist n h (h + j) = j"
  using probe_dist_ge [of h "h + j" n] by simp

lemma FindPartialUse_Inr_iff:
  fixes t :: "'w PartialUse list" and k :: u32
  assumes ne: "t \<noteq> []"
  defines "n \<equiv> length t" and "h \<equiv> unat k mod length t"
  shows "FindPartialUse t k = Inr i \<longleftrightarrow>
     i < n \<and> stop_at k (t ! i) \<and> (\<forall>j < n. probe_dist n h j < probe_dist n h i \<longrightarrow> \<not> stop_at k (t ! j))"
proof -
  have n0: "0 < n" and hn: "h < n" using ne by (simp_all add: n_def h_def)
  have F: "FindPartialUse t k =
        (case ScanPartialUses (drop h t) k of
           Some i \<Rightarrow> Inr (h + i)
         | None \<Rightarrow> (case ScanPartialUses (take h t) k of Some i \<Rightarrow> Inr i | None \<Rightarrow> Inl AssertionFailed))"
    using ne unfolding h_def by (simp add: FindPartialUse_def Let_def)
  show ?thesis
  proof
    assume r: "FindPartialUse t k = Inr i"
    show "i < n \<and> stop_at k (t ! i) \<and> (\<forall>j < n. probe_dist n h j < probe_dist n h i \<longrightarrow> \<not> stop_at k (t ! j))"
    proof (cases "ScanPartialUses (drop h t) k")
      case (Some i')
      with r F have i: "i = h + i'" by simp
      from Some have s: "i' < n - h" "stop_at k (t ! (h + i'))" "\<forall>j < i'. \<not> stop_at k (t ! (h + j))"
        using hn by (auto simp: ScanPartialUses_stop n_def)
      have d: "probe_dist n h i = i'" using s(1) i by (simp add: probe_dist_add)
      have "\<not> stop_at k (t ! j)" if "j < n" "probe_dist n h j < probe_dist n h i" for j
      proof (cases "h \<le> j")
        case True
        with that d have "j - h < i'" by (simp add: probe_dist_ge)
        with s(3) True show ?thesis by (metis le_add_diff_inverse)
      next
        case False
        with that d hn s(1) show ?thesis by (simp add: probe_dist_lt)
      qed
      with s i show ?thesis by auto
    next
      case None
      with r F have s2: "ScanPartialUses (take h t) k = Some i" by (auto split: option.splits)
      then have s: "i < h" "stop_at k (t ! i)" "\<forall>j < i. \<not> stop_at k (t ! j)"
        using hn by (auto simp: ScanPartialUses_stop n_def)
      from None have s1: "\<forall>j < n - h. \<not> stop_at k (t ! (h + j))"
        using hn by (auto simp: ScanPartialUses_None_stop n_def)
      have d: "probe_dist n h i = i + n - h" using s(1) hn by (simp add: probe_dist_lt)
      have "\<not> stop_at k (t ! j)" if "j < n" "probe_dist n h j < probe_dist n h i" for j
      proof (cases "h \<le> j")
        case True
        then have "j - h < n - h" using that(1) by simp
        with s1 True show ?thesis by (metis le_add_diff_inverse)
      next
        case False
        with that d hn have "j < i" by (simp add: probe_dist_lt)
        with s(3) show ?thesis by simp
      qed
      with s hn show ?thesis by auto
    qed
  next
    assume a: "i < n \<and> stop_at k (t ! i) \<and> (\<forall>j < n. probe_dist n h j < probe_dist n h i \<longrightarrow> \<not> stop_at k (t ! j))"
    then have a1: "i < n" and a2: "stop_at k (t ! i)" by simp_all
    show "FindPartialUse t k = Inr i"
    proof (cases "h \<le> i")
      case True
      have "\<not> stop_at k (t ! (h + j))" if "j < i - h" for j
      proof -
        have hj: "h + j < n" using that a1 by simp
        have "probe_dist n h (h + j) < probe_dist n h i"
          using that True a1 by (simp add: probe_dist_add [OF hj] probe_dist_ge)
        with hj show ?thesis using a by blast
      qed
      then have "ScanPartialUses (drop h t) k = Some (i - h)"
        using a1 a2 True hn by (auto simp: ScanPartialUses_stop n_def)
      with F True show ?thesis by simp
    next
      case False
      then have ih: "i < h" by simp
      have "\<not> stop_at k (t ! (h + j))" if "j < n - h" for j
      proof -
        have hj: "h + j < n" using that by simp
        have "probe_dist n h (h + j) < probe_dist n h i"
          using that ih hn by (simp add: probe_dist_add [OF hj] probe_dist_lt)
        with hj show ?thesis using a by blast
      qed
      then have s1: "ScanPartialUses (drop h t) k = None"
        using hn by (auto simp: ScanPartialUses_None_stop n_def)
      have "\<not> stop_at k (t ! j)" if "j < i" for j
      proof -
        have "probe_dist n h j < probe_dist n h i"
          using that ih hn by (simp add: probe_dist_lt)
        moreover have "j < n" using that a1 by simp
        ultimately show ?thesis using a by blast
      qed
      then have "ScanPartialUses (take h t) k = Some i"
        using a1 a2 ih hn by (auto simp: ScanPartialUses_stop n_def)
      with F s1 show ?thesis by simp
    qed
  qed
qed

lemma FindPartialUse_total:
  fixes t :: "'w PartialUse list"
  assumes "j < length t" "stop_at k (t ! j)"
  shows "\<exists>i. FindPartialUse t k = Inr i"
proof -
  have ne: "t \<noteq> []" using assms(1) by auto
  let ?n = "length t" and ?h = "unat k mod length t"
  let ?S = "{x. x < ?n \<and> stop_at k (t ! x)}"
  have fin: "finite ?S" by simp
  have nonempty: "?S \<noteq> {}" using assms by auto
  obtain i where i: "i \<in> ?S" "\<forall>x \<in> ?S. probe_dist ?n ?h i \<le> probe_dist ?n ?h x"
    using ex_min_if_finite [OF fin nonempty]
    by (metis (no_types, lifting) arg_min_if_finite(1) arg_min_least fin nonempty)
  then have "i < ?n \<and> stop_at k (t ! i) \<and> (\<forall>j < ?n. probe_dist ?n ?h j < probe_dist ?n ?h i \<longrightarrow> \<not> stop_at k (t ! j))"
    by (auto simp: not_le [symmetric])
  then show ?thesis using FindPartialUse_Inr_iff [OF ne, of k i] by blast
qed

lemma ScanPartialUses_keys:
  "map first xs = map first ys \<Longrightarrow> ScanPartialUses xs k = ScanPartialUses ys k"
proof (induction xs arbitrary: ys)
  case Nil
  then show ?case by simp
next
  case (Cons x xs)
  then obtain y ys' where ys: "ys = y # ys'" "first x = first y" "map first xs = map first ys'"
    by (cases ys) auto
  with Cons.IH [OF ys(3)] show ?case by simp
qed

lemma FindPartialUse_keys:
  assumes "map first t = map first t'"
  shows "FindPartialUse t k = FindPartialUse t' k"
proof -
  have l: "length t = length t'" using assms by (metis length_map)
  have "map first (drop h t) = map first (drop h t')" "map first (take h t) = map first (take h t')" for h
    using assms by (simp_all add: drop_map [symmetric] take_map [symmetric])
  then have "ScanPartialUses (drop h t) k = ScanPartialUses (drop h t') k"
    "ScanPartialUses (take h t) k = ScanPartialUses (take h t') k" for h
    by (auto intro: ScanPartialUses_keys)
  then show ?thesis unfolding FindPartialUse_def l Let_def by (simp cong: option.case_cong)
qed

lemma FindPartialUse_bound: "FindPartialUse t k = Inr i \<Longrightarrow> i < length t \<and> stop_at k (t ! i)"
proof -
  assume a: "FindPartialUse t k = Inr i"
  then have "t \<noteq> []" by (auto simp: FindPartialUse_def)
  from FindPartialUse_Inr_iff [OF this, of k i] a show ?thesis by simp
qed

text \<open>Taking a free slot for a new key keeps every key findable.\<close>

lemma insert_free_slot:
  fixes t :: "'w PartialUse list"
  assumes k: "k \<noteq> kNoUse" and f: "FindPartialUse t k = Inr i" and free: "first (t ! i) = kNoUse"
    and x: "first x = k"
  shows "FindPartialUse (t[i := x]) k = Inr i"
    and "\<And>j. j < length t \<Longrightarrow> first (t ! j) \<noteq> kNoUse \<Longrightarrow> FindPartialUse t (first (t ! j)) = Inr j
          \<Longrightarrow> FindPartialUse (t[i := x]) (first (t ! j)) = Inr j"
proof -
  have ne: "t \<noteq> []" using f by (auto simp: FindPartialUse_def)
  then have ne': "t[i := x] \<noteq> []" by simp
  let ?n = "length t"
  from FindPartialUse_Inr_iff [OF ne, of k i] f
  have fi: "i < ?n" "\<forall>j < ?n. probe_dist ?n (unat k mod ?n) j < probe_dist ?n (unat k mod ?n) i \<longrightarrow> \<not> stop_at k (t ! j)"
    by simp_all
  have "\<not> stop_at k (t[i := x] ! j)" if "j < ?n" "probe_dist ?n (unat k mod ?n) j < probe_dist ?n (unat k mod ?n) i" for j
  proof -
    have "j \<noteq> i" using that(2) by auto
    with fi(2) that show ?thesis by simp
  qed
  then show "FindPartialUse (t[i := x]) k = Inr i"
    using FindPartialUse_Inr_iff [OF ne', of k i] fi(1) x by (simp add: stop_at_def)
next
  fix j assume j: "j < length t" "first (t ! j) \<noteq> kNoUse" "FindPartialUse t (first (t ! j)) = Inr j"
  have ne: "t \<noteq> []" using f by (auto simp: FindPartialUse_def)
  then have ne': "t[i := x] \<noteq> []" by simp
  let ?n = "length t" and ?k = "first (t ! j)"
  from FindPartialUse_Inr_iff [OF ne, of ?k j] j(3)
  have fj: "\<forall>y < ?n. probe_dist ?n (unat ?k mod ?n) y < probe_dist ?n (unat ?k mod ?n) j \<longrightarrow> \<not> stop_at ?k (t ! y)"
    by simp
  have il: "i < ?n" using FindPartialUse_bound [OF f] by simp
  have ji: "j \<noteq> i" using j(2) free by auto
  have "\<not> stop_at ?k (t[i := x] ! y)" if "y < ?n" "probe_dist ?n (unat ?k mod ?n) y < probe_dist ?n (unat ?k mod ?n) j" for y
  proof -
    from fj that have ns: "\<not> stop_at ?k (t ! y)" by blast
    then have "y \<noteq> i" using free by (auto simp: stop_at_def)
    with ns show ?thesis by simp
  qed
  then show "FindPartialUse (t[i := x]) ?k = Inr j"
    using FindPartialUse_Inr_iff [OF ne', of ?k j] j(1) ji by (simp add: stop_at_def)
qed

lemma insert_free_slot_found:
  fixes t :: "'w PartialUse list"
  assumes k: "k \<noteq> kNoUse" and f: "FindPartialUse t k = Inr i" and free: "first (t ! i) = kNoUse"
    and x: "first x = k" and sf: "slots_found t"
  shows "slots_found (t[i := x])"
  unfolding slots_found_def
proof (intro allI impI)
  fix j assume j: "j < length (t[i := x])" "first (t[i := x] ! j) \<noteq> kNoUse"
  show "FindPartialUse (t[i := x]) (first (t[i := x] ! j)) = Inr j"
  proof (cases "j = i")
    case True
    with j(1) x insert_free_slot(1) [OF k f free x] show ?thesis by simp
  next
    case False
    with j have "j < length t" "first (t ! j) \<noteq> kNoUse" by simp_all
    moreover from this sf have "FindPartialUse t (first (t ! j)) = Inr j" by (simp add: slots_found_def)
    ultimately show ?thesis using insert_free_slot(2) [OF k f free x, of j] False by simp
  qed
qed

text \<open>A findable table stores each key once.\<close>

lemma slots_found_unique:
  assumes "slots_found t" "i < length t" "j < length t" "first (t ! i) = first (t ! j)" "first (t ! i) \<noteq> kNoUse"
  shows "i = j"
  using assms unfolding slots_found_def by (metis Inr_inject)

lemma stored_functional:
  assumes "slots_found t" "(k, v) \<in> stored t" "(k, v') \<in> stored t"
  shows "v = v'"
proof -
  from assms(2) obtain i where i: "i < length t" "first (t ! i) = k" "second (t ! i) = v" "k \<noteq> kNoUse"
    by (auto simp: stored_def in_set_conv_nth)
  from assms(3) obtain j where j: "j < length t" "first (t ! j) = k" "second (t ! j) = v'"
    by (auto simp: stored_def in_set_conv_nth)
  from slots_found_unique [OF assms(1) i(1) j(1)] i j show ?thesis by simp
qed

text \<open>The lookup reads the stored pairs.\<close>

lemma find_stored:
  fixes pu :: "'w PartialUses"
  assumes sf: "slots_found (entries pu)" and hf: "has_free (entries pu)" and k: "k \<noteq> kNoUse"
  shows "\<exists>r. PartialUses_find pu k = Inr r
           \<and> (case r of None \<Rightarrow> \<forall>v. (k, v) \<notin> stored (entries pu)
               | Some p \<Rightarrow> first p = k \<and> (k, second p) \<in> stored (entries pu))"
proof -
  let ?t = "entries pu"
  from hf obtain f where f: "f < length ?t" "first (?t ! f) = kNoUse" by (auto simp: has_free_def)
  then have "stop_at k (?t ! f)" by (simp add: stop_at_def)
  from FindPartialUse_total [OF f(1) this] obtain i where i: "FindPartialUse ?t k = Inr i" by blast
  from FindPartialUse_bound [OF i] have b: "i < length ?t" "stop_at k (?t ! i)" by simp_all
  show ?thesis
  proof (cases "first (?t ! i) = k")
    case True
    have "(k, second (?t ! i)) \<in> stored ?t"
      using b(1) True k by (force simp: stored_def in_set_conv_nth)
    with i True show ?thesis by (simp add: PartialUses_find_def)
  next
    case False
    with b(2) have e: "first (?t ! i) = kNoUse" by (simp add: stop_at_def)
    have "(k, v) \<notin> stored ?t" for v
    proof
      assume "(k, v) \<in> stored ?t"
      then obtain j where j: "j < length ?t" "first (?t ! j) = k" by (auto simp: stored_def in_set_conv_nth)
      with sf k have "FindPartialUse ?t k = Inr j" by (auto simp: slots_found_def)
      with i j(2) False show False by simp
    qed
    with i False show ?thesis by (simp add: PartialUses_find_def)
  qed
qed

lemma GetFirstPrime_loop_ge:
  assumes "GetFirstPrime_loop v primes = Some r"
  shows "v \<le> fst r \<and> (odd v \<longrightarrow> odd (fst r))"
proof (rule GetFirstPrime_loop.raw_induct
    [where P = "\<lambda>v primes r. v \<le> fst r \<and> (odd v \<longrightarrow> odd (fst r))", OF _ assms])
  fix loop :: "nat \<Rightarrow> nat list \<Rightarrow> (nat \<times> nat list) option" and v primes r
  assume IH: "\<And>v primes r. loop v primes = Some r \<Longrightarrow> v \<le> fst r \<and> (odd v \<longrightarrow> odd (fst r))"
    and eq: "(if primes = [] then None
      else if last primes \<le> floor_sqrt v
           then Option.bind (loop (last primes + 1 OR 1) primes) (\<lambda>r. loop v (snd r @ [fst r]))
           else if list_ex (\<lambda>p. v mod p = 0) (takeWhile (\<lambda>p. p \<le> floor_sqrt v) primes)
                then loop (v + 2) primes
                else Some (v, primes)) = Some r"
  show "v \<le> fst r \<and> (odd v \<longrightarrow> odd (fst r))"
  proof (cases "primes = []")
    case True
    with eq show ?thesis by simp
  next
    case False
    note ne = this
    show ?thesis
    proof (cases "last primes \<le> floor_sqrt v")
      case True
      with eq ne obtain r' where r': "loop ((last primes + 1) OR 1) primes = Some r'"
        "loop v (snd r' @ [fst r']) = Some r"
        by (auto simp: bind_eq_Some_conv)
      from IH [OF r'(2)] show ?thesis .
    next
      case False
      note nf = this
      show ?thesis
      proof (cases "list_ex (\<lambda>p. v mod p = 0) (takeWhile (\<lambda>p. p \<le> floor_sqrt v) primes)")
        case True
        with eq ne nf have "loop (v + 2) primes = Some r" by simp
        from IH [OF this] show ?thesis by auto
      next
        case False
        with eq ne nf show ?thesis by auto
      qed
    qed
  qed
qed

lemma GetFirstPrime_ge:
  assumes "GetFirstPrimeGreaterThanOrEqualTo v = Some p"
  shows "v \<le> p \<and> odd p"
proof -
  from assms obtain r where r: "GetFirstPrime_loop (v OR 1) [3] = Some r" "fst r = p"
    by (auto simp: GetFirstPrimeGreaterThanOrEqualTo_def GetFirstPrimeGreaterThanOrEqualTo_cached_def)
  have "v \<le> v OR 1" "odd (v OR 1)" by (simp_all add: or_Suc_0_eq)
  then show ?thesis using GetFirstPrime_loop_ge [OF r(1)] r(2) by auto
qed

lemma occ_has_free:
  assumes "occ t < length t"
  shows "has_free t"
proof (rule ccontr)
  assume "\<not> has_free t"
  then have "\<forall>x \<in> set t. first x \<noteq> kNoUse" by (auto simp: has_free_def in_set_conv_nth)
  then have "filter (\<lambda>x. first x \<noteq> kNoUse) t = t" by simp
  with assms show False by (simp add: occ_def)
qed

lemma stored_nth:
  "stored t = {(first (t ! j), second (t ! j)) | j. j < length t \<and> first (t ! j) \<noteq> kNoUse}"
  unfolding stored_def by (auto simp: in_set_conv_nth)

lemma occ_update:
  "i < length t \<Longrightarrow>
     occ (t[i := x]) + (if first (t ! i) \<noteq> kNoUse then 1 else 0)
       = occ t + (if first x \<noteq> kNoUse then 1 else 0)"
proof (induction t arbitrary: i)
  case Nil
  then show ?case by simp
next
  case (Cons a t)
  show ?case
  proof (cases i)
    case 0
    then show ?thesis by (simp add: occ_def)
  next
    case (Suc i')
    with Cons.prems have "i' < length t" by simp
    from Cons.IH [OF this] Suc show ?thesis by (simp add: occ_def)
  qed
qed

lemma occ_update_free:
  "i < length t \<Longrightarrow> first (t ! i) = kNoUse \<Longrightarrow> first x \<noteq> kNoUse \<Longrightarrow> occ (t[i := x]) = Suc (occ t)"
  using occ_update [of i t x] by simp

lemma occ_update_same:
  "i < length t \<Longrightarrow> first x = first (t ! i) \<Longrightarrow> occ (t[i := x]) = occ t"
  using occ_update [of i t x] by (simp split: if_splits)

lemma stored_update_free:
  assumes "i < length t" "first (t ! i) = kNoUse" "first x \<noteq> kNoUse"
  shows "stored (t[i := x]) = insert (first x, second x) (stored t)"
proof (rule set_eqI)
  fix p
  show "p \<in> stored (t[i := x]) \<longleftrightarrow> p \<in> insert (first x, second x) (stored t)"
  proof
    assume "p \<in> stored (t[i := x])"
    then obtain j where j: "j < length t" "p = (first (t[i := x] ! j), second (t[i := x] ! j))"
        "first (t[i := x] ! j) \<noteq> kNoUse"
      by (auto simp: stored_nth)
    show "p \<in> insert (first x, second x) (stored t)"
    proof (cases "j = i")
      case True
      with j assms(1) show ?thesis by simp
    next
      case False
      with j have "p = (first (t ! j), second (t ! j))" "first (t ! j) \<noteq> kNoUse" by simp_all
      with j(1) have "p \<in> stored t" unfolding stored_nth by blast
      then show ?thesis by simp
    qed
  next
    assume "p \<in> insert (first x, second x) (stored t)"
    then consider "p = (first x, second x)" | "p \<in> stored t" by blast
    then show "p \<in> stored (t[i := x])"
    proof cases
      case 1
      have "i < length (t[i := x])" "first (t[i := x] ! i) \<noteq> kNoUse"
           "p = (first (t[i := x] ! i), second (t[i := x] ! i))"
        using assms 1 by simp_all
      then show ?thesis unfolding stored_nth by blast
    next
      case 2
      then obtain j where j: "j < length t" "p = (first (t ! j), second (t ! j))" "first (t ! j) \<noteq> kNoUse"
        by (auto simp: stored_nth)
      with assms(2) have "j \<noteq> i" by auto
      with j have "j < length (t[i := x])" "first (t[i := x] ! j) \<noteq> kNoUse"
           "p = (first (t[i := x] ! j), second (t[i := x] ! j))"
        by simp_all
      then show ?thesis unfolding stored_nth by blast
    qed
  qed
qed

lemma slots_found_keys_unique: "slots_found t \<Longrightarrow> keys_unique t"
  unfolding keys_unique_def using slots_found_unique by blast

lemma stored_update_second:
  assumes i: "i < length t" and u: "keys_unique t" and k: "first (t ! i) = k" "k \<noteq> kNoUse"
  shows "stored (t[i := (t ! i)\<lparr>second := d\<rparr>]) = insert (k, d) {p \<in> stored t. fst p \<noteq> k}"
proof (rule set_eqI)
  fix p
  let ?t' = "t[i := (t ! i)\<lparr>second := d\<rparr>]"
  show "p \<in> stored ?t' \<longleftrightarrow> p \<in> insert (k, d) {p \<in> stored t. fst p \<noteq> k}"
  proof
    assume "p \<in> stored ?t'"
    then obtain j where j: "j < length t" "p = (first (?t' ! j), second (?t' ! j))"
        "first (?t' ! j) \<noteq> kNoUse"
      by (auto simp: stored_nth)
    show "p \<in> insert (k, d) {p \<in> stored t. fst p \<noteq> k}"
    proof (cases "j = i")
      case True
      with j i k show ?thesis by simp
    next
      case False
      with j have e: "p = (first (t ! j), second (t ! j))" "first (t ! j) \<noteq> kNoUse" by simp_all
      with j(1) have "p \<in> stored t" unfolding stored_nth by blast
      moreover have "first (t ! j) \<noteq> k"
        using u i j(1) k False unfolding keys_unique_def by metis
      ultimately show ?thesis using e by simp
    qed
  next
    assume "p \<in> insert (k, d) {p \<in> stored t. fst p \<noteq> k}"
    then consider "p = (k, d)" | "p \<in> stored t" "fst p \<noteq> k" by blast
    then show "p \<in> stored ?t'"
    proof cases
      case 1
      have "i < length ?t'" "first (?t' ! i) \<noteq> kNoUse" "p = (first (?t' ! i), second (?t' ! i))"
        using i k 1 by simp_all
      then show ?thesis unfolding stored_nth by blast
    next
      case 2
      then obtain j where j: "j < length t" "p = (first (t ! j), second (t ! j))" "first (t ! j) \<noteq> kNoUse"
        by (auto simp: stored_nth)
      with 2(2) k have "j \<noteq> i" by auto
      with j have "j < length ?t'" "first (?t' ! j) \<noteq> kNoUse" "p = (first (?t' ! j), second (?t' ! j))"
        by simp_all
      then show ?thesis unfolding stored_nth by blast
    qed
  qed
qed

lemma slots_found_keys:
  assumes "map first t = map first t'"
  shows "slots_found t = slots_found t'"
proof -
  from assms have l: "length t = length t'" by (metis length_map)
  have n: "first (t ! i) = first (t' ! i)" if "i < length t" for i
    using assms that l by (metis nth_map)
  show ?thesis
    unfolding slots_found_def using l n FindPartialUse_keys [OF assms] by auto
qed

lemma map_first_update_second:
  "map first (t[i := (t ! i)\<lparr>second := d\<rparr>]) = map first t"
proof (cases "i < length t")
  case True
  then have "(map first t)[i := first (t ! i)] = map first t"
    by (metis list_update_id nth_map)
  then show ?thesis by (simp add: map_update)
next
  case False
  then have "length t \<le> i" by simp
  then show ?thesis by (simp add: list_update_beyond)
qed

lemma cleared_props:
  fixes xs :: "'w PartialUse list"
  defines "c \<equiv> map (\<lambda>e. e\<lparr>first := kNoUse\<rparr>) xs"
  shows "slots_found c" "stored c = {}" "occ c = 0" "length c = length xs"
  by (auto simp: c_def slots_found_def stored_def occ_def)

lemma keys_unique_tail: "keys_unique (x # xs) \<Longrightarrow> keys_unique xs"
  unfolding keys_unique_def
proof (intro allI impI)
  fix i j
  assume a: "\<forall>i<length (x # xs). \<forall>j<length (x # xs).
      first ((x # xs) ! i) = first ((x # xs) ! j) \<and> first ((x # xs) ! i) \<noteq> kNoUse \<longrightarrow> i = j"
    and i: "i < length xs" and j: "j < length xs"
    and e: "first (xs ! i) = first (xs ! j) \<and> first (xs ! i) \<noteq> kNoUse"
  from a [rule_format, of "Suc i" "Suc j"] i j e show "i = j" by auto
qed

lemma keys_unique_head:
  assumes u: "keys_unique (x # xs)" and k: "first x \<noteq> kNoUse"
  shows "first x \<notin> fst ` stored xs"
proof
  assume "first x \<in> fst ` stored xs"
  then obtain j where j: "j < length xs" "first (xs ! j) = first x"
    by (auto simp: stored_nth)
  from u [unfolded keys_unique_def, rule_format, of 0 "Suc j"] j k show False by simp
qed

lemma stored_Cons:
  "stored (x # xs) = (if first x = kNoUse then stored xs else insert (first x, second x) (stored xs))"
  by (auto simp: stored_def)

lemma occ_Cons: "occ (x # xs) = (if first x = kNoUse then occ xs else Suc (occ xs))"
  by (simp add: occ_def)

text \<open>The refill loop re-inserts every saved entry when the new table has room.\<close>

lemma reserve_refill_ok:
  fixes xs c :: "'w PartialUse list"
  assumes "slots_found c" "keys_unique xs" "fst ` stored xs \<inter> fst ` stored c = {}"
    "occ c + occ xs < length c"
  shows "\<exists>c'. reserve_refill xs c = Inr c' \<and> slots_found c' \<and> stored c' = stored c \<union> stored xs
           \<and> length c' = length c \<and> occ c' = occ c + occ xs"
  using assms
proof (induction xs arbitrary: c)
  case Nil
  then show ?case by (simp add: stored_def occ_def)
next
  case (Cons x xs)
  note u = keys_unique_tail [OF Cons.prems(2)]
  show ?case
  proof (cases "first x = kNoUse")
    case True
    with Cons.prems have "fst ` stored xs \<inter> fst ` stored c = {}" "occ c + occ xs < length c"
      by (simp_all add: stored_Cons occ_Cons)
    from Cons.IH [OF Cons.prems(1) u this] True show ?thesis
      by (simp add: stored_Cons occ_Cons)
  next
    case False
    let ?k = "first x"
    from Cons.prems(4) have "occ c < length c" by simp
    from occ_has_free [OF this] obtain f where f: "f < length c" "first (c ! f) = kNoUse"
      by (auto simp: has_free_def)
    then have "stop_at ?k (c ! f)" by (simp add: stop_at_def)
    from FindPartialUse_total [OF f(1) this] obtain i where i: "FindPartialUse c ?k = Inr i" by blast
    from FindPartialUse_bound [OF i] have b: "i < length c" "stop_at ?k (c ! i)" by simp_all
    have nk: "?k \<notin> fst ` stored c"
      using Cons.prems(3) False by (auto simp: stored_Cons)
    have free: "first (c ! i) = kNoUse"
    proof (rule ccontr)
      assume n: "first (c ! i) \<noteq> kNoUse"
      with b(2) have "first (c ! i) = ?k" by (simp add: stop_at_def)
      with b(1) n have "(?k, second (c ! i)) \<in> stored c" unfolding stored_nth by force
      with nk show False by force
    qed
    let ?c = "c[i := x]"
    have sf: "slots_found ?c"
      by (rule insert_free_slot_found [OF False i free refl Cons.prems(1)])
    have st: "stored ?c = insert (?k, second x) (stored c)"
      by (rule stored_update_free [OF b(1) free False])
    have oc: "occ ?c = Suc (occ c)"
      by (rule occ_update_free [OF b(1) free False])
    have dj: "fst ` stored xs \<inter> fst ` stored ?c = {}"
      using Cons.prems(3) keys_unique_head [OF Cons.prems(2) False] False
      by (auto simp: st stored_Cons)
    have sz: "occ ?c + occ xs < length ?c"
      using Cons.prems(4) False by (simp add: oc occ_Cons)
    from Cons.IH [OF sf u dj sz] obtain c' where c': "reserve_refill xs ?c = Inr c'"
        "slots_found c'" "stored c' = stored ?c \<union> stored xs" "length c' = length ?c"
        "occ c' = occ ?c + occ xs"
      by blast
    have "reserve_refill (x # xs) c = Inr c'" using False i free c'(1) by simp
    moreover have "stored c' = stored c \<union> stored (x # xs)"
      using c'(3) st False by (auto simp: stored_Cons)
    moreover have "occ c' = occ c + occ (x # xs)" using c'(5) oc False by (simp add: occ_Cons)
    ultimately show ?thesis using c'(2,4) by simp
  qed
qed

lemma length_resize: "length (resize n v xs) = n"
  by (simp add: resize_def)

text \<open>\<^verbatim>\<open>reserve\<close> keeps the stored pairs when the new size exceeds the occupancy.\<close>

lemma PartialUses_reserve_ok:
  fixes pu :: "'a::len word PartialUses"
  assumes sf: "slots_found (entries pu)" and sz: "occ (entries pu) < newSize"
    and p: "GetFirstPrimeGreaterThanOrEqualTo (n * 2) = Some newSize"
  shows "\<exists>pu'. PartialUses_reserve n pu = Inr pu' \<and> slots_found (entries pu')
           \<and> stored (entries pu') = stored (entries pu) \<and> length (entries pu') = newSize
           \<and> occ (entries pu') = occ (entries pu) \<and> load pu' = load pu
           \<and> maxLoad pu' = newSize div 2"
proof -
  let ?c = "map (\<lambda>e. e\<lparr>first := kNoUse\<rparr>) (resize newSize zero_PartialUse (entries pu))"
  have c: "slots_found ?c" "stored ?c = {}" "occ ?c = 0" "length ?c = newSize"
    using cleared_props [of "resize newSize zero_PartialUse (entries pu)"]
    by (simp_all add: length_resize)
  have "fst ` stored (entries pu) \<inter> fst ` stored ?c = {}" using c(2) by simp
  moreover have "occ ?c + occ (entries pu) < length ?c" using c(3,4) sz by simp
  ultimately obtain c' where c': "reserve_refill (entries pu) ?c = Inr c'" "slots_found c'"
      "stored c' = stored ?c \<union> stored (entries pu)" "length c' = length ?c"
      "occ c' = occ ?c + occ (entries pu)"
    using reserve_refill_ok [OF c(1) slots_found_keys_unique [OF sf]] by blast
  have "PartialUses_reserve n pu = Inr (pu\<lparr>entries := c', maxLoad := newSize div 2\<rparr>)"
    using p c'(1) by (simp add: PartialUses_reserve_def Let_def)
  then show ?thesis using c' c by simp
qed

lemma PartialUses_reserve_NoReturn:
  fixes pu :: "'a::len word PartialUses"
  assumes "GetFirstPrimeGreaterThanOrEqualTo (n * 2) = None"
  shows "PartialUses_reserve n pu = Inl NoReturn"
  using assms by (simp add: PartialUses_reserve_def)

lemma PU_inv_has_free: "PU_inv pu \<Longrightarrow> has_free (entries pu)"
proof -
  assume a: "PU_inv pu"
  then have "0 < length (entries pu)" by (simp add: PU_inv_def)
  then have "length (entries pu) div 2 < length (entries pu)" by simp
  moreover from a have "occ (entries pu) \<le> length (entries pu) div 2" by (simp add: PU_inv_def)
  ultimately have "occ (entries pu) < length (entries pu)" by linarith
  then show ?thesis by (rule occ_has_free)
qed

lemma stored_key_slot:
  assumes "(k, v) \<in> stored t"
  shows "\<exists>j < length t. first (t ! j) = k \<and> second (t ! j) = v \<and> k \<noteq> kNoUse"
  using assms unfolding stored_nth by auto

text \<open>
  \<^verbatim>\<open>operator[]\<close> finds or claims the slot of a key; it can fail only where the search for the
  new table size does not return.
\<close>

lemma PartialUses_index_ok:
  fixes pu :: "'a::len word PartialUses"
  assumes inv: "PU_inv pu" and k: "k \<noteq> kNoUse"
  shows "(\<exists>i pu'. PartialUses_index k pu = Inr (i, pu') \<and> PU_inv pu' \<and> i < length (entries pu')
            \<and> first (entries pu' ! i) = k
            \<and> {p \<in> stored (entries pu'). fst p \<noteq> k} = {p \<in> stored (entries pu). fst p \<noteq> k}
            \<and> load pu \<le> load pu' \<and> load pu' \<le> load pu + 1)
       \<or> (PartialUses_index k pu = Inl NoReturn
            \<and> GetFirstPrimeGreaterThanOrEqualTo ((load pu + 1) * 2 * 2) = None)"
proof -
  let ?t = "entries pu"
  from inv have sf: "slots_found ?t" and ld: "load pu = occ ?t" and ml: "load pu \<le> maxLoad pu"
    and mx: "maxLoad pu = length ?t div 2" and ne: "?t \<noteq> []"
    by (simp_all add: PU_inv_def)
  from PU_inv_has_free [OF inv] obtain f where f: "f < length ?t" "first (?t ! f) = kNoUse"
    by (auto simp: has_free_def)
  then have "stop_at k (?t ! f)" by (simp add: stop_at_def)
  from FindPartialUse_total [OF f(1) this] obtain i1 where i1: "FindPartialUse ?t k = Inr i1" by blast
  from FindPartialUse_bound [OF i1] have b: "i1 < length ?t" "stop_at k (?t ! i1)" by simp_all
  show ?thesis
  proof (cases "first (?t ! i1) = k")
    case True
    with i1 have "PartialUses_index k pu = Inr (i1, pu)" by (simp add: PartialUses_index_def)
    with inv b(1) True show ?thesis by simp
  next
    case False
    with b(2) have free: "first (?t ! i1) = kNoUse" by (simp add: stop_at_def)
    let ?x = "(?t ! i1)\<lparr>first := k\<rparr>"
    let ?t1 = "?t[i1 := ?x]"
    let ?pu1 = "pu\<lparr>entries := ?t1, load := load pu + 1\<rparr>"
    have x: "first ?x = k" by simp
    have sf1: "slots_found ?t1" by (rule insert_free_slot_found [OF k i1 free x sf])
    have st1: "stored ?t1 = insert (k, second (?t ! i1)) (stored ?t)"
      using stored_update_free [OF b(1) free, of ?x] k by simp
    have oc1: "occ ?t1 = Suc (occ ?t)"
      using occ_update_free [OF b(1) free, of ?x] k by simp
    have flt: "{p \<in> stored ?t1. fst p \<noteq> k} = {p \<in> stored ?t. fst p \<noteq> k}"
      unfolding st1 by auto
    show ?thesis
    proof (cases "load pu + 1 \<le> maxLoad pu")
      case True
      with i1 False have r: "PartialUses_index k pu = Inr (i1, ?pu1)"
        by (simp add: PartialUses_index_def Let_def)
      have "PU_inv ?pu1" using sf1 oc1 ld True mx ne by (simp add: PU_inv_def)
      with r b(1) flt show ?thesis by simp
    next
      case over: False
      show ?thesis
      proof (cases "GetFirstPrimeGreaterThanOrEqualTo ((load pu + 1) * 2 * 2)")
        case None
        then have "PartialUses_reserve ((load pu + 1) * 2) ?pu1 = Inl NoReturn"
          by (rule PartialUses_reserve_NoReturn)
        with i1 False over None show ?thesis
          by (simp add: PartialUses_index_def Let_def)
      next
        case (Some p)
        from GetFirstPrime_ge [OF Some] have pge: "(load pu + 1) * 2 * 2 \<le> p" by simp
        have sz: "occ (entries ?pu1) < p" using pge oc1 ld by simp
        have sfp: "slots_found (entries ?pu1)" using sf1 by simp
        from PartialUses_reserve_ok [OF sfp sz Some]
        obtain pu2 where pu2: "PartialUses_reserve ((load pu + 1) * 2) ?pu1 = Inr pu2"
            "slots_found (entries pu2)" "stored (entries pu2) = stored ?t1"
            "length (entries pu2) = p" "occ (entries pu2) = occ ?t1" "load pu2 = load pu + 1"
            "maxLoad pu2 = p div 2"
          by auto
        have "(k, second (?t ! i1)) \<in> stored (entries pu2)" using pu2(3) st1 by simp
        from stored_key_slot [OF this] obtain j where j: "j < length (entries pu2)"
            "first (entries pu2 ! j) = k"
          by blast
        with pu2(2) k have i2: "FindPartialUse (entries pu2) k = Inr j"
          by (auto simp: slots_found_def)
        have r: "PartialUses_index k pu = Inr (j, pu2)"
          using i1 False over pu2(1) i2 j(2) by (simp add: PartialUses_index_def Let_def)
        have "PU_inv pu2"
          using pu2 oc1 ld pge by (auto simp: PU_inv_def)
        with r j flt pu2(3,6) show ?thesis by simp
      qed
    qed
  qed
qed

text \<open>The assignment \<^verbatim>\<open>partialUses[useIndex] = def\<close> on the stored pairs.\<close>

lemma PartialUses_set_ok:
  fixes pu :: "'a::len word PartialUses"
  assumes inv: "PU_inv pu" and k: "k \<noteq> kNoUse"
  shows "(\<exists>pu'. PartialUses_set k d pu = Inr pu' \<and> PU_inv pu'
            \<and> stored (entries pu') = insert (k, d) {p \<in> stored (entries pu). fst p \<noteq> k}
            \<and> load pu \<le> load pu' \<and> load pu' \<le> load pu + 1)
       \<or> (PartialUses_set k d pu = Inl NoReturn
            \<and> GetFirstPrimeGreaterThanOrEqualTo ((load pu + 1) * 2 * 2) = None)"
proof -
  from PartialUses_index_ok [OF inv k] show ?thesis
  proof (elim disjE exE conjE)
    fix i pu1
    assume ok: "PartialUses_index k pu = Inr (i, pu1)" "PU_inv pu1"
      "i < length (entries pu1)" "first (entries pu1 ! i) = k"
      "{p \<in> stored (entries pu1). fst p \<noteq> k} = {p \<in> stored (entries pu). fst p \<noteq> k}"
      "load pu \<le> load pu1" "load pu1 \<le> load pu + 1"
    let ?t = "entries pu1"
    let ?t' = "?t[i := (?t ! i)\<lparr>second := d\<rparr>]"
    let ?pu' = "pu1\<lparr>entries := ?t'\<rparr>"
    have r: "PartialUses_set k d pu = Inr ?pu'" using ok(1) by (simp add: PartialUses_set_def)
    from ok(2) have sf: "slots_found ?t" by (simp add: PU_inv_def)
    have mf: "map first ?t' = map first ?t" by (rule map_first_update_second)
    have sf': "slots_found ?t'" using slots_found_keys [OF mf] sf by simp
    have oc: "occ ?t' = occ ?t" using occ_update_same [OF ok(3), of "(?t ! i)\<lparr>second := d\<rparr>"] by simp
    have inv': "PU_inv ?pu'" using ok(2) sf' oc by (simp add: PU_inv_def)
    have "stored ?t' = insert (k, d) {p \<in> stored ?t. fst p \<noteq> k}"
      by (rule stored_update_second [OF ok(3) slots_found_keys_unique [OF sf] ok(4) k])
    with ok(5) have "stored (entries ?pu') = insert (k, d) {p \<in> stored (entries pu). fst p \<noteq> k}"
      by simp
    with r inv' ok(6,7) show ?thesis by simp
  next
    assume "PartialUses_index k pu = Inl NoReturn"
      "GetFirstPrimeGreaterThanOrEqualTo ((load pu + 1) * 2 * 2) = None"
    then show ?thesis by (simp add: PartialUses_set_def)
  qed
qed

section \<open>The search for the table size\<close>

lemma sqrt_up_spec:
  "r * r \<le> n \<Longrightarrow> sqrt_up n r * sqrt_up n r \<le> n \<and> n < (sqrt_up n r + 1) * (sqrt_up n r + 1)"
proof (induction n r rule: sqrt_up.induct)
  case (1 n r)
  show ?case
  proof (cases "(r + 1) * (r + 1) \<le> n")
    case True
    from 1(1) [OF True True] True show ?thesis by (subst (1 2 3 4) sqrt_up.simps) simp
  next
    case False
    with 1(2) show ?thesis by (subst (1 2 3 4) sqrt_up.simps) simp
  qed
qed

lemma floor_sqrt_spec:
  "floor_sqrt n * floor_sqrt n \<le> n" "n < (floor_sqrt n + 1) * (floor_sqrt n + 1)"
  using sqrt_up_spec [of 0 n] by (simp_all add: floor_sqrt_def)

lemma le_floor_sqrt_iff: "p \<le> floor_sqrt n \<longleftrightarrow> p * p \<le> n"
proof
  assume "p \<le> floor_sqrt n"
  then have "p * p \<le> floor_sqrt n * floor_sqrt n" by (simp add: mult_le_mono)
  with floor_sqrt_spec(1) [of n] show "p * p \<le> n" by linarith
next
  assume a: "p * p \<le> n"
  show "p \<le> floor_sqrt n"
  proof (rule ccontr)
    assume "\<not> p \<le> floor_sqrt n"
    then have "floor_sqrt n + 1 \<le> p" by simp
    from mult_le_mono [OF this this]
    have "(floor_sqrt n + 1) * (floor_sqrt n + 1) \<le> p * p" .
    with floor_sqrt_spec(2) [of n] a show False by linarith
  qed
qed

lemma is_prime_iff: "is_prime n \<longleftrightarrow> 1 < n \<and> (\<forall>d. d dvd n \<longrightarrow> d = 1 \<or> d = n)"
proof
  assume p: "is_prime n"
  then have n: "1 < n" by (simp add: is_prime_def)
  have "d = 1 \<or> d = n" if "d dvd n" for d
  proof -
    from that n have "d \<noteq> 0" by (cases "d = 0") auto
    moreover from that n have "d \<le> n" by (auto intro: dvd_imp_le)
    ultimately have "d \<le> n" "d \<noteq> 0" by simp_all
    note b = this
    show ?thesis
    proof (rule ccontr)
      assume "\<not> (d = 1 \<or> d = n)"
      with b have "d \<in> {2..<n}" by auto
      with p that show False by (auto simp: is_prime_def)
    qed
  qed
  with n show "1 < n \<and> (\<forall>d. d dvd n \<longrightarrow> d = 1 \<or> d = n)" by blast
next
  assume "1 < n \<and> (\<forall>d. d dvd n \<longrightarrow> d = 1 \<or> d = n)"
  then show "is_prime n" by (auto simp: is_prime_def)
qed

text \<open>A number above 1 that is not prime has a prime divisor up to its square root.\<close>

lemma small_prime_divisor:
  assumes n: "1 < n" and np: "\<not> is_prime n"
  shows "\<exists>p. is_prime p \<and> p dvd n \<and> p * p \<le> n"
proof -
  define Q where "Q d \<longleftrightarrow> 2 \<le> d \<and> d < n \<and> d dvd n" for d
  from n np obtain d0 where "Q d0" unfolding is_prime_def Q_def by auto
  define d where "d = (LEAST d. Q d)"
  have Qd: "Q d" unfolding d_def using \<open>Q d0\<close> by (rule LeastI)
  have least: "d \<le> e" if "Q e" for e unfolding d_def using that by (rule Least_le)
  have pd: "is_prime d"
  proof (rule ccontr)
    assume "\<not> is_prime d"
    with Qd obtain e where e: "2 \<le> e" "e < d" "e dvd d" unfolding is_prime_def Q_def by auto
    with Qd have "Q e" unfolding Q_def by (auto intro: dvd_trans)
    from least [OF this] e(2) show False by simp
  qed
  from Qd obtain e where e: "n = d * e" unfolding Q_def by auto
  with Qd have e1: "e \<noteq> 1" "e \<noteq> 0" unfolding Q_def by auto
  then have "2 \<le> e" by simp
  moreover have "e < n" using e Qd e1 unfolding Q_def by (cases d; cases e) auto
  moreover have "e dvd n" using e by simp
  ultimately have "Q e" unfolding Q_def by simp
  from least [OF this] have "d * d \<le> d * e" by simp
  with e pd Qd show ?thesis unfolding Q_def by auto
qed

lemma is_prime_odd:
  assumes "is_prime q" "2 < q"
  shows "odd q"
proof
  assume "even q"
  moreover from assms(2) have "2 \<in> {2..<q}" by simp
  ultimately show False using assms(1) unfolding is_prime_def by blast
qed

lemma no_divisor_spec: "no_divisor n d k \<Longrightarrow> j < k \<Longrightarrow> \<not> (d + 2 * j) dvd n"
proof (induction n d k arbitrary: j rule: no_divisor.induct)
  case (1 n d)
  then show ?case by simp
next
  case (2 n d k)
  show ?case
  proof (cases j)
    case 0
    with 2 show ?thesis by (auto simp: dvd_eq_mod_eq_0)
  next
    case (Suc j')
    with 2(3) have "j' < k" by simp
    from 2(1) [OF _ this] 2(2) have "\<not> (d + 2 + 2 * j') dvd n" by simp
    with Suc show ?thesis by (simp add: add.commute add.left_commute)
  qed
qed

text \<open>Trial division by the odd numbers from 3 decides the primality of an odd number.\<close>

lemma is_prime_no_divisor:
  assumes n: "1 < n" "odd n" and nd: "no_divisor n 3 k" and b: "n < (2 * k + 3) * (2 * k + 3)"
  shows "is_prime n"
proof (rule ccontr)
  assume "\<not> is_prime n"
  from small_prime_divisor [OF n(1) this] obtain p where p: "is_prime p" "p dvd n" "p * p \<le> n"
    by blast
  from p(2) n(2) have op: "odd p" by auto
  from p(1) have "2 \<le> p" by (simp add: is_prime_def)
  with op have p3: "3 \<le> p" by (cases "p = 2") auto
  have lt: "p < 2 * k + 3"
  proof (rule ccontr)
    assume "\<not> p < 2 * k + 3"
    then have "2 * k + 3 \<le> p" by simp
    from mult_le_mono [OF this this] have "(2 * k + 3) * (2 * k + 3) \<le> p * p" .
    with p(3) b show False by linarith
  qed
  from op obtain m where m: "p = 2 * m + 1" by (rule oddE)
  with p3 have "p = 3 + 2 * (m - 1)" by simp
  then obtain j where j: "p = 3 + 2 * j" ..
  with lt have "j < k" by simp
  from no_divisor_spec [OF nd this] j p(2) show False by simp
qed

lemma no_divisor_numeral:
  "no_divisor n d (numeral k) = (n mod d \<noteq> 0 \<and> no_divisor n (d + 2) (pred_numeral k))"
  by (simp add: numeral_eq_Suc)

lemma is_prime_7: "is_prime 7"
  by (rule is_prime_no_divisor [where k = 1]) (simp_all add: no_divisor_numeral)

lemma is_prime_47: "is_prime 47"
  by (rule is_prime_no_divisor [where k = 2]) (simp_all add: no_divisor_numeral)

lemma is_prime_2207: "is_prime 2207"
  by (rule is_prime_no_divisor [where k = 22]) (simp_all add: no_divisor_numeral)

lemma is_prime_3: "is_prime 3"
  by (rule is_prime_no_divisor [where k = 0]) simp_all

lemma cache_ok_set:
  assumes "cache_ok primes"
  shows "set primes = {p. is_prime p \<and> 3 \<le> p \<and> p \<le> last primes}"
proof -
  from assms have "set primes = set (filter is_prime [3..<Suc (last primes)])"
    unfolding cache_ok_def by metis
  then show ?thesis by auto
qed

lemma cache_ok_sorted:
  assumes "cache_ok primes"
  shows "sorted_wrt (<) primes"
proof -
  have "sorted_wrt (<) (filter is_prime [3..<Suc (last primes)])"
    by (rule sorted_wrt_filter) (rule sorted_wrt_upt)
  with assms show ?thesis unfolding cache_ok_def by metis
qed

lemma cache_ok_last:
  assumes "cache_ok primes"
  shows "is_prime (last primes)" "3 \<le> last primes"
proof -
  from assms have "primes \<noteq> []" by (simp add: cache_ok_def)
  then have "last primes \<in> set primes" by simp
  with cache_ok_set [OF assms] show "is_prime (last primes)" "3 \<le> last primes" by auto
qed

lemma cache_ok_3: "cache_ok [3]"
proof -
  have "[3..<Suc 3] = [3]" by (simp add: upt_rec)
  then show ?thesis using is_prime_3 by (simp add: cache_ok_def)
qed

lemma cache_ok_extend:
  assumes c: "cache_ok primes" and q: "is_prime q" "last primes < q"
    and g: "\<forall>u. last primes < u \<and> u < q \<longrightarrow> \<not> is_prime u"
  shows "cache_ok (primes @ [q])"
proof -
  let ?p = "last primes"
  have "3 \<le> Suc ?p" using cache_ok_last(2) [OF c] by simp
  then have "[3..<Suc q] = [3..<Suc ?p] @ [Suc ?p..<Suc q]"
    using q(2) by (metis Suc_leI le_Suc_eq upt_add_eq_append le_Suc_ex)
  also have "[Suc ?p..<Suc q] = [Suc ?p..<q] @ [q]" using q(2) by simp
  finally have "filter is_prime [3..<Suc q]
      = filter is_prime [3..<Suc ?p] @ filter is_prime [Suc ?p..<q] @ [q]"
    using q(1) by simp
  moreover have "filter is_prime [Suc ?p..<q] = []" using g by (auto simp: filter_empty_conv)
  moreover have "filter is_prime [3..<Suc ?p] = primes" using c unfolding cache_ok_def by metis
  ultimately show ?thesis by (simp add: cache_ok_def)
qed

text \<open>With a complete cache beyond the square root, the division loop decides primality.\<close>

lemma trial_division:
  assumes c: "cache_ok primes" and b: "\<not> last primes \<le> floor_sqrt v" and v: "odd v" "3 \<le> v"
  shows "list_ex (\<lambda>p. v mod p = 0) (takeWhile (\<lambda>p. p \<le> floor_sqrt v) primes) \<longleftrightarrow> \<not> is_prime v"
proof -
  have tw: "takeWhile (\<lambda>p. p \<le> floor_sqrt v) primes = filter (\<lambda>p. p \<le> floor_sqrt v) primes"
    by (rule takeWhile_eq_filter_sorted [OF cache_ok_sorted [OF c]]) simp
  show ?thesis
  proof
    assume "list_ex (\<lambda>p. v mod p = 0) (takeWhile (\<lambda>p. p \<le> floor_sqrt v) primes)"
    then obtain p where p: "p \<in> set primes" "p \<le> floor_sqrt v" "v mod p = 0"
      unfolding tw by (auto simp: list_ex_iff)
    from p(1) cache_ok_set [OF c] have p3: "3 \<le> p" by simp
    from p(2) have pp: "p * p \<le> v" by (simp add: le_floor_sqrt_iff)
    have "p < p * p" using p3 by simp
    with pp have "p < v" by linarith
    with p3 have "p \<in> {2..<v}" by simp
    moreover from p(3) have "p dvd v" by (simp add: dvd_eq_mod_eq_0)
    ultimately show "\<not> is_prime v" unfolding is_prime_def by blast
  next
    assume np: "\<not> is_prime v"
    from v(2) have "1 < v" by simp
    from small_prime_divisor [OF this np] obtain p where p: "is_prime p" "p dvd v" "p * p \<le> v"
      by blast
    from p(2) v(1) have "odd p" by auto
    moreover from p(1) have "2 \<le> p" by (simp add: is_prime_def)
    ultimately have p3: "3 \<le> p" by (cases "p = 2") auto
    from p(3) have le: "p \<le> floor_sqrt v" by (simp add: le_floor_sqrt_iff)
    with b have "p \<le> last primes" by simp
    with p(1) p3 cache_ok_set [OF c] have "p \<in> set primes" by simp
    moreover from p(2) have "v mod p = 0" by (simp add: dvd_eq_mod_eq_0)
    ultimately show "list_ex (\<lambda>p. v mod p = 0) (takeWhile (\<lambda>p. p \<le> floor_sqrt v) primes)"
      unfolding tw using le by (auto simp: list_ex_iff)
  qed
qed

lemma odd_step:
  assumes "odd (w::nat)" "odd q" "w < q"
  shows "w + 2 \<le> q"
proof -
  from assms(1,2) have "w + 1 \<noteq> q" by auto
  with assms(3) show ?thesis by simp
qed

lemma even_not_prime: "even u \<Longrightarrow> 2 < u \<Longrightarrow> \<not> is_prime u"
  using is_prime_odd by blast

text \<open>
  While a prime lies below the square of the last cached prime, the search from an odd
  number finds the next prime without touching the cache.
\<close>

lemma GetFirstPrime_loop_no_fill:
  assumes "cache_ok primes" "odd w" "3 \<le> w" "is_prime q" "w \<le> q" "q < last primes * last primes"
  shows "\<exists>q'. GetFirstPrime_loop w primes = Some (q', primes) \<and> is_prime q' \<and> w \<le> q' \<and> q' \<le> q
           \<and> (\<forall>u. w \<le> u \<and> u < q' \<longrightarrow> \<not> is_prime u)"
  using assms
proof (induction "q - w" arbitrary: w rule: less_induct)
  case less
  note c = less.prems(1)
  from c have ne: "primes \<noteq> []" by (simp add: cache_ok_def)
  have nf: "\<not> last primes \<le> floor_sqrt w"
    using less.prems(5,6) by (simp add: le_floor_sqrt_iff)
  note td = trial_division [OF c nf less.prems(2,3)]
  show ?case
  proof (cases "is_prime w")
    case True
    with td have "GetFirstPrime_loop w primes = Some (w, primes)"
      by (simp add: GetFirstPrime_loop_ret [OF ne nf])
    with True less.prems(5) show ?thesis by auto
  next
    case False
    with less.prems(4,5) have lt: "w < q" by (cases "w = q") auto
    have oq: "odd q" using less.prems(3,4,5) by (intro is_prime_odd) simp_all
    from odd_step [OF less.prems(2) oq lt] have le: "w + 2 \<le> q" .
    have "q - (w + 2) < q - w" using lt by simp
    from less.hyps [OF this c _ _ less.prems(4) le less.prems(6)] less.prems(2,3)
    obtain q' where q': "GetFirstPrime_loop (w + 2) primes = Some (q', primes)" "is_prime q'"
        "w + 2 \<le> q'" "q' \<le> q" "\<forall>u. w + 2 \<le> u \<and> u < q' \<longrightarrow> \<not> is_prime u"
      by auto
    have "GetFirstPrime_loop w primes = Some (q', primes)"
      using td False q'(1) by (simp add: GetFirstPrime_loop_next [OF ne nf])
    moreover have "\<not> is_prime u" if "w \<le> u" "u < q'" for u
    proof -
      note uw = that
      consider "u = w" | "u = w + 1" | "w + 2 \<le> u" using uw(1) by linarith
      then show ?thesis
      proof cases
        case 1
        with False show ?thesis by simp
      next
        case 2
        with less.prems(2,3) show ?thesis by (intro even_not_prime) simp_all
      next
        case 3
        with q'(5) uw(2) show ?thesis by simp
      qed
    qed
    ultimately show ?thesis using q'(2,3,4) by auto
  qed
qed

lemma prime_chain:
  assumes "3 \<le> p" "p < 2207"
  shows "\<exists>c. is_prime c \<and> p < c \<and> c < p * p \<and> c \<le> 2207"
proof -
  consider "p < 7" | "7 \<le> p" "p < 47" | "47 \<le> p" by linarith
  then show ?thesis
  proof cases
    case 1
    from assms(1) have "3 * 3 \<le> p * p" by (intro mult_le_mono) simp_all
    with 1 is_prime_7 show ?thesis by (intro exI [of _ 7]) simp
  next
    case 2
    from 2(1) have "7 * 7 \<le> p * p" by (intro mult_le_mono) simp_all
    with 2 is_prime_47 show ?thesis by (intro exI [of _ 47]) simp
  next
    case 3
    from 3 have "47 * 47 \<le> p * p" by (intro mult_le_mono) simp_all
    with assms(2) is_prime_2207 show ?thesis by (intro exI [of _ 2207]) simp
  qed
qed

lemma is_prime_4870843: "is_prime 4870843"
  by (rule is_prime_no_divisor [where k = 1102]) (simp_all add: no_divisor_numeral)

lemma odd_plus1_or1:
  assumes "odd (p::nat)"
  shows "(p + 1) OR 1 = p + 2"
  using assms by (simp add: or_Suc_0_eq)

text \<open>
  The search returns the least prime from an odd number up to the largest prime below
  \<open>2207\<^sup>2\<close>: each cached prime \<open>p\<close> it extends has a prime below \<open>p\<^sup>2\<close> above it.
\<close>

lemma GetFirstPrime_loop_bounded:
  assumes "cache_ok primes" "odd v" "3 \<le> v" "v \<le> prime_search_bound" "last primes \<le> 2207"
  shows "\<exists>q cache. GetFirstPrime_loop v primes = Some (q, cache) \<and> is_prime q \<and> v \<le> q
           \<and> (\<forall>u. v \<le> u \<and> u < q \<longrightarrow> \<not> is_prime u) \<and> cache_ok cache \<and> last cache \<le> 2207"
  using assms
proof (induction "(prime_search_bound - v) + (2207 - last primes)" arbitrary: v primes rule: less_induct)
  case less
  note c = less.prems(1)
  let ?p = "last primes"
  from c have ne: "primes \<noteq> []" by (simp add: cache_ok_def)
  note pl = cache_ok_last [OF c]
  show ?case
  proof (cases "?p \<le> floor_sqrt v")
    case True
    then have "?p * ?p \<le> v" by (simp add: le_floor_sqrt_iff)
    with less.prems(4) have pp: "?p * ?p < 2207 * 2207" by (simp add: prime_search_bound_def)
    have p2207: "?p < 2207"
    proof (rule ccontr)
      assume "\<not> ?p < 2207"
      then have "2207 \<le> ?p" by simp
      from mult_le_mono [OF this this] pp show False by simp
    qed
    from prime_chain [OF pl(2) p2207] obtain c' where c': "is_prime c'" "?p < c'" "c' < ?p * ?p"
        "c' \<le> 2207"
      by blast
    have op: "odd ?p" using pl by (intro is_prime_odd) simp_all
    have oc: "odd c'" using c'(1,2) pl(2) by (intro is_prime_odd) simp_all
    from odd_step [OF op oc c'(2)] have le: "?p + 2 \<le> c'" .
    have "odd (?p + 2)" "3 \<le> ?p + 2" using op pl(2) by simp_all
    from GetFirstPrime_loop_no_fill [OF c this c'(1) le c'(3)]
    obtain q' where q': "GetFirstPrime_loop (?p + 2) primes = Some (q', primes)" "is_prime q'"
        "?p + 2 \<le> q'" "q' \<le> c'" "\<forall>u. ?p + 2 \<le> u \<and> u < q' \<longrightarrow> \<not> is_prime u"
      by blast
    have gap: "\<forall>u. ?p < u \<and> u < q' \<longrightarrow> \<not> is_prime u"
    proof (intro allI impI)
      fix u assume u: "?p < u \<and> u < q'"
      show "\<not> is_prime u"
      proof (cases "u = ?p + 1")
        case True
        with op pl(2) show ?thesis by (intro even_not_prime) simp_all
      next
        case False
        with u have "?p + 2 \<le> u \<and> u < q'" by simp
        with q'(5) show ?thesis by blast
      qed
    qed
    from q'(3) have lt: "?p < q'" by simp
    have c2: "cache_ok (primes @ [q'])" by (rule cache_ok_extend [OF c q'(2) lt gap])
    have l2: "last (primes @ [q']) \<le> 2207" using q'(4) c'(4) by simp
    have "prime_search_bound - v + (2207 - last (primes @ [q']))
        < prime_search_bound - v + (2207 - ?p)"
      using lt l2 by simp
    from less.hyps [OF this c2 less.prems(2,3,4) l2]
    obtain q cache where r: "GetFirstPrime_loop v (primes @ [q']) = Some (q, cache)" "is_prime q"
        "v \<le> q" "\<forall>u. v \<le> u \<and> u < q \<longrightarrow> \<not> is_prime u" "cache_ok cache" "last cache \<le> 2207"
      by blast
    have e: "(?p + 1) OR 1 = ?p + 2" by (rule odd_plus1_or1 [OF op])
    have "GetFirstPrime_loop v primes
        = Option.bind (GetFirstPrime_loop (?p + 2) primes) (\<lambda>r. GetFirstPrime_loop v (snd r @ [fst r]))"
      using GetFirstPrime_loop_fill [OF ne True] unfolding e .
    then have "GetFirstPrime_loop v primes = Some (q, cache)"
      using r(1) q'(1) by simp
    with r show ?thesis by blast
  next
    case nf: False
    note td = trial_division [OF c nf less.prems(2,3)]
    show ?thesis
    proof (cases "is_prime v")
      case True
      with td have "GetFirstPrime_loop v primes = Some (v, primes)"
        by (simp add: GetFirstPrime_loop_ret [OF ne nf])
      with True c less.prems(5) show ?thesis by auto
    next
      case False
      with is_prime_4870843 less.prems(4) have lt: "v < prime_search_bound"
        by (cases "v = prime_search_bound") (auto simp: prime_search_bound_def)
      have "odd prime_search_bound" by (simp add: prime_search_bound_def)
      from odd_step [OF less.prems(2) this lt] have le: "v + 2 \<le> prime_search_bound" .
      have "prime_search_bound - (v + 2) + (2207 - ?p) < prime_search_bound - v + (2207 - ?p)"
        using lt by simp
      from less.hyps [OF this c _ _ le less.prems(5)] less.prems(2,3)
      obtain q cache where r: "GetFirstPrime_loop (v + 2) primes = Some (q, cache)" "is_prime q"
          "v + 2 \<le> q" "\<forall>u. v + 2 \<le> u \<and> u < q \<longrightarrow> \<not> is_prime u" "cache_ok cache"
          "last cache \<le> 2207"
        by auto
      have "GetFirstPrime_loop v primes = Some (q, cache)"
        using td False r(1) by (simp add: GetFirstPrime_loop_next [OF ne nf])
      moreover have "\<not> is_prime u" if "v \<le> u" "u < q" for u
      proof -
        note uv = that
        consider "u = v" | "u = v + 1" | "v + 2 \<le> u" using uv(1) by linarith
        then show ?thesis
        proof cases
          case 1
          with False show ?thesis by simp
        next
          case 2
          with less.prems(2,3) show ?thesis by (intro even_not_prime) simp_all
        next
          case 3
          with r(4) uv(2) show ?thesis by simp
        qed
      qed
      ultimately show ?thesis using r(2,3,5,6) by auto
    qed
  qed
qed

lemma GetFirstPrime_cached_bounded:
  assumes c: "cache_ok primes" "last primes \<le> 2207" and v: "3 \<le> v" "v \<le> prime_search_bound"
  shows "\<exists>q cache. GetFirstPrimeGreaterThanOrEqualTo_cached v primes = Some (q, cache)
           \<and> is_prime q \<and> v \<le> q \<and> (\<forall>u. v \<le> u \<and> u < q \<longrightarrow> \<not> is_prime u)
           \<and> cache_ok cache \<and> last cache \<le> 2207"
proof (cases "odd v")
  case True
  then have "v OR 1 = v" by (simp add: or_Suc_0_eq)
  with GetFirstPrime_loop_bounded [OF c(1) True v c(2)] show ?thesis
    by (simp add: GetFirstPrimeGreaterThanOrEqualTo_cached_def)
next
  case False
  then have e: "v OR 1 = v + 1" by (simp add: or_Suc_0_eq)
  from False have "v \<noteq> prime_search_bound" by (auto simp: prime_search_bound_def)
  with v(2) have le: "v + 1 \<le> prime_search_bound" by simp
  have "odd (v + 1)" "3 \<le> v + 1" using False v(1) by simp_all
  from GetFirstPrime_loop_bounded [OF c(1) this le c(2)]
  obtain q cache where r: "GetFirstPrime_loop (v + 1) primes = Some (q, cache)" "is_prime q"
      "v + 1 \<le> q" "\<forall>u. v + 1 \<le> u \<and> u < q \<longrightarrow> \<not> is_prime u" "cache_ok cache"
      "last cache \<le> 2207"
    by blast
  have "\<not> is_prime u" if "v \<le> u" "u < q" for u
  proof (cases "u = v")
    case True
    with False v(1) show ?thesis by (intro even_not_prime) simp_all
  next
    case ne: False
    with that r(4) show ?thesis by simp
  qed
  with r e show ?thesis by (auto simp: GetFirstPrimeGreaterThanOrEqualTo_cached_def)
qed

text \<open>In the verified range the function returns the least prime from its argument.\<close>

lemma GetFirstPrime_bounded:
  assumes "3 \<le> v" "v \<le> prime_search_bound"
  shows "\<exists>q. GetFirstPrimeGreaterThanOrEqualTo v = Some q \<and> is_prime q \<and> v \<le> q
           \<and> (\<forall>u. v \<le> u \<and> u < q \<longrightarrow> \<not> is_prime u)"
proof -
  have "last [3::nat] \<le> 2207" by simp
  from GetFirstPrime_cached_bounded [OF cache_ok_3 this assms] show ?thesis
    by (auto simp: GetFirstPrimeGreaterThanOrEqualTo_def)
qed

text \<open>In the verified range every cache the function has built gives the same value.\<close>

lemma GetFirstPrime_cache_irrelevant:
  assumes c: "cache_ok primes" "last primes \<le> 2207" and v: "3 \<le> v" "v \<le> prime_search_bound"
  shows "map_option fst (GetFirstPrimeGreaterThanOrEqualTo_cached v primes)
           = GetFirstPrimeGreaterThanOrEqualTo v"
proof -
  from GetFirstPrime_cached_bounded [OF c v]
  obtain q cache where r: "GetFirstPrimeGreaterThanOrEqualTo_cached v primes = Some (q, cache)"
      "is_prime q" "v \<le> q" "\<forall>u. v \<le> u \<and> u < q \<longrightarrow> \<not> is_prime u"
    by blast
  from GetFirstPrime_bounded [OF v]
  obtain q' where r': "GetFirstPrimeGreaterThanOrEqualTo v = Some q'"
      "is_prime q'" "v \<le> q'" "\<forall>u. v \<le> u \<and> u < q' \<longrightarrow> \<not> is_prime u"
    by blast
  have "q = q'" using r(2,3,4) r'(2,3,4) by (metis linorder_neqE_nat)
  with r(1) r'(1) show ?thesis by simp
qed

section \<open>The invariant of the builder\<close>

lemma map_assign_subset: "set (map_assign k v m) \<subseteq> insert (k, v) (set m)"
  by (induction m) auto

lemma reinsert_residue_defIndex:
  assumes "x \<in> set (reinsert_residue s e m entry)"
  shows "x \<in> set m \<or> defIndex (snd x) = defIndex (snd entry)"
proof -
  let ?d = "defIndex (snd entry)"
  let ?v1 = "\<lparr>ev_startAddr = e, defIndex = ?d\<rparr>"
  let ?v2 = "\<lparr>ev_startAddr = ev_startAddr (snd entry), defIndex = ?d\<rparr>"
  have a: "x \<in> set (map_assign k v m') \<Longrightarrow> x = (k, v) \<or> x \<in> set m'" for k v m'
    using map_assign_subset [of k v m'] by auto
  from assms consider "x \<in> set m" | "x \<in> set (map_assign (fst entry) ?v1 m)"
    | "x \<in> set (map_assign (fst entry) ?v1 (map_assign s ?v2 m))" | "x \<in> set (map_assign s ?v2 m)"
    by (auto simp: reinsert_residue_def Let_def split: if_splits)
  then show ?thesis
  proof cases
    case 1
    then show ?thesis by simp
  next
    case 2
    from a [OF this] show ?thesis by auto
  next
    case 3
    from a [OF this] have "x = (fst entry, ?v1) \<or> x \<in> set (map_assign s ?v2 m)" .
    then show ?thesis using a [of s ?v2 m] by auto
  next
    case 4
    from a [OF this] show ?thesis by auto
  qed
qed

lemma foldl_reinsert_defIndex:
  "x \<in> set (foldl (reinsert_residue s e) m xs) \<Longrightarrow>
     x \<in> set m \<or> defIndex (snd x) \<in> (\<lambda>y. defIndex (snd y)) ` set xs"
proof (induction xs arbitrary: m)
  case Nil
  then show ?case by simp
next
  case (Cons a xs)
  from Cons.prems have "x \<in> set (foldl (reinsert_residue s e) (reinsert_residue s e m a) xs)" by simp
  from Cons.IH [OF this] reinsert_residue_defIndex [of x s e m a] show ?case by auto
qed

lemma PU_inv_Init: "PU_inv (PartialUses_Init :: 'a::len word PartialUses)"
  by (simp add: PU_inv_def PartialUses_Init_eq slots_found_def occ_def empty_slot_def)

lemma stored_Init: "stored (entries (PartialUses_Init :: 'a::len word PartialUses)) = {}"
  by (simp add: PartialUses_Init_eq stored_def empty_slot_def)

lemma UdState_Init_inv:
  fixes st :: "'a::len word UdState"
  assumes "UdState_Init n = Inr st"
  shows "UdState_inv st" "uses st = []" "defs st = []" "addressSpace st = []"
    "stored (entries (partialUses st)) = {}"
proof -
  let ?pu = "PartialUses_Init :: 'a word PartialUses"
  from assms obtain pu where pu: "PartialUses_reserve n ?pu = Inr pu"
      "st = \<lparr>uses = [], partialUses = pu, defs = [], addressSpace = []\<rparr>"
    by (auto simp: UdState_Init_def split: sum.splits)
  from pu(1) obtain newSize where ns: "GetFirstPrimeGreaterThanOrEqualTo (n * 2) = Some newSize"
    by (cases "GetFirstPrimeGreaterThanOrEqualTo (n * 2)") (auto simp: PartialUses_reserve_def)
  from GetFirstPrime_ge [OF ns] have pos: "0 < newSize" by (auto elim: oddE)
  from PU_inv_Init [where 'a = 'a] have i0: "slots_found (entries ?pu)" "load ?pu = occ (entries ?pu)"
    by (simp_all add: PU_inv_def)
  have l0: "load ?pu = 0" by (simp add: PartialUses_Init_eq)
  with i0(2) pos have sz: "occ (entries ?pu) < newSize" by simp
  from PartialUses_reserve_ok [OF i0(1) sz ns] pu(1)
  have r: "slots_found (entries pu)" "stored (entries pu) = stored (entries ?pu)"
      "length (entries pu) = newSize" "occ (entries pu) = occ (entries ?pu)" "load pu = load ?pu"
      "maxLoad pu = newSize div 2"
    by auto
  have "PU_inv pu" using r i0(2) l0 pos by (auto simp: PU_inv_def)
  with pu(2) r(2) show "UdState_inv st" "uses st = []" "defs st = []" "addressSpace st = []"
    "stored (entries (partialUses st)) = {}"
    by (simp_all add: UdState_inv_def stored_Init)
qed

lemma AddDef_inv:
  fixes st :: "'a::len word UdState"
  assumes inv: "UdState_inv st" and len: "length (defs st) < 2 ^ 32"
  shows "UdState_inv (AddDef a b st)"
proof -
  have u: "unat (word_of_nat (length (defs st)) :: u32) = length (defs st)"
    using len by (simp add: unat_of_nat)
  have "unat (defIndex (snd x)) < Suc (length (defs st))"
    if "x \<in> set (map_assign b \<lparr>ev_startAddr = a, defIndex = word_of_nat (length (defs st))\<rparr> (addressSpace st))"
    for x
  proof -
    from that map_assign_subset
    have "x = (b, \<lparr>ev_startAddr = a, defIndex = word_of_nat (length (defs st))\<rparr>) \<or> x \<in> set (addressSpace st)"
      by fastforce
    then show ?thesis using u inv by (auto simp: UdState_inv_def less_Suc_eq)
  qed
  then show ?thesis using inv by (auto simp: UdState_inv_def AddDef_def Let_def less_Suc_eq)
qed

lemma AddDefs_inv:
  fixes st :: "'a::len word UdState"
  assumes inv: "UdState_inv st" and len: "length (defs st) < 2 ^ 32"
  shows "UdState_inv (snd (AddDefs a k st))"
proof (cases "fst (AddDefs a k st)")
  case (Some e)
  then have "snd (AddDefs a k st) = st" by (auto simp: AddDefs_def Let_def split: if_splits)
  with inv show ?thesis by simp
next
  case None
  let ?m = "addressSpace st"
  let ?fa = "lower_bound (a + 1) ?m"
  let ?aff = "takeWhile (\<lambda>e. ev_startAddr (snd e) < a + k) ?fa"
  let ?erased = "takeWhile (\<lambda>e. fst e < a + 1) ?m @ dropWhile (\<lambda>e. ev_startAddr (snd e) < a + k) ?fa"
  let ?re = "foldl (reinsert_residue a (a + k)) ?erased ?aff"
  from None have r: "snd (AddDefs a k st) = AddDef a (a + k) (st\<lparr>addressSpace := ?re\<rparr>)"
    by (auto simp: AddDefs_def Let_def split: if_splits)
  have sub1: "set ?fa \<subseteq> set ?m" unfolding lower_bound_def by (rule set_dropWhileD [THEN subsetI]) simp
  have sub2: "set ?aff \<subseteq> set ?m" using set_takeWhileD sub1 by fastforce
  have sub3: "set ?erased \<subseteq> set ?m" using set_takeWhileD set_dropWhileD sub1 by fastforce
  have "unat (defIndex (snd x)) < length (defs st)" if "x \<in> set ?re" for x
  proof -
    from foldl_reinsert_defIndex [OF that]
    consider "x \<in> set ?erased" | y where "y \<in> set ?aff" "defIndex (snd x) = defIndex (snd y)"
      by auto
    then show ?thesis
    proof cases
      case 1
      with sub3 inv show ?thesis by (auto simp: UdState_inv_def)
    next
      case 2
      with sub2 inv show ?thesis by (auto simp: UdState_inv_def)
    qed
  qed
  with inv have "UdState_inv (st\<lparr>addressSpace := ?re\<rparr>)" by (simp add: UdState_inv_def)
  moreover have "length (defs (st\<lparr>addressSpace := ?re\<rparr>)) < 2 ^ 32" using len by simp
  ultimately show ?thesis unfolding r by (rule AddDef_inv)
qed

lemma AddDefs_defs:
  "defs (snd (AddDefs a k st)) = defs st
   \<or> defs (snd (AddDefs a k st)) = defs st @ [\<lparr>startAddr = a, endAddr = a + k\<rparr>]"
  by (simp add: AddDefs_def AddDef_def Let_def)

lemma partial_of_None:
  "partial_of a e ds it = None \<longleftrightarrow>
     startAddr (ds ! unat (defIndex (snd it))) = max a (ev_startAddr (snd it))
     \<and> endAddr (ds ! unat (defIndex (snd it))) = min e (fst it)"
  by (cases "ds ! unat (defIndex (snd it))") (auto simp: partial_of_def Let_def)

lemma partial_of_Some:
  "partial_of a e ds it = Some ov \<Longrightarrow>
     ov = \<lparr>startAddr = max a (ev_startAddr (snd it)), endAddr = min e (fst it)\<rparr>"
  by (auto simp: partial_of_def Let_def split: if_splits)

text \<open>
  One iteration of \<^verbatim>\<open>AddUses\<close> on a well-formed state: the use is appended and the
  partial-use table gains the entry of the new use index exactly when the walked range
  differs from the def; the only failure is a search for a table size that does not return.
\<close>

lemma AddUses_step_cases:
  fixes st :: "'a::len word UdState"
  assumes inv: "UdState_inv st" and it: "it \<in> set (addressSpace st)"
    and len: "length (uses st) < 2 ^ 32 - 1"
  shows "(\<exists>st'. AddUses_step a e it st = Inr st' \<and> UdState_inv st'
            \<and> uses st' = uses st @ [defIndex (snd it)] \<and> defs st' = defs st
            \<and> addressSpace st' = addressSpace st
            \<and> stored (entries (partialUses st')) = stored (entries (partialUses st))
                 \<union> (case partial_of a e (defs st) it of None \<Rightarrow> {}
                     | Some ov \<Rightarrow> {(word_of_nat (length (uses st)), ov)})
            \<and> load (partialUses st) \<le> load (partialUses st')
            \<and> load (partialUses st') \<le> load (partialUses st) + 1)
       \<or> (AddUses_step a e it st = Inl NoReturn
            \<and> GetFirstPrimeGreaterThanOrEqualTo ((load (partialUses st) + 1) * 2 * 2) = None)"
proof -
  let ?u = "word_of_nat (length (uses st)) :: u32"
  let ?st1 = "st\<lparr>uses := uses st @ [defIndex (snd it)]\<rparr>"
  let ?ov = "\<lparr>startAddr = max a (ev_startAddr (snd it)), endAddr = min e (fst it)\<rparr>"
  from inv it have dk: "unat (defIndex (snd it)) < length (defs st)" by (auto simp: UdState_inv_def)
  have uu: "unat ?u = length (uses st)" using len by (simp add: unat_of_nat)
  have un: "?u \<noteq> kNoUse"
  proof
    assume "?u = kNoUse"
    then have "unat ?u = unat (- 1 :: u32)" by (simp add: kNoUse_def)
    with uu len show False by (simp add: unsigned_minus_1_eq_mask mask_eq_exp_minus_1)
  qed
  have inv1: "UdState_inv ?st1" using inv dk by (auto simp: UdState_inv_def less_Suc_eq)
  show ?thesis
  proof (cases "partial_of a e (defs st) it")
    case None
    then have "AddUses_step a e it st = Inr ?st1"
      using dk by (simp add: AddUses_step_def Let_def partial_of_None)
    with inv1 None show ?thesis by simp
  next
    case (Some ov)
    from partial_of_Some [OF Some] have ov: "ov = ?ov" .
    from Some have ne: "startAddr (defs st ! unat (defIndex (snd it))) \<noteq> max a (ev_startAddr (snd it))
        \<or> endAddr (defs st ! unat (defIndex (snd it))) \<noteq> min e (fst it)"
      using partial_of_None [of a e "defs st" it] by auto
    have s: "AddUses_step a e it st =
        (case PartialUses_set ?u ?ov (partialUses st) of Inl err \<Rightarrow> Inl err
         | Inr pu \<Rightarrow> Inr (?st1\<lparr>partialUses := pu\<rparr>))"
      using dk ne by (auto simp: AddUses_step_def Let_def)
    from inv have pi: "PU_inv (partialUses st)" by (simp add: UdState_inv_def)
    have fresh: "{p \<in> stored (entries (partialUses st)). fst p \<noteq> ?u} = stored (entries (partialUses st))"
      using inv uu by (auto simp: UdState_inv_def)
    from PartialUses_set_ok [OF pi un, of ?ov] show ?thesis
    proof (elim disjE exE conjE)
      fix pu'
      assume r: "PartialUses_set ?u ?ov (partialUses st) = Inr pu'" "PU_inv pu'"
        "stored (entries pu') = insert (?u, ?ov) {p \<in> stored (entries (partialUses st)). fst p \<noteq> ?u}"
        "load (partialUses st) \<le> load pu'" "load pu' \<le> load (partialUses st) + 1"
      let ?st' = "?st1\<lparr>partialUses := pu'\<rparr>"
      have "UdState_inv ?st'"
        using inv1 r(2,3) uu fresh by (auto simp: UdState_inv_def less_Suc_eq)
      moreover have "AddUses_step a e it st = Inr ?st'" using s r(1) by simp
      moreover have "stored (entries (partialUses ?st')) = stored (entries (partialUses st))
                 \<union> (case partial_of a e (defs st) it of None \<Rightarrow> {}
                     | Some ov \<Rightarrow> {(word_of_nat (length (uses st)), ov)})"
        using r(3) fresh Some ov by auto
      ultimately show ?thesis using r(4,5) by auto
    next
      assume "PartialUses_set ?u ?ov (partialUses st) = Inl NoReturn"
        "GetFirstPrimeGreaterThanOrEqualTo ((load (partialUses st) + 1) * 2 * 2) = None"
      with s show ?thesis by simp
    qed
  qed
qed

lemma written_Nil: "written a e ds n [] = {}"
  by (simp add: written_def)

lemma written_Cons:
  "written a e ds n (it # its) =
     (case partial_of a e ds it of None \<Rightarrow> {} | Some ov \<Rightarrow> {(word_of_nat n, ov)})
     \<union> written a e ds (Suc n) its"
proof (rule set_eqI)
  fix p
  show "p \<in> written a e ds n (it # its) \<longleftrightarrow>
     p \<in> (case partial_of a e ds it of None \<Rightarrow> {} | Some ov \<Rightarrow> {(word_of_nat n, ov)})
        \<union> written a e ds (Suc n) its"
  proof
    assume "p \<in> written a e ds n (it # its)"
    then obtain j ov where j: "p = (word_of_nat (n + j), ov)" "j < length (it # its)"
        "partial_of a e ds ((it # its) ! j) = Some ov"
      by (auto simp: written_def)
    show "p \<in> (case partial_of a e ds it of None \<Rightarrow> {} | Some ov \<Rightarrow> {(word_of_nat n, ov)})
        \<union> written a e ds (Suc n) its"
    proof (cases j)
      case 0
      with j show ?thesis by simp
    next
      case (Suc j')
      with j have "p = (word_of_nat (Suc n + j'), ov)" "j' < length its"
          "partial_of a e ds (its ! j') = Some ov"
        by simp_all
      then have "p \<in> written a e ds (Suc n) its" unfolding written_def by blast
      then show ?thesis by simp
    qed
  next
    assume "p \<in> (case partial_of a e ds it of None \<Rightarrow> {} | Some ov \<Rightarrow> {(word_of_nat n, ov)})
        \<union> written a e ds (Suc n) its"
    then consider ov where "partial_of a e ds it = Some ov" "p = (word_of_nat n, ov)"
      | "p \<in> written a e ds (Suc n) its"
      by (auto split: option.splits)
    then show "p \<in> written a e ds n (it # its)"
    proof cases
      case 1
      then have "p = (word_of_nat (n + 0), ov)" "0 < length (it # its)"
          "partial_of a e ds ((it # its) ! 0) = Some ov"
        by simp_all
      then show ?thesis unfolding written_def by blast
    next
      case 2
      then obtain j ov where j: "p = (word_of_nat (Suc n + j), ov)" "j < length its"
          "partial_of a e ds (its ! j) = Some ov"
        by (auto simp: written_def)
      then have "p = (word_of_nat (n + Suc j), ov)" "Suc j < length (it # its)"
          "partial_of a e ds ((it # its) ! Suc j) = Some ov"
        by simp_all
      then show ?thesis unfolding written_def by blast
    qed
  qed
qed

lemma AddUses_loop_cases:
  fixes st :: "'a::len word UdState"
  assumes inv: "UdState_inv st" and its: "set its \<subseteq> set (addressSpace st)"
    and len: "length (uses st) + length its < 2 ^ 32"
  shows "(\<exists>st'. AddUses_loop a e its st = Inr st' \<and> UdState_inv st'
            \<and> uses st' = uses st @ map (\<lambda>it. defIndex (snd it)) its \<and> defs st' = defs st
            \<and> addressSpace st' = addressSpace st
            \<and> stored (entries (partialUses st')) = stored (entries (partialUses st))
                 \<union> written a e (defs st) (length (uses st)) its
            \<and> load (partialUses st) \<le> load (partialUses st')
            \<and> load (partialUses st') \<le> load (partialUses st) + length its)
       \<or> (\<exists>n. AddUses_loop a e its st = Inl NoReturn
            \<and> load (partialUses st) < n \<and> n \<le> load (partialUses st) + length its
            \<and> GetFirstPrimeGreaterThanOrEqualTo (n * 2 * 2) = None)"
  using assms
proof (induction its arbitrary: st)
  case Nil
  then show ?case by (simp add: written_Nil)
next
  case (Cons it its)
  from Cons.prems(2) have it: "it \<in> set (addressSpace st)" by simp
  from Cons.prems(3) have l1: "length (uses st) < 2 ^ 32 - 1" by simp
  from AddUses_step_cases [OF Cons.prems(1) it l1, of a e] show ?case
  proof (elim disjE exE conjE)
    fix st1
    assume s: "AddUses_step a e it st = Inr st1" "UdState_inv st1"
      "uses st1 = uses st @ [defIndex (snd it)]" "defs st1 = defs st"
      "addressSpace st1 = addressSpace st"
      "stored (entries (partialUses st1)) = stored (entries (partialUses st))
         \<union> (case partial_of a e (defs st) it of None \<Rightarrow> {}
             | Some ov \<Rightarrow> {(word_of_nat (length (uses st)), ov)})"
      "load (partialUses st) \<le> load (partialUses st1)"
      "load (partialUses st1) \<le> load (partialUses st) + 1"
    have its1: "set its \<subseteq> set (addressSpace st1)" using Cons.prems(2) s(5) by simp
    have len1: "length (uses st1) + length its < 2 ^ 32" using Cons.prems(3) s(3) by simp
    from Cons.IH [OF s(2) its1 len1] show ?thesis
    proof (elim disjE exE conjE)
      fix st'
      assume r: "AddUses_loop a e its st1 = Inr st'" "UdState_inv st'"
        "uses st' = uses st1 @ map (\<lambda>it. defIndex (snd it)) its" "defs st' = defs st1"
        "addressSpace st' = addressSpace st1"
        "stored (entries (partialUses st')) = stored (entries (partialUses st1))
           \<union> written a e (defs st1) (length (uses st1)) its"
        "load (partialUses st1) \<le> load (partialUses st')"
        "load (partialUses st') \<le> load (partialUses st1) + length its"
      have "AddUses_loop a e (it # its) st = Inr st'" using s(1) r(1) by simp
      moreover have "stored (entries (partialUses st')) = stored (entries (partialUses st))
                 \<union> written a e (defs st) (length (uses st)) (it # its)"
        unfolding r(6) s(6) written_Cons using s(3,4) by (simp add: Un_assoc)
      ultimately show ?thesis using r(2,3,4,5,7,8) s(3,4,5,7,8) by auto
    next
      fix n
      assume r: "AddUses_loop a e its st1 = Inl NoReturn" "load (partialUses st1) < n"
        "n \<le> load (partialUses st1) + length its"
        "GetFirstPrimeGreaterThanOrEqualTo (n * 2 * 2) = None"
      have "AddUses_loop a e (it # its) st = Inl NoReturn" using s(1) r(1) by simp
      moreover have "load (partialUses st) < n" "n \<le> load (partialUses st) + length (it # its)"
        using r(2,3) s(7,8) by simp_all
      ultimately show ?thesis using r(4) by blast
    qed
  next
    assume f: "AddUses_step a e it st = Inl NoReturn"
      "GetFirstPrimeGreaterThanOrEqualTo ((load (partialUses st) + 1) * 2 * 2) = None"
    then have "AddUses_loop a e (it # its) st = Inl NoReturn" by simp
    moreover have "load (partialUses st) < load (partialUses st) + 1"
      "load (partialUses st) + 1 \<le> load (partialUses st) + length (it # its)"
      by simp_all
    ultimately show ?thesis using f(2) by blast
  qed
qed

lemma affected_entries_subset: "set (affected_entries a e m) \<subseteq> set m"
proof -
  have "set (lower_bound (a + 1) m) \<subseteq> set m"
    unfolding lower_bound_def using set_dropWhileD by fastforce
  then show ?thesis unfolding affected_entries_def using set_takeWhileD by fastforce
qed

lemma AddUses_step_uses:
  "AddUses_step a e it st = Inr st' \<Longrightarrow> uses st' = uses st @ [defIndex (snd it)] \<and> defs st' = defs st"
  by (auto simp: AddUses_step_def Let_def split: if_splits sum.splits)

lemma AddUses_loop_uses:
  "AddUses_loop a e its st = Inr st' \<Longrightarrow>
     uses st' = uses st @ map (\<lambda>it. defIndex (snd it)) its \<and> defs st' = defs st"
proof (induction its arbitrary: st)
  case Nil
  then show ?case by simp
next
  case (Cons it its)
  then obtain st1 where s: "AddUses_step a e it st = Inr st1" "AddUses_loop a e its st1 = Inr st'"
    by (auto split: sum.splits)
  from AddUses_step_uses [OF s(1)] Cons.IH [OF s(2)] show ?case by simp
qed

text \<open>What a returning \<^verbatim>\<open>AddUses\<close> leaves, for the invariants of the builder.\<close>

lemma AddUses_inv:
  fixes st :: "'a::len word UdState"
  assumes inv: "UdState_inv st" and r: "AddUses a k st = Inr st'"
    and len: "length (uses st') < 2 ^ 32"
  shows "UdState_inv st'" "defs st' = defs st" "\<exists>new. uses st' = uses st @ new"
proof -
  let ?its = "affected_entries a (a + k) (addressSpace st)"
  from r have l: "AddUses_loop a (a + k) ?its st = Inr st'" by (simp add: AddUses_def Let_def)
  note u = AddUses_loop_uses [OF l]
  from u len have b: "length (uses st) + length ?its < 2 ^ 32" by simp
  from AddUses_loop_cases [OF inv affected_entries_subset b, of a "a + k"] l
  show "UdState_inv st'" by auto
  from u show "defs st' = defs st" "\<exists>new. uses st' = uses st @ new" by auto
qed

lemma sizes_le_refl: "sizes_le ud ud"
  by (simp add: sizes_le_def)

lemma sizes_le_trans: "sizes_le a b \<Longrightarrow> sizes_le b c \<Longrightarrow> sizes_le a c"
  by (auto simp: sizes_le_def)

lemma sizes_ok_mono: "sizes_le a b \<Longrightarrow> sizes_ok b \<Longrightarrow> sizes_ok a"
  by (auto simp: sizes_le_def sizes_ok_def)

lemma space_inv_snoc:
  fixes st :: "'a::len word UdState"
  assumes inv: "space_inv ss st" and lu: "length (uses st) < 2 ^ 32" and ld: "length (defs st) < 2 ^ 32"
  shows "space_inv (ss @ [(word_of_nat (length (uses st)), word_of_nat (length (defs st)))]) st"
proof -
  let ?u = "word_of_nat (length (uses st)) :: u32"
  let ?d = "word_of_nat (length (defs st)) :: u32"
  have uu: "unat ?u = length (uses st)" using lu by (simp add: unat_of_nat)
  have ud: "unat ?d = length (defs st)" using ld by (simp add: unat_of_nat)
  from inv have i: "UdState_inv st" "ss \<noteq> []" "hd ss = (0, 0)" "sorted (map fst ss)"
      "sorted (map snd ss)"
      "\<forall>s \<in> set ss. unat (fst s) \<le> length (uses st) \<and> unat (snd s) \<le> length (defs st)"
      "\<forall>s \<in> set ss. \<forall>u < unat (fst s). unat (uses st ! u) < unat (snd s)"
    by (simp_all add: space_inv_def)
  have s1: "sorted (map fst (ss @ [(?u, ?d)]))"
    using i(4,6) uu by (auto simp: sorted_append word_le_nat_alt)
  have s2: "sorted (map snd (ss @ [(?u, ?d)]))"
    using i(5,6) ud by (auto simp: sorted_append word_le_nat_alt)
  have j: "\<forall>u < unat ?u. unat (uses st ! u) < unat ?d"
    using i(1) uu ud by (auto simp: UdState_inv_def)
  show ?thesis
    unfolding space_inv_def using i s1 s2 j uu ud by auto
qed

lemma space_inv_AddUses:
  fixes st :: "'a::len word UdState"
  assumes inv: "space_inv ss st" and r: "AddUses a k st = Inr st'" and len: "length (uses st') < 2 ^ 32"
  shows "space_inv ss st'"
proof -
  from inv have i: "UdState_inv st" by (simp add: space_inv_def)
  from AddUses_inv [OF i r len] obtain new where n: "UdState_inv st'" "defs st' = defs st"
      "uses st' = uses st @ new"
    by blast
  have "unat (uses st' ! u) < unat (snd s)" if "s \<in> set ss" "u < unat (fst s)" for s u
  proof -
    from inv that have "u < length (uses st)" "unat (uses st ! u) < unat (snd s)"
      by (auto simp: space_inv_def)
    then show ?thesis using n(3) by (simp add: nth_append)
  qed
  then show ?thesis using inv n unfolding space_inv_def by auto
qed

lemma space_inv_AddDefs:
  fixes st :: "'a::len word UdState"
  assumes inv: "space_inv ss st" and len: "length (defs (snd (AddDefs a k st))) < 2 ^ 32"
  shows "space_inv ss (snd (AddDefs a k st))"
proof -
  from inv have i: "UdState_inv st" by (simp add: space_inv_def)
  from AddDefs_defs [of a k st] len have l: "length (defs st) < 2 ^ 32"
    "length (defs st) \<le> length (defs (snd (AddDefs a k st)))"
    by auto
  from AddDefs_inv [OF i l(1)] have n: "UdState_inv (snd (AddDefs a k st))" .
  show ?thesis
    using inv n l(2) unfolding space_inv_def by (auto simp: AddDefs_snd_fields)
qed

lemma map_butlast_last_update:
  assumes "xs \<noteq> []" "f (g (last xs)) = f (last xs)"
  shows "map f (butlast xs @ [g (last xs)]) = map f xs"
proof -
  have "map f (butlast xs @ [g (last xs)]) = map f (butlast xs @ [last xs])" using assms(2) by simp
  with assms(1) show ?thesis by simp
qed

lemma Flush_keeps:
  assumes "Flush ud = Inr ud'"
  shows "starts_reg ud' = starts_reg ud" "starts_mem ud' = starts_mem ud"
    "regState ud' = regState ud" "memState ud' = memState ud"
    "length (trace ud') = length (trace ud)" "trace ud \<noteq> []"
proof -
  from assms have ne: "trace ud \<noteq> []" by (auto simp: Flush_def split: if_splits)
  with assms have t: "trace ud' = butlast (trace ud) @
        [(last (trace ud))
           \<lparr>regUseEndIndex := word_of_nat (length (uses (regState ud))),
            memUseEndIndex := word_of_nat (length (uses (memState ud))),
            regDefEndIndex := word_of_nat (length (defs (regState ud))),
            memDefEndIndex := word_of_nat (length (defs (memState ud)))\<rparr>]"
    and s: "regState ud' = regState ud" "memState ud' = memState ud"
    by (auto simp: Flush_def)
  show "starts_reg ud' = starts_reg ud" unfolding starts_reg_def t
    by (rule map_butlast_last_update [OF ne]) simp
  show "starts_mem ud' = starts_mem ud" unfolding starts_mem_def t
    by (rule map_butlast_last_update [OF ne]) simp
  show "regState ud' = regState ud" "memState ud' = memState ud" by (rule s)+
  show "length (trace ud') = length (trace ud)" unfolding t using ne by simp
  show "trace ud \<noteq> []" by (rule ne)
qed

lemma AddTrace_keeps:
  "starts_reg (AddTrace c ud) = starts_reg ud @
     [(word_of_nat (length (uses (regState ud))), word_of_nat (length (defs (regState ud))))]"
  "starts_mem (AddTrace c ud) = starts_mem ud @
     [(word_of_nat (length (uses (memState ud))), word_of_nat (length (defs (memState ud))))]"
  "regState (AddTrace c ud) = regState ud" "memState (AddTrace c ud) = memState ud"
  "length (trace (AddTrace c ud)) = Suc (length (trace ud))"
  by (simp_all add: AddTrace_def starts_reg_def starts_mem_def)

lemma HandleInsnSeq_keeps:
  assumes "HandleInsnSeq q ud = Inr ud'"
  shows "regState ud' = regState ud" "memState ud' = memState ud"
    "length (trace ud) \<le> length (trace ud')"
proof -
  have "regState ud' = regState ud \<and> memState ud' = memState ud
      \<and> length (trace ud) \<le> length (trace ud')"
  proof (cases "codeIndex (last (trace ud)) = q")
    case True
    with assms have "ud' = ud" by (auto simp: HandleInsnSeq_def split: if_splits)
    then show ?thesis by simp
  next
    case False
    with assms obtain ud1 where f: "Flush ud = Inr ud1" "ud' = AddTrace q ud1"
      by (auto simp: HandleInsnSeq_def split: if_splits sum.splits)
    from Flush_keeps(3,4,5) [OF f(1)] show ?thesis unfolding f(2) by (simp add: AddTrace_keeps)
  qed
  then show "regState ud' = regState ud" "memState ud' = memState ud"
    "length (trace ud) \<le> length (trace ud')"
    by simp_all
qed

lemma HandleInsnSeq_inv:
  fixes ud :: "'a::len word Ud"
  assumes inv: "Ud_inv ud" and r: "HandleInsnSeq q ud = Inr ud'" and sz: "sizes_ok ud"
  shows "Ud_inv ud'"
proof (cases "codeIndex (last (trace ud)) = q")
  case True
  with r have "ud' = ud" by (auto simp: HandleInsnSeq_def split: if_splits)
  with inv show ?thesis by simp
next
  case False
  with r obtain ud1 where f: "Flush ud = Inr ud1" "ud' = AddTrace q ud1"
    by (auto simp: HandleInsnSeq_def split: if_splits sum.splits)
  note k = Flush_keeps [OF f(1)]
  from inv have "space_inv (starts_reg ud1) (regState ud1)" "space_inv (starts_mem ud1) (memState ud1)"
    by (simp_all add: Ud_inv_def k)
  moreover from sz have "length (uses (regState ud1)) < 2 ^ 32" "length (defs (regState ud1)) < 2 ^ 32"
      "length (uses (memState ud1)) < 2 ^ 32" "length (defs (memState ud1)) < 2 ^ 32"
    by (simp_all add: sizes_ok_def k)
  ultimately show ?thesis
    unfolding f(2) Ud_inv_def AddTrace_keeps by (auto intro: space_inv_snoc)
qed

lemma on_memState_AddUses:
  "on_memState (AddUses a k) ud = Inr ud' \<Longrightarrow>
     \<exists>st'. AddUses a k (memState ud) = Inr st' \<and> ud' = ud\<lparr>memState := st'\<rparr>"
  by (cases "AddUses a k (memState ud)") (auto simp: on_memState_def)

lemma on_regState_AddUses:
  "on_regState (AddUses a k) ud = Inr ud' \<Longrightarrow>
     \<exists>st'. AddUses a k (regState ud) = Inr st' \<and> ud' = ud\<lparr>regState := st'\<rparr>"
  by (cases "AddUses a k (regState ud)") (auto simp: on_regState_def)

lemma on_memState_AddDefs:
  "on_memState (\<lambda>st. returned (AddDefs a k st)) ud = Inr ud' \<Longrightarrow>
     ud' = ud\<lparr>memState := snd (AddDefs a k (memState ud))\<rparr>"
  by (cases "fst (AddDefs a k (memState ud))") (auto simp: on_memState_def returned_def)

lemma on_regState_AddDefs:
  "on_regState (\<lambda>st. returned (AddDefs a k st)) ud = Inr ud' \<Longrightarrow>
     ud' = ud\<lparr>regState := snd (AddDefs a k (regState ud))\<rparr>"
  by (cases "fst (AddDefs a k (regState ud))") (auto simp: on_regState_def returned_def)

lemma Ud_LdStEntry_step:
  fixes ud :: "'a::len word Ud"
  assumes "Ud_LdStEntry E bytes p ud = Inr ud'"
  shows "record_step ud ud'"
proof -
  from assms obtain q ud1 tag where h: "HandleInsnSeq q ud = Inr ud1" "Tlv_GetTag E bytes p = Inr tag"
      "Entry_GetInsnSeq E bytes p = Inr q"
    by (auto simp: Ud_LdStEntry_def split: sum.splits)
  show ?thesis
  proof (cases "tag = MT_REG")
    case True
    with assms h have "ud' = ud1" by (auto simp: Ud_LdStEntry_def split: sum.splits)
    with h(1) show ?thesis unfolding record_step_def by blast
  next
    case False
    with assms h obtain a k :: "'a word" where
      r: "(if tag = MT_LOAD then on_memState (AddUses a k) ud1
           else if tag = MT_STORE then on_memState (\<lambda>st. returned (AddDefs a k st)) ud1
           else if tag = MT_GET_REG then on_regState (AddUses a k) ud1
           else on_regState (\<lambda>st. returned (AddDefs a k st)) ud1) = Inr ud'"
      by (auto simp: Ud_LdStEntry_def split: sum.splits if_splits)
    consider "on_memState (AddUses a k) ud1 = Inr ud'"
      | "on_memState (\<lambda>st. returned (AddDefs a k st)) ud1 = Inr ud'"
      | "on_regState (AddUses a k) ud1 = Inr ud'"
      | "on_regState (\<lambda>st. returned (AddDefs a k st)) ud1 = Inr ud'"
      using r by (auto split: if_splits)
    then show ?thesis
    proof cases
      case 1
      from on_memState_AddUses [OF this] h(1) show ?thesis unfolding record_step_def by blast
    next
      case 2
      from on_memState_AddDefs [OF this] h(1) show ?thesis unfolding record_step_def by blast
    next
      case 3
      from on_regState_AddUses [OF this] h(1) show ?thesis unfolding record_step_def by blast
    next
      case 4
      from on_regState_AddDefs [OF this] h(1) show ?thesis unfolding record_step_def by blast
    qed
  qed
qed

lemma Ud_LdStNxEntry_step:
  fixes ud :: "'a::len word Ud"
  assumes "Ud_LdStNxEntry E bytes p ud = Inr ud'"
  shows "record_step ud ud'"
proof -
  from assms obtain q ud1 tag and a k :: "'a word" where h: "HandleInsnSeq q ud = Inr ud1"
      "(if tag = MT_GET_REG_NX then on_regState (AddUses a k) ud1
        else on_regState (\<lambda>st. returned (AddDefs a k st)) ud1) = Inr ud'"
    by (auto simp: Ud_LdStNxEntry_def split: sum.splits if_splits)
  consider "on_regState (AddUses a k) ud1 = Inr ud'"
    | "on_regState (\<lambda>st. returned (AddDefs a k st)) ud1 = Inr ud'"
    using h(2) by (auto split: if_splits)
  then show ?thesis
  proof cases
    case 1
    from on_regState_AddUses [OF this] h(1) show ?thesis unfolding record_step_def by blast
  next
    case 2
    from on_regState_AddDefs [OF this] h(1) show ?thesis unfolding record_step_def by blast
  qed
qed

lemma Ud_InsnEntry_keeps:
  "Ud_InsnEntry cs E bytes p ud = Inr ud' \<Longrightarrow>
     trace ud' = trace ud \<and> regState ud' = regState ud \<and> memState ud' = memState ud"
  by (auto simp: Ud_InsnEntry_def split: sum.splits if_splits)

lemma Ud_visit_step:
  fixes ud :: "'a::len word Ud"
  assumes "Ud_visit cs E bytes i entry ud = Inr ud'"
  shows "record_step ud ud'"
proof (cases entry)
  case (LdStEntry p)
  with assms show ?thesis by (simp add: Ud_visit_def Ud_LdStEntry_step)
next
  case (InsnEntry p)
  with assms Ud_InsnEntry_keeps [of cs E bytes p ud ud'] show ?thesis
    by (simp add: Ud_visit_def record_step_def)
next
  case (InsnExecEntry p)
  with assms obtain q where "HandleInsnSeq q ud = Inr ud'"
    by (auto simp: Ud_visit_def split: sum.splits)
  then show ?thesis unfolding record_step_def by blast
next
  case (LdStNxEntry p)
  with assms show ?thesis by (simp add: Ud_visit_def Ud_LdStNxEntry_step)
next
  case (MmapEntry p)
  with assms show ?thesis by (simp add: Ud_visit_def record_step_def)
qed

lemma record_step_sizes:
  fixes ud :: "'a::len word Ud"
  assumes "record_step ud ud'"
  shows "sizes_le ud ud'"
proof -
  have d: "length (defs st) \<le> length (defs (snd (AddDefs a k st)))" for a k and st :: "'a word UdState"
    using AddDefs_defs [of a k st] by auto
  have u: "AddUses a k st = Inr st' \<Longrightarrow>
      length (uses st) \<le> length (uses st') \<and> defs st' = defs st" for a k and st st' :: "'a word UdState"
    using AddUses_loop_uses [of a "a + k" "affected_entries a (a + k) (addressSpace st)" st st']
    by (simp add: AddUses_def Let_def)
  from assms show ?thesis
    unfolding record_step_def sizes_le_def
    using HandleInsnSeq_keeps d u by (fastforce simp: AddDefs_snd_fields)
qed

lemma record_step_inv:
  fixes ud :: "'a::len word Ud"
  assumes st: "record_step ud ud'" and inv: "Ud_inv ud" and sz: "sizes_ok ud'"
  shows "Ud_inv ud'"
proof -
  from sizes_ok_mono [OF record_step_sizes [OF st] sz] have sz0: "sizes_ok ud" .
  from st consider "trace ud' = trace ud" "regState ud' = regState ud" "memState ud' = memState ud"
    | q ud1 where "HandleInsnSeq q ud = Inr ud1" "ud' = ud1"
    | q ud1 a k st' where "HandleInsnSeq q ud = Inr ud1" "AddUses a k (memState ud1) = Inr st'"
        "ud' = ud1\<lparr>memState := st'\<rparr>"
    | q ud1 a k where "HandleInsnSeq q ud = Inr ud1"
        "ud' = ud1\<lparr>memState := snd (AddDefs a k (memState ud1))\<rparr>"
    | q ud1 a k st' where "HandleInsnSeq q ud = Inr ud1" "AddUses a k (regState ud1) = Inr st'"
        "ud' = ud1\<lparr>regState := st'\<rparr>"
    | q ud1 a k where "HandleInsnSeq q ud = Inr ud1"
        "ud' = ud1\<lparr>regState := snd (AddDefs a k (regState ud1))\<rparr>"
    unfolding record_step_def by blast
  then show ?thesis
  proof cases
    case 1
    with inv show ?thesis by (simp add: Ud_inv_def starts_reg_def starts_mem_def)
  next
    case 2
    with HandleInsnSeq_inv [OF inv _ sz0] show ?thesis by simp
  next
    case 3
    from HandleInsnSeq_inv [OF inv 3(1) sz0] have i1: "Ud_inv ud1" .
    from sz 3(3) have "length (uses st') < 2 ^ 32" by (simp add: sizes_ok_def)
    from space_inv_AddUses [OF _ 3(2) this] i1 show ?thesis
      unfolding 3(3) by (simp add: Ud_inv_def starts_reg_def starts_mem_def)
  next
    case 4
    from HandleInsnSeq_inv [OF inv 4(1) sz0] have i1: "Ud_inv ud1" .
    from sz 4(2) have "length (defs (snd (AddDefs a k (memState ud1)))) < 2 ^ 32"
      by (simp add: sizes_ok_def)
    from space_inv_AddDefs [OF _ this] i1 show ?thesis
      unfolding 4(2) by (simp add: Ud_inv_def starts_reg_def starts_mem_def)
  next
    case 5
    from HandleInsnSeq_inv [OF inv 5(1) sz0] have i1: "Ud_inv ud1" .
    from sz 5(3) have "length (uses st') < 2 ^ 32" by (simp add: sizes_ok_def)
    from space_inv_AddUses [OF _ 5(2) this] i1 show ?thesis
      unfolding 5(3) by (simp add: Ud_inv_def starts_reg_def starts_mem_def)
  next
    case 6
    from HandleInsnSeq_inv [OF inv 6(1) sz0] have i1: "Ud_inv ud1" .
    from sz 6(2) have "length (defs (snd (AddDefs a k (regState ud1)))) < 2 ^ 32"
      by (simp add: sizes_ok_def)
    from space_inv_AddDefs [OF _ this] i1 show ?thesis
      unfolding 6(2) by (simp add: Ud_inv_def starts_reg_def starts_mem_def)
  qed
qed

lemma VisitOne_visitor:
  assumes "VisitOne w E s e visit tv = Inr tv'"
  shows "snd tv' = snd tv \<or> (\<exists>i entry. visit E (data (fst tv)) i entry (snd tv) = Inr (snd tv'))"
  using assms
  by (auto simp: VisitOne_def Let_def split: if_splits sum.splits option.splits)

text \<open>\<^verbatim>\<open>Ud::Init\<close> establishes the invariant.\<close>

lemma Ud_Init_inv:
  fixes ud :: "'a::len word Ud"
  assumes "Ud_Init cs m E n = Inr ud"
  shows "Ud_inv ud"
proof -
  from assms obtain r0 m0 :: "'a word UdState" where
    i: "UdState_Init (n div 10) = Inr r0" "UdState_Init (n div 20) = Inr m0"
    and t: "starts_reg ud = [(0, 0)]" "starts_mem ud = [(0, 0)]"
    and s: "regState ud = AddDef 0 (- 1) r0" "memState ud = AddDef 0 (- 1) m0"
    by (auto simp: Ud_Init_def Let_def AddTrace_def starts_reg_def starts_mem_def UdState_Init_inv
          split: sum.splits)
  have "space_inv [(0, 0)] (AddDef 0 (- 1) st)" if "UdState_Init k = Inr st"
    for k and st :: "'a word UdState"
  proof -
    note u = UdState_Init_inv [OF that]
    from u(3) have "length (defs st) < 2 ^ 32" by simp
    from AddDef_inv [OF u(1) this] show ?thesis by (simp add: space_inv_def)
  qed
  with i t s show ?thesis by (simp add: Ud_inv_def)
qed

text \<open>The loop over the records keeps the invariant while the vectors stay in range.\<close>

lemma Visit_loop_inv:
  fixes tv :: "TraceMm \<times> 'a::len word Ud"
  assumes "Visit_loop w E s e (Ud_visit cs) tv = Some (Inr r)"
  shows "sizes_le (snd tv) (snd r) \<and> (Ud_inv (snd tv) \<longrightarrow> sizes_ok (snd r) \<longrightarrow> Ud_inv (snd r))"
proof -
  let ?P = "\<lambda>(w :: 'b itself) (E :: Endianness) (s :: nat) (e :: nat) (visit :: 'a word Ud visitor)
      (tv :: TraceMm \<times> 'a word Ud) (y :: error + TraceMm \<times> 'a word Ud).
      visit = Ud_visit cs \<longrightarrow> (\<forall>r. y = Inr r \<longrightarrow>
        sizes_le (snd tv) (snd r) \<and> (Ud_inv (snd tv) \<longrightarrow> sizes_ok (snd r) \<longrightarrow> Ud_inv (snd r)))"
  have "?P w E s e (Ud_visit cs) tv (Inr r)"
  proof (rule Visit_loop.raw_induct [where P = ?P, OF _ assms])
    fix loop :: "'b itself \<Rightarrow> Endianness \<Rightarrow> nat \<Rightarrow> nat \<Rightarrow> 'a word Ud visitor
        \<Rightarrow> TraceMm \<times> 'a word Ud \<Rightarrow> (error + TraceMm \<times> 'a word Ud) option"
      and w E s e visit tv y
    assume IH: "\<And>w E s e visit tv y. loop w E s e visit tv = Some y \<Longrightarrow> ?P w E s e visit tv y"
      and eq: "(if cur (fst tv) = length (data (fst tv)) then Some (Inr tv)
           else case VisitOne w E s e visit tv of Inl e \<Rightarrow> Some (Inl e)
                | Inr tv' \<Rightarrow> loop w E s e visit tv') = Some y"
    show "?P w E s e visit tv y"
    proof (intro impI allI)
      fix r
      assume v: "visit = Ud_visit cs" and y: "y = Inr r"
      show "sizes_le (snd tv) (snd r) \<and> (Ud_inv (snd tv) \<longrightarrow> sizes_ok (snd r) \<longrightarrow> Ud_inv (snd r))"
      proof (cases "cur (fst tv) = length (data (fst tv))")
        case True
        with eq y have "r = tv" by simp
        then show ?thesis by (simp add: sizes_le_refl)
      next
        case False
        with eq y obtain tv1 where o: "VisitOne w E s e visit tv = Inr tv1"
            "loop w E s e visit tv1 = Some (Inr r)"
          by (auto split: sum.splits)
        from IH [OF o(2)] v
        have ih: "sizes_le (snd tv1) (snd r)" "Ud_inv (snd tv1) \<Longrightarrow> sizes_ok (snd r) \<Longrightarrow> Ud_inv (snd r)"
          by auto
        from VisitOne_visitor [OF o(1)] v
        have st: "snd tv1 = snd tv \<or> record_step (snd tv) (snd tv1)"
          using Ud_visit_step by blast
        then have sl: "sizes_le (snd tv) (snd tv1)"
          using record_step_sizes sizes_le_refl by auto
        have "Ud_inv (snd r)" if a: "Ud_inv (snd tv)" "sizes_ok (snd r)"
        proof -
          from sizes_ok_mono [OF ih(1) a(2)] have "sizes_ok (snd tv1)" .
          with st a(1) record_step_inv have "Ud_inv (snd tv1)" by auto
          from ih(2) [OF this a(2)] show ?thesis .
        qed
        with sizes_le_trans [OF sl ih(1)] show ?thesis by blast
      qed
    qed
  qed
  then show ?thesis by simp
qed

text \<open>
  Every graph the builder returns for a trace satisfies the invariant, as long as its vectors
  are within the range of the 32-bit indices.
\<close>

lemma built_inv:
  fixes ud :: "'a::len word Ud"
  assumes b: "CreateAndVisit_Ud cs E start end' bytes = Some (Inr ud)" and sz: "sizes_ok ud"
  shows "Ud_inv ud" "trace ud \<noteq> []"
proof -
  from b obtain t where t: "Ud_Visit cs E start end' t = Some (Inr ud)"
    by (auto simp: CreateAndVisit_Ud_def split: sum.splits)
  then obtain m ud0 r where
    i: "Ud_Init cs m E (length (data t) div 128) = Inr (ud0 :: 'a word Ud)"
    and l: "Visit_loop TYPE('a) E start end' (Ud_visit cs) (t, ud0) = Some (Inr r)"
    and c: "Ud_Complete (snd r) = Inr ud"
    by (auto simp: Ud_Visit_def split: sum.splits option.splits)
  from c have f: "Flush (snd r) = Inr ud" by (simp add: Ud_Complete_def)
  note k = Flush_keeps [OF f]
  from sz k have sr: "sizes_ok (snd r)" by (simp add: sizes_ok_def)
  from Visit_loop_inv [OF l] Ud_Init_inv [OF i] sr have "Ud_inv (snd r)" by simp
  then show "Ud_inv ud" by (simp add: Ud_inv_def k)
  from k(5,6) show "trace ud \<noteq> []" by auto
qed

section \<open>The builder on example traces\<close>

lemmas reader_defs = VisitOne_def Have_def Advance_def Tlv_GetAlignedLength_def Tlv_GetLength_def
  Tlv_GetTag_def RawInt16_def RawInt32_def RawIntW_def RawInt_def sizeof_W_def Tlv_kFixedLength_def
  dispatch_def MT_LOAD_def MT_STORE_def MT_REG_def MT_INSN_def MT_GET_REG_def MT_PUT_REG_def
  MT_INSN_EXEC_def MT_GET_REG_NX_def MT_PUT_REG_NX_def MT_MMAP_def SIZE_MAX_def
  Entry_GetInsnSeq_def Entry_GetAddr_def Entry_GetSize_def Entry_GetValue_def LdStNxEntry_GetSize_def
  kInsnSeqOffset_def kAddrOffset_def kValueOffset_def Let_def

lemmas builder_defs = Ud_visit_def Ud_LdStEntry_def Ud_InsnEntry_def Ud_LdStNxEntry_def
  HandleInsnSeq_def Flush_def AddTrace_def on_regState_def on_memState_def returned_def
  AddDefs_def AddDef_def AddUses_def AddUses_step_def affected_entries_def lower_bound_def
  reinsert_residue_def kMaxAffectedCount_def Ud_Complete_def

lemmas table_defs = PartialUses_set_def PartialUses_index_def FindPartialUse_def
  PartialUses_reserve_def GetFirstPrime_4 resize_def zero_PartialUse_def replicate_numeral
  empty_slot_def kNoUse_def

lemmas file_defs = UdFile_def CreateAndVisit_Ud_def TraceMm_Init_def Ud_Visit_def
  HeaderEntry_GetMachineType_def HeaderEntry_kFixedLength_def

lemma any_capstone_simps:
  "cs_open any_capstone arch mode = True" "cs_disasm any_capstone arch mode bytes address = None"
  by (simp_all add: any_capstone_def)

lemma Ud_Init_386_small:
  "(Ud_Init any_capstone 3 Little 0 :: error + 32 word Ud) = Inr seed_ud"
  using seed_ud_Init by (simp add: EM_386_def)

lemma example_built:
  "CreateAndVisit_Ud any_capstone Little 0 SIZE_MAX example_trace = Some (Inr example_ud)"
  by (simp add: file_defs Ud_Init_386_small Visit_loop.simps reader_defs builder_defs
      example_trace_def trace_records_def example_ud_def seed_ud_def seed_state_def seed_trace_def
      any_capstone_simps empty_slot_def kNoUse_def)

lemma same_insn_built:
  "CreateAndVisit_Ud any_capstone Little 0 SIZE_MAX same_insn_trace = Some (Inr same_insn_ud)"
  by (simp add: file_defs Ud_Init_386_small Visit_loop.simps reader_defs builder_defs
      same_insn_trace_def same_insn_ud_def seed_ud_def seed_state_def seed_trace_def
      any_capstone_simps empty_slot_def kNoUse_def)

lemma store_load_built:
  "CreateAndVisit_Ud any_capstone Little 0 SIZE_MAX store_load_trace = Some (Inr store_load_ud)"
  by (simp add: file_defs Ud_Init_386_small Visit_loop.simps reader_defs builder_defs table_defs
      store_load_trace_def store_load_ud_def seed_ud_def seed_state_def seed_trace_def
      any_capstone_simps)

section \<open>Resolving a use in a built graph\<close>

lemma space_inv_of_Ud:
  fixes ud :: "'a::len word Ud"
  assumes inv: "Ud_inv ud"
    and space: "(st, startDefIndex) = (regState ud, regDefStartIndex)
        \<or> (st, startDefIndex) = (memState ud, memDefStartIndex)"
  shows "\<exists>ss. space_inv ss st \<and> map snd ss = map startDefIndex (trace ud)
           \<and> length ss = length (trace ud)"
proof -
  from space consider "st = regState ud" "startDefIndex = regDefStartIndex"
    | "st = memState ud" "startDefIndex = memDefStartIndex"
    by auto
  then show ?thesis
  proof cases
    case 1
    with inv have "space_inv (starts_reg ud) st" by (simp add: Ud_inv_def)
    moreover have "map snd (starts_reg ud) = map startDefIndex (trace ud)"
      using 1 by (simp add: starts_reg_def comp_def)
    moreover have "length (starts_reg ud) = length (trace ud)" by (simp add: starts_reg_def)
    ultimately show ?thesis by blast
  next
    case 2
    with inv have "space_inv (starts_mem ud) st" by (simp add: Ud_inv_def)
    moreover have "map snd (starts_mem ud) = map startDefIndex (trace ud)"
      using 2 by (simp add: starts_mem_def comp_def)
    moreover have "length (starts_mem ud) = length (trace ud)" by (simp add: starts_mem_def)
    ultimately show ?thesis by blast
  qed
qed

text \<open>
  \<^verbatim>\<open>ResolveUse\<close> on a graph the builder returned, in terms of the content of the partial-use
  table.
\<close>

lemma ResolveUse_built:
  fixes ud :: "'a::len word Ud"
  assumes built: "CreateAndVisit_Ud cs E start end' bytes = Some (Inr ud)"
    and sizes: "sizes_ok ud"
    and space: "(st, startDefIndex) = (regState ud, regDefStartIndex)
        \<or> (st, startDefIndex) = (memState ud, memDefStartIndex)"
    and valid: "unat u < length (uses st)"
  shows "\<exists>d t. UdState_ResolveUse st u (trace ud) startDefIndex = Inr (d, t)
          \<and> (\<forall>x. (u, x) \<in> stored (entries (partialUses st)) \<longrightarrow> d = x)
          \<and> ((\<forall>x. (u, x) \<notin> stored (entries (partialUses st))) \<longrightarrow>
                d = defs st ! unat (uses st ! unat u))
          \<and> unat t < length (trace ud)
          \<and> startDefIndex (trace ud ! unat t) \<le> uses st ! unat u
          \<and> (\<forall>j < length (trace ud). startDefIndex (trace ud ! j) \<le> uses st ! unat u \<longrightarrow> j \<le> unat t)"
proof -
  note inv = built_inv [OF built sizes]
  from space_inv_of_Ud [OF inv(1) space] obtain ss where ss: "space_inv ss st"
      "map snd ss = map startDefIndex (trace ud)" "length ss = length (trace ud)"
    by blast
  from ss(1) have si: "UdState_inv st" "ss \<noteq> []" "hd ss = (0, 0)" "sorted (map snd ss)"
    by (simp_all add: space_inv_def)
  from si(1) have pi: "PU_inv (partialUses st)" and du: "\<forall>d \<in> set (uses st). unat d < length (defs st)"
    by (simp_all add: UdState_inv_def)
  from space sizes have lu: "length (uses st) < 2 ^ 32" by (auto simp: sizes_ok_def)
  have k: "u \<noteq> kNoUse"
  proof
    assume "u = kNoUse"
    then have "unat u = 2 ^ 32 - 1"
      by (simp add: kNoUse_def unsigned_minus_1_eq_mask mask_eq_exp_minus_1)
    with valid lu show False by simp
  qed
  from pi have sf: "slots_found (entries (partialUses st))" by (simp add: PU_inv_def)
  from find_stored [OF sf PU_inv_has_free [OF pi] k]
  obtain r where r: "PartialUses_find (partialUses st) u = Inr r"
      "case r of None \<Rightarrow> \<forall>v. (u, v) \<notin> stored (entries (partialUses st))
       | Some p \<Rightarrow> first p = u \<and> (u, second p) \<in> stored (entries (partialUses st))"
    by blast
  from valid du have dok: "unat (uses st ! unat u) < length (defs st)" by simp
  have srt: "sorted (map startDefIndex (trace ud))" using si(4) ss(2) by simp
  from sizes have len: "length (trace ud) \<le> 2 ^ 32" by (simp add: sizes_ok_def)
  have "startDefIndex (trace ud ! 0) = snd (ss ! 0)"
    using ss(2,3) inv(2) by (metis length_greater_0_conv nth_map)
  also have "\<dots> = 0" using si(2,3) by (simp add: hd_conv_nth)
  finally have seed: "startDefIndex (trace ud ! 0) \<le> uses st ! unat u" by simp
  from ResolveUse_found [OF valid k r(1) dok srt len inv(2) seed]
  obtain t where t: "UdState_ResolveUse st u (trace ud) startDefIndex =
        Inr (case r of Some partialUse \<Rightarrow> second partialUse
             | None \<Rightarrow> defs st ! unat (uses st ! unat u), t)"
      "unat t < length (trace ud)" "startDefIndex (trace ud ! unat t) \<le> uses st ! unat u"
      "\<forall>j < length (trace ud). startDefIndex (trace ud ! j) \<le> uses st ! unat u \<longrightarrow> j \<le> unat t"
    by blast
  let ?d = "case r of Some partialUse \<Rightarrow> second partialUse
             | None \<Rightarrow> defs st ! unat (uses st ! unat u)"
  have a: "?d = x" if "(u, x) \<in> stored (entries (partialUses st))" for x
  proof (cases r)
    case None
    with r(2) that show ?thesis by simp
  next
    case (Some p)
    with r(2) have "(u, second p) \<in> stored (entries (partialUses st))" by simp
    from stored_functional [OF sf this that] Some show ?thesis by simp
  qed
  have b: "?d = defs st ! unat (uses st ! unat u)"
    if "\<forall>x. (u, x) \<notin> stored (entries (partialUses st))"
  proof (cases r)
    case None
    then show ?thesis by simp
  next
    case (Some p)
    with r(2) that show ?thesis by simp
  qed
  from t a b show ?thesis by blast
qed


lemma store_load_sizes: "sizes_ok store_load_ud"
  by (simp add: sizes_ok_def store_load_ud_def seed_state_def)





section \<open>The producing trace entry of a use\<close>

lemma trace_linked_nth:
  assumes "trace_linked tr" "Suc i < length tr"
  shows "regUseEndIndex (tr ! i) = regUseStartIndex (tr ! Suc i)"
    "memUseEndIndex (tr ! i) = memUseStartIndex (tr ! Suc i)"
proof -
  from assms(2) have i: "i < length (butlast tr)" "i < length (tl tr)" by simp_all
  have "regUseEndIndex (tr ! i) = map regUseEndIndex (butlast tr) ! i"
    using i(1) by (simp add: nth_butlast)
  also have "\<dots> = map regUseStartIndex (tl tr) ! i" using assms(1) by (simp add: trace_linked_def)
  also have "\<dots> = regUseStartIndex (tr ! Suc i)" using i(2) by (simp add: nth_tl)
  finally show "regUseEndIndex (tr ! i) = regUseStartIndex (tr ! Suc i)" .
  have "memUseEndIndex (tr ! i) = map memUseEndIndex (butlast tr) ! i"
    using i(1) by (simp add: nth_butlast)
  also have "\<dots> = map memUseStartIndex (tl tr) ! i" using assms(1) by (simp add: trace_linked_def)
  also have "\<dots> = memUseStartIndex (tr ! Suc i)" using i(2) by (simp add: nth_tl)
  finally show "memUseEndIndex (tr ! i) = memUseStartIndex (tr ! Suc i)" .
qed

lemma tl_butlast_snoc: "tr \<noteq> [] \<Longrightarrow> tl (butlast tr @ [x]) = tl (butlast tr) @ (if butlast tr = [] then [] else [x])"
  by (cases "butlast tr") simp_all

lemma map_tl_butlast_update:
  assumes "tr \<noteq> []" "f (g (last tr)) = f (last tr)"
  shows "map f (tl (butlast tr @ [g (last tr)])) = map f (tl tr)"
proof -
  have "map f (tl (butlast tr @ [g (last tr)])) = tl (map f (butlast tr @ [g (last tr)]))"
    by (simp add: map_tl)
  also have "map f (butlast tr @ [g (last tr)]) = map f tr"
    by (rule map_butlast_last_update [where f = f and g = g, OF assms])
  finally show ?thesis by (simp add: map_tl)
qed

lemma Flush_linked:
  assumes f: "Flush ud = Inr ud'" and l: "trace_linked (trace ud)"
  shows "trace_linked (trace ud')"
proof -
  from f have ne: "trace ud \<noteq> []" by (auto simp: Flush_def split: if_splits)
  let ?g = "\<lambda>t. t\<lparr>regUseEndIndex := word_of_nat (length (uses (regState ud))),
            memUseEndIndex := word_of_nat (length (uses (memState ud))),
            regDefEndIndex := word_of_nat (length (defs (regState ud))),
            memDefEndIndex := word_of_nat (length (defs (memState ud)))\<rparr>"
  from f ne have t: "trace ud' = butlast (trace ud) @ [?g (last (trace ud))]"
    by (auto simp: Flush_def)
  have "map regUseStartIndex (tl (trace ud')) = map regUseStartIndex (tl (trace ud))"
    unfolding t by (rule map_tl_butlast_update [OF ne]) simp
  moreover have "map memUseStartIndex (tl (trace ud')) = map memUseStartIndex (tl (trace ud))"
    unfolding t by (rule map_tl_butlast_update [OF ne]) simp
  moreover have "butlast (trace ud') = butlast (trace ud)" unfolding t by simp
  ultimately show ?thesis using l by (simp add: trace_linked_def)
qed

lemma Flush_last:
  assumes f: "Flush ud = Inr ud'"
  shows "regUseEndIndex (last (trace ud')) = word_of_nat (length (uses (regState ud')))"
    "memUseEndIndex (last (trace ud')) = word_of_nat (length (uses (memState ud')))"
    "trace ud' \<noteq> []"
  using f by (auto simp: Flush_def split: if_splits)

lemma HandleInsnSeq_linked:
  assumes h: "HandleInsnSeq q ud = Inr ud'" and l: "trace_linked (trace ud)"
  shows "trace_linked (trace ud')"
proof (cases "codeIndex (last (trace ud)) = q")
  case True
  with h have "ud' = ud" by (auto simp: HandleInsnSeq_def split: if_splits)
  with l show ?thesis by simp
next
  case False
  with h obtain ud1 where f: "Flush ud = Inr ud1" "ud' = AddTrace q ud1"
    by (auto simp: HandleInsnSeq_def split: if_splits sum.splits)
  note l1 = Flush_linked [OF f(1) l]
  note e = Flush_last [OF f(1)]
  obtain n where n: "trace ud' = trace ud1 @ [n]"
      "regUseStartIndex n = word_of_nat (length (uses (regState ud1)))"
      "memUseStartIndex n = word_of_nat (length (uses (memState ud1)))"
    unfolding f(2) by (simp add: AddTrace_def)
  have b: "butlast (trace ud') = butlast (trace ud1) @ [last (trace ud1)]"
    unfolding n(1) using e(3) by simp
  have t: "tl (trace ud') = tl (trace ud1) @ [n]" unfolding n(1) using e(3) by simp
  have r: "map regUseEndIndex (butlast (trace ud')) = map regUseStartIndex (tl (trace ud'))"
    using l1 e(1) n(2) by (simp only: b t map_append list.map trace_linked_def)
  have m: "map memUseEndIndex (butlast (trace ud')) = map memUseStartIndex (tl (trace ud'))"
    using l1 e(2) n(3) by (simp only: b t map_append list.map trace_linked_def)
  from r m show ?thesis by (simp only: trace_linked_def)
qed

lemma record_step_linked:
  assumes "record_step ud ud'" "trace_linked (trace ud)"
  shows "trace_linked (trace ud')"
  using assms(1) unfolding record_step_def
proof (elim disjE exE conjE)
  assume "trace ud' = trace ud"
  with assms(2) show ?thesis by simp
next
  fix q ud1
  assume "HandleInsnSeq q ud = Inr ud1" "ud' = ud1"
  with HandleInsnSeq_linked [OF _ assms(2)] show ?thesis by simp
next
  fix q ud1 a k st'
  assume "HandleInsnSeq q ud = Inr ud1" "ud' = ud1\<lparr>memState := st'\<rparr>"
  with HandleInsnSeq_linked [OF _ assms(2)] show ?thesis by simp
next
  fix q ud1 a k
  assume "HandleInsnSeq q ud = Inr ud1" "ud' = ud1\<lparr>memState := snd (AddDefs a k (memState ud1))\<rparr>"
  with HandleInsnSeq_linked [OF _ assms(2)] show ?thesis by simp
next
  fix q ud1 a k st'
  assume "HandleInsnSeq q ud = Inr ud1" "ud' = ud1\<lparr>regState := st'\<rparr>"
  with HandleInsnSeq_linked [OF _ assms(2)] show ?thesis by simp
next
  fix q ud1 a k
  assume "HandleInsnSeq q ud = Inr ud1" "ud' = ud1\<lparr>regState := snd (AddDefs a k (regState ud1))\<rparr>"
  with HandleInsnSeq_linked [OF _ assms(2)] show ?thesis by simp
qed

lemma Visit_loop_linked:
  fixes tv :: "TraceMm \<times> 'a::len word Ud"
  assumes "Visit_loop w E s e (Ud_visit cs) tv = Some (Inr r)"
  shows "trace_linked (trace (snd tv)) \<longrightarrow> trace_linked (trace (snd r))"
proof -
  let ?P = "\<lambda>(w :: 'b itself) (E :: Endianness) (s :: nat) (e :: nat) (visit :: 'a word Ud visitor)
      (tv :: TraceMm \<times> 'a word Ud) (y :: error + TraceMm \<times> 'a word Ud).
      visit = Ud_visit cs \<longrightarrow> (\<forall>r. y = Inr r \<longrightarrow>
        trace_linked (trace (snd tv)) \<longrightarrow> trace_linked (trace (snd r)))"
  have "?P w E s e (Ud_visit cs) tv (Inr r)"
  proof (rule Visit_loop.raw_induct [where P = ?P, OF _ assms])
    fix loop :: "'b itself \<Rightarrow> Endianness \<Rightarrow> nat \<Rightarrow> nat \<Rightarrow> 'a word Ud visitor
        \<Rightarrow> TraceMm \<times> 'a word Ud \<Rightarrow> (error + TraceMm \<times> 'a word Ud) option"
      and w E s e visit tv y
    assume IH: "\<And>w E s e visit tv y. loop w E s e visit tv = Some y \<Longrightarrow> ?P w E s e visit tv y"
      and eq: "(if cur (fst tv) = length (data (fst tv)) then Some (Inr tv)
           else case VisitOne w E s e visit tv of Inl e \<Rightarrow> Some (Inl e)
                | Inr tv' \<Rightarrow> loop w E s e visit tv') = Some y"
    show "?P w E s e visit tv y"
    proof (intro impI allI)
      fix r
      assume v: "visit = Ud_visit cs" and y: "y = Inr r" and l: "trace_linked (trace (snd tv))"
      show "trace_linked (trace (snd r))"
      proof (cases "cur (fst tv) = length (data (fst tv))")
        case True
        with eq y have "r = tv" by simp
        with l show ?thesis by simp
      next
        case False
        with eq y obtain tv1 where o: "VisitOne w E s e visit tv = Inr tv1"
            "loop w E s e visit tv1 = Some (Inr r)"
          by (auto split: sum.splits)
        from VisitOne_visitor [OF o(1)] v
        have "snd tv1 = snd tv \<or> record_step (snd tv) (snd tv1)"
          using Ud_visit_step by blast
        with l record_step_linked have "trace_linked (trace (snd tv1))" by auto
        with IH [OF o(2)] v show ?thesis by simp
      qed
    qed
  qed
  then show ?thesis by simp
qed

lemma built_linked:
  fixes ud :: "'a::len word Ud"
  assumes b: "CreateAndVisit_Ud cs E start end' bytes = Some (Inr ud)"
  shows "trace_linked (trace ud)"
proof -
  from b obtain t where t: "Ud_Visit cs E start end' t = Some (Inr ud)"
    by (auto simp: CreateAndVisit_Ud_def split: sum.splits)
  then obtain m ud0 r where
    i: "Ud_Init cs m E (length (data t) div 128) = Inr (ud0 :: 'a word Ud)"
    and l: "Visit_loop TYPE('a) E start end' (Ud_visit cs) (t, ud0) = Some (Inr r)"
    and c: "Ud_Complete (snd r) = Inr ud"
    by (auto simp: Ud_Visit_def split: sum.splits option.splits)
  from Ud_Init_Inr(1) [OF i] have "trace_linked (trace ud0)" by (simp add: trace_linked_def)
  with Visit_loop_linked [OF l] have "trace_linked (trace (snd r))" by simp
  with c show ?thesis by (simp add: Ud_Complete_def Flush_linked)
qed

lemma built_last_end:
  fixes ud :: "'a::len word Ud"
  assumes b: "CreateAndVisit_Ud cs E start end' bytes = Some (Inr ud)"
  shows "regUseEndIndex (last (trace ud)) = word_of_nat (length (uses (regState ud)))"
    "memUseEndIndex (last (trace ud)) = word_of_nat (length (uses (memState ud)))"
proof -
  from b obtain t where t: "Ud_Visit cs E start end' t = Some (Inr ud)"
    by (auto simp: CreateAndVisit_Ud_def split: sum.splits)
  then obtain r :: "TraceMm \<times> 'a word Ud" where c: "Ud_Complete (snd r) = Inr ud"
    by (auto simp: Ud_Visit_def split: sum.splits option.splits)
  then have "Flush (snd r) = Inr ud" by (simp add: Ud_Complete_def)
  from Flush_last [OF this]
  show "regUseEndIndex (last (trace ud)) = word_of_nat (length (uses (regState ud)))"
    "memUseEndIndex (last (trace ud)) = word_of_nat (length (uses (memState ud)))"
    by simp_all
qed

text \<open>
  A use recorded while trace entry \<open>t\<close> was open resolves to an entry that is not later than
  \<open>t\<close>, and to an earlier one exactly when the def it reads was made before \<open>t\<close> was opened.
\<close>

lemma ResolveUse_not_later:
  fixes ud :: "'a::len word Ud"
  assumes built: "CreateAndVisit_Ud cs E start end' bytes = Some (Inr ud)"
    and sizes: "sizes_ok ud"
    and space: "(st, useStart, useEnd, defStart)
          = (regState ud, regUseStartIndex, regUseEndIndex, regDefStartIndex)
        \<or> (st, useStart, useEnd, defStart)
          = (memState ud, memUseStartIndex, memUseEndIndex, memDefStartIndex)"
    and t: "t < length (trace ud)"
    and u: "useStart (trace ud ! t) \<le> u" "u < useEnd (trace ud ! t)"
  shows "unat u < length (uses st)
    \<and> (\<exists>d t'. UdState_ResolveUse st u (trace ud) defStart = Inr (d, t') \<and> unat t' \<le> t
          \<and> (unat t' < t \<longleftrightarrow> uses st ! unat u < defStart (trace ud ! t)))"
proof -
  note inv = built_inv [OF built sizes]
  note lk = built_linked [OF built]
  define ss where "ss = map (\<lambda>x. (useStart x, defStart x)) (trace ud)"
  have si: "space_inv ss st"
    using space inv(1) unfolding ss_def Ud_inv_def starts_reg_def starts_mem_def by auto
  have sp: "(st, defStart) = (regState ud, regDefStartIndex) \<or> (st, defStart) = (memState ud, memDefStartIndex)"
    using space by auto
  from space sizes have lu: "length (uses st) < 2 ^ 32" by (auto simp: sizes_ok_def)
  have next_use: "u < useStart (trace ud ! Suc t)" if "Suc t < length (trace ud)"
    using trace_linked_nth [OF lk that] space u(2) by auto
  have in_ss: "(useStart (trace ud ! i), defStart (trace ud ! i)) \<in> set ss" if "i < length (trace ud)" for i
    unfolding ss_def using that by (auto simp: in_set_conv_nth intro!: exI [of _ i])
  have valid: "unat u < length (uses st)"
  proof (cases "Suc t < length (trace ud)")
    case True
    from in_ss [OF True] si have "unat (useStart (trace ud ! Suc t)) \<le> length (uses st)"
      by (auto simp: space_inv_def)
    with next_use [OF True] show ?thesis by (simp add: word_less_nat_alt)
  next
    case False
    with t have "t = length (trace ud) - 1" by simp
    with inv(2) have "trace ud ! t = last (trace ud)" by (simp add: last_conv_nth)
    with built_last_end [OF built] space have "useEnd (trace ud ! t) = word_of_nat (length (uses st))"
      by auto
    with u(2) lu show ?thesis by (simp add: word_less_nat_alt unat_of_nat)
  qed
  from ResolveUse_built [OF built sizes sp valid]
  obtain d t' where r: "UdState_ResolveUse st u (trace ud) defStart = Inr (d, t')"
      "unat t' < length (trace ud)" "defStart (trace ud ! unat t') \<le> uses st ! unat u"
      "\<forall>j < length (trace ud). defStart (trace ud ! j) \<le> uses st ! unat u \<longrightarrow> j \<le> unat t'"
    by blast
  from si have srt: "sorted (map snd ss)" by (simp add: space_inv_def)
  have mono: "defStart (trace ud ! i) \<le> defStart (trace ud ! j)"
    if "i \<le> j" "j < length (trace ud)" for i j
  proof -
    from that have "map snd ss ! i \<le> map snd ss ! j"
      using srt by (intro sorted_nth_mono) (simp_all add: ss_def)
    with that show ?thesis by (simp add: ss_def)
  qed
  have le: "unat t' \<le> t"
  proof (rule ccontr)
    assume "\<not> unat t' \<le> t"
    then have lt: "Suc t \<le> unat t'" by simp
    with r(2) have st: "Suc t < length (trace ud)" by simp
    from in_ss [OF st] si next_use [OF st]
    have "unat (uses st ! unat u) < unat (defStart (trace ud ! Suc t))"
      by (auto simp: space_inv_def word_less_nat_alt)
    then have "uses st ! unat u < defStart (trace ud ! Suc t)" by (simp add: word_less_nat_alt)
    moreover from mono [OF lt r(2)] r(3) have "defStart (trace ud ! Suc t) \<le> uses st ! unat u" by simp
    ultimately show False by simp
  qed
  have strict: "unat t' < t \<longleftrightarrow> uses st ! unat u < defStart (trace ud ! t)"
  proof
    assume "unat t' < t"
    with r(4) t have "\<not> defStart (trace ud ! t) \<le> uses st ! unat u" by auto
    then show "uses st ! unat u < defStart (trace ud ! t)" by simp
  next
    assume a: "uses st ! unat u < defStart (trace ud ! t)"
    show "unat t' < t"
    proof (rule ccontr)
      assume "\<not> unat t' < t"
      then have "t \<le> unat t'" by simp
      from mono [OF this r(2)] r(3) a show False by simp
    qed
  qed
  from valid r(1) le strict show ?thesis by blast
qed

text \<open>
  Claim C4, amended.  In every ud graph the builder returns for a trace, with vectors within
  the range of their 32-bit indices, in the register and in the memory address space alike:
  a use \<open>u\<close> recorded while trace entry \<open>t\<close> was open, i.e. with
  \<open>trace[t].useStartIndex \<le> u < trace[t].useEndIndex\<close>, is a valid use index, and the producing
  trace index \<open>t'\<close> that \<^verbatim>\<open>ResolveUse\<close> returns for it satisfies \<open>t' \<le> t\<close>; it is strictly earlier,
  \<open>t' < t\<close>, exactly when the def read was made before entry \<open>t\<close> was opened
  (\<open>uses[u] < trace[t].defStartIndex\<close>), and \<open>t' = t\<close> when the entry reads a def it has made
  itself.
\<close>

theorem producing_trace_not_later:
  fixes ud :: "'a::len word Ud"
  assumes built: "CreateAndVisit_Ud cs E start end' bytes = Some (Inr ud)"
    and sizes: "sizes_ok ud"
    and space: "(st, useStart, useEnd, defStart)
          = (regState ud, regUseStartIndex, regUseEndIndex, regDefStartIndex)
        \<or> (st, useStart, useEnd, defStart)
          = (memState ud, memUseStartIndex, memUseEndIndex, memDefStartIndex)"
    and t: "t < length (trace ud)"
    and u: "useStart (trace ud ! t) \<le> u" "u < useEnd (trace ud ! t)"
  shows "unat u < length (uses st)
    \<and> (\<exists>d t'. UdState_ResolveUse st u (trace ud) defStart = Inr (d, t') \<and> unat t' \<le> t
          \<and> (unat t' < t \<longleftrightarrow> uses st ! unat u < defStart (trace ud ! t)))"
  using assms by (rule ResolveUse_not_later)

lemma same_insn_resolve:
  "GetTraceForRegUse same_insn_ud 0 = Inr 1"
  by (simp add: GetTraceForRegUse_def UdState_ResolveUse_def ResolveUse_def upper_bound_def
      upper_bound_loop.simps FindPartialUse_def same_insn_ud_def empty_slot_def kNoUse_def Let_def)

lemma store_load_resolve:
  "GetTraceForMemUse store_load_ud 0 = Inr 1"
  "GetTraceForMemUse store_load_ud 1 = Inr 1"
  "GetTraceForMemUse store_load_ud 2 = Inr 0"
  by (simp_all add: GetTraceForMemUse_def UdState_ResolveUse_def ResolveUse_def upper_bound_def
      upper_bound_loop.simps FindPartialUse_def store_load_ud_def empty_slot_def kNoUse_def Let_def)

theorem producing_trace_not_later_witness:
  "CreateAndVisit_Ud any_capstone Little 0 SIZE_MAX store_load_trace = Some (Inr store_load_ud)
   \<and> sizes_ok store_load_ud
   \<and> 2 < length (trace store_load_ud)
   \<and> memUseStartIndex (trace store_load_ud ! 2) \<le> 0
   \<and> (0 :: u32) < memUseEndIndex (trace store_load_ud ! 2)
   \<and> uses (memState store_load_ud) ! unat (0 :: u32) < memDefStartIndex (trace store_load_ud ! 2)
   \<and> (\<exists>d t'. UdState_ResolveUse (memState store_load_ud) 0 (trace store_load_ud) memDefStartIndex
                = Inr (d, t') \<and> unat t' < 2)
   \<and> GetTraceForMemUse store_load_ud 0 = Inr 1"
proof -
  have sp: "(memState store_load_ud, memUseStartIndex, memUseEndIndex, memDefStartIndex)
          = (regState store_load_ud, regUseStartIndex, regUseEndIndex, regDefStartIndex)
        \<or> (memState store_load_ud, memUseStartIndex, memUseEndIndex, memDefStartIndex)
          = (memState store_load_ud, memUseStartIndex, memUseEndIndex, memDefStartIndex)"
    by simp
  have h: "2 < length (trace store_load_ud)" "memUseStartIndex (trace store_load_ud ! 2) \<le> 0"
    "(0 :: u32) < memUseEndIndex (trace store_load_ud ! 2)"
    "uses (memState store_load_ud) ! unat (0 :: u32) < memDefStartIndex (trace store_load_ud ! 2)"
    by (simp_all add: store_load_ud_def)
  from producing_trace_not_later [OF store_load_built store_load_sizes sp h(1,2,3)] h(4)
  have "\<exists>d t'. UdState_ResolveUse (memState store_load_ud) 0 (trace store_load_ud) memDefStartIndex
                = Inr (d, t') \<and> unat t' < 2"
    by blast
  with store_load_built store_load_sizes h store_load_resolve(1) show ?thesis by blast
qed

text \<open>
  When an instruction reads what it has written itself, the use resolves to the trace entry
  that was open when it was recorded: in the graph of \<open>same_insn_trace\<close> use 0 was recorded
  while entry 1 was open and its producing trace index is 1.
\<close>

theorem producing_trace_not_later_counterexample:
  "CreateAndVisit_Ud any_capstone Little 0 SIZE_MAX same_insn_trace = Some (Inr same_insn_ud)
   \<and> regUseStartIndex (trace same_insn_ud ! 1) \<le> 0
   \<and> (0 :: u32) < regUseEndIndex (trace same_insn_ud ! 1)
   \<and> GetTraceForRegUse same_insn_ud 0 = Inr 1
   \<and> \<not> (1 :: u32) < 1"
  using same_insn_built same_insn_resolve by (simp add: same_insn_ud_def)

section \<open>The end-to-end scenario\<close>

lemma Ud_Init_386_open:
  assumes "cs_open cs CS_ARCH_X86 [CS_MODE_32]"
  shows "(Ud_Init cs 3 Little 0 :: error + 32 word Ud) = Inr seed_ud"
  using assms
  by (simp add: Ud_Init_def UdState_Init_0 AddTrace_def AddDef_def Disasm_Init_def sizeof_W_def
      seed_ud_def seed_state_def seed_trace_def EM_386_def)

lemma Ud_Init_x86_64_words_4:
  "(Ud_Init cs 62 Little 0 :: error + 32 word Ud) = Inl EINVAL"
  by (simp add: Ud_Init_def UdState_Init_0 AddTrace_def AddDef_def Disasm_Init_def sizeof_W_def
      EM_386_def EM_X86_64_def Let_def)

text \<open>
  The graph of \<open>example_trace\<close> for any Capstone that opens the 32-bit x86 mode; what it decodes
  only shows in the \<open>disasm\<close> strings.
\<close>

lemma example_built_open:
  assumes "cs_open cs CS_ARCH_X86 [CS_MODE_32]"
  shows "CreateAndVisit_Ud cs Little 0 SIZE_MAX example_trace =
     Some (Inr (example_ud\<lparr>disasm := [''<unknown>'',
        case cs_disasm cs CS_ARCH_X86 [CS_MODE_32] [0x90] 0x400000 of
          Some (mnemonic, op_str) \<Rightarrow> mnemonic @ '' '' @ op_str
        | None \<Rightarrow> ''<unknown>'']\<rparr>))"
  by (simp add: file_defs Ud_Init_386_open [OF assms] Visit_loop.simps reader_defs builder_defs
      example_trace_def trace_records_def example_ud_def seed_ud_def seed_state_def seed_trace_def
      empty_slot_def kNoUse_def)

lemma spec_trace_fails:
  "CreateAndVisit_Ud cs Little 0 SIZE_MAX spec_trace = (Some (Inl EINVAL) :: (error + 32 word Ud) option)"
  by (simp add: file_defs Ud_Init_x86_64_words_4 reader_defs spec_trace_def trace_records_def)

lemma example_resolve:
  "GetTraceForRegUse (example_ud\<lparr>disasm := ds\<rparr>) 0 = Inr 1"
  by (simp add: GetTraceForRegUse_def UdState_ResolveUse_def ResolveUse_def upper_bound_def
      upper_bound_loop.simps FindPartialUse_def example_ud_def empty_slot_def kNoUse_def Let_def)

lemma UdFile_4M:
  "UdFile cs (0x34 # 0x4D # bytes) start end' =
     map_option (map_sum id Inl) (CreateAndVisit_Ud cs Little start end' (0x34 # 0x4D # bytes))"
  by (simp add: UdFile_def)

text \<open>
  Claim C6, amended.  For the literal little-endian 4-byte trace of the specification with the
  machine type 3 (\<^verbatim>\<open>EM_386\<close>) in its header, and any Capstone that opens the 32-bit x86 mode,
  building the ud graph succeeds and yields: trace length 3 (the seed and the entries of the
  instructions 1 and 2), code length 2, register defs made of the catch-all and one def
  \<open>[0, 4)\<close>, exactly one register use, of def 1, and \<^verbatim>\<open>trace_for_reg_use(0) = 1\<close>.  With the
  machine type 62 (\<^verbatim>\<open>EM_X86_64\<close>) written in the specification the build of the same 4-byte
  trace fails with \<^verbatim>\<open>-EINVAL\<close>, whatever Capstone does.
\<close>

theorem example_trace_graph:
  "(cs_open cs CS_ARCH_X86 [CS_MODE_32] \<longrightarrow>
      (\<exists>ud. UdFile cs example_trace 0 SIZE_MAX = Some (Inr (Inl ud))
         \<and> length (trace ud) = 3 \<and> map codeIndex (trace ud) = [0, 1, 2]
         \<and> length (code ud) = 2
         \<and> defs (regState ud) = [\<lparr>startAddr = 0, endAddr = - 1\<rparr>, \<lparr>startAddr = 0, endAddr = 4\<rparr>]
         \<and> uses (regState ud) = [1]
         \<and> GetTraceForRegUse ud 0 = Inr 1))
   \<and> UdFile cs spec_trace 0 SIZE_MAX = Some (Inl EINVAL)"
proof (intro conjI impI)
  assume o: "cs_open cs CS_ARCH_X86 [CS_MODE_32]"
  let ?ud = "example_ud\<lparr>disasm := [''<unknown>'',
        case cs_disasm cs CS_ARCH_X86 [CS_MODE_32] [0x90] 0x400000 of
          Some (mnemonic, op_str) \<Rightarrow> mnemonic @ '' '' @ op_str
        | None \<Rightarrow> ''<unknown>'']\<rparr>"
  have f: "UdFile cs example_trace 0 SIZE_MAX = Some (Inr (Inl ?ud))"
    using example_built_open [OF o] UdFile_4M [of cs "drop 2 example_trace" 0 SIZE_MAX]
    by (simp add: example_trace_def)
  have g: "length (trace ?ud) = 3" "map codeIndex (trace ?ud) = [0, 1, 2]" "length (code ?ud) = 2"
    "defs (regState ?ud) = [\<lparr>startAddr = 0, endAddr = - 1\<rparr>, \<lparr>startAddr = 0, endAddr = 4\<rparr>]"
    "uses (regState ?ud) = [1]"
    by (simp_all add: example_ud_def)
  have h: "GetTraceForRegUse ?ud 0 = Inr 1" by (rule example_resolve)
  show "\<exists>ud. UdFile cs example_trace 0 SIZE_MAX = Some (Inr (Inl ud))
         \<and> length (trace ud) = 3 \<and> map codeIndex (trace ud) = [0, 1, 2]
         \<and> length (code ud) = 2
         \<and> defs (regState ud) = [\<lparr>startAddr = 0, endAddr = - 1\<rparr>, \<lparr>startAddr = 0, endAddr = 4\<rparr>]
         \<and> uses (regState ud) = [1]
         \<and> GetTraceForRegUse ud 0 = Inr 1"
    by (rule exI [of _ ?ud]) (intro conjI f g h)
next
  show "UdFile cs spec_trace 0 SIZE_MAX = Some (Inl EINVAL)"
    using spec_trace_fails [of cs] UdFile_4M [of cs "drop 2 spec_trace" 0 SIZE_MAX]
    by (simp add: spec_trace_def)
qed

theorem example_trace_graph_witness:
  "cs_open any_capstone CS_ARCH_X86 [CS_MODE_32]
   \<and> UdFile any_capstone example_trace 0 SIZE_MAX = Some (Inr (Inl example_ud))
   \<and> length (trace example_ud) = 3 \<and> length (code example_ud) = 2
   \<and> length (uses (regState example_ud)) = 1
   \<and> GetTraceForRegUse example_ud 0 = Inr 1"
proof -
  have o: "cs_open any_capstone CS_ARCH_X86 [CS_MODE_32]" by (simp add: any_capstone_simps)
  from example_trace_graph [of any_capstone] o
  obtain ud where ud: "UdFile any_capstone example_trace 0 SIZE_MAX = Some (Inr (Inl ud))"
      "length (trace ud) = 3" "length (code ud) = 2" "uses (regState ud) = [1]"
      "GetTraceForRegUse ud 0 = Inr 1"
    by blast
  have "UdFile any_capstone example_trace 0 SIZE_MAX = Some (Inr (Inl example_ud))"
    using example_built UdFile_4M [of any_capstone "drop 2 example_trace" 0 SIZE_MAX]
    by (simp add: example_trace_def)
  with ud have "ud = example_ud" by simp
  with ud o show ?thesis by simp
qed

text \<open>
  With the machine type 62 of the specification the trace is not built: \<^verbatim>\<open>EM_X86_64\<close> needs
  8-byte words, and \<^verbatim>\<open>Disasm::Init\<close> rejects it for the 4-byte words of the header magic.
\<close>

theorem example_trace_graph_counterexample:
  "take 8 spec_trace = [0x34, 0x4D, 0x08, 0x00, 0x3E, 0x00, 0x00, 0x00]
   \<and> HeaderEntry_GetMachineType Little spec_trace 0 = Inr EM_X86_64
   \<and> Disasm_Init any_capstone EM_X86_64 Little (sizeof_W TYPE(32)) = Inl EINVAL
   \<and> UdFile any_capstone spec_trace 0 SIZE_MAX = Some (Inl EINVAL)"
proof -
  have "UdFile any_capstone spec_trace 0 SIZE_MAX = Some (Inl EINVAL)"
    using spec_trace_fails [of any_capstone] UdFile_4M [of any_capstone "drop 2 spec_trace" 0 SIZE_MAX]
    by (simp add: spec_trace_def)
  then show ?thesis
    by (simp add: spec_trace_def HeaderEntry_GetMachineType_def reader_defs EM_X86_64_def
        Disasm_Init_def EM_386_def)
qed

end
